(* ===== verification/Prelude.thy ===== *)
theory Prelude
  imports Main "HOL-Library.Word"
begin

text \<open>
  Prelude of the perfcached development: the names of the machine types, the
  two ways a C byte buffer is touched (a store of a run of bytes and a read of
  a run of bytes), and the list and word facts shared by the components.
  Buffers are byte lists; a pointer into a buffer is an offset.
\<close>

unbundle bit_operations_syntax

type_synonym u8 = "8 word"
type_synonym u16 = "16 word"
type_synonym u32 = "32 word"
type_synonym u64 = "64 word"
type_synonym bytes = "8 word list"

named_theorems wire "reading back a field of a byte string that was just written"
named_theorems widths "lengths of the encodings of the fields"

section \<open>Runs of bytes in a buffer\<close>

text \<open>The effect of \<open>memcpy(buf + i, bs, n)\<close>, and the bytes
  \<open>buf[i] .. buf[i + n - 1]\<close>.\<close>

definition blit :: "'a list \<Rightarrow> nat \<Rightarrow> 'a list \<Rightarrow> 'a list" where
  "blit b i xs = take i b @ xs @ drop (i + length xs) b"

definition window :: "'a list \<Rightarrow> nat \<Rightarrow> nat \<Rightarrow> 'a list" where
  "window b i n = take n (drop i b)"

lemma length_blit [simp]:
  "i + length xs \<le> length b \<Longrightarrow> length (blit b i xs) = length b"
  by (simp add: blit_def)

lemma blit_append:
  assumes "i + length xs + length ys \<le> length b"
  shows "blit (blit b i xs) (i + length xs) ys = blit b i (xs @ ys)"
  using assms by (simp add: blit_def ac_simps)

lemma blit_Nil [simp]: "blit b i [] = b"
  by (simp add: blit_def)

lemma blit_append_at:
  assumes "j = i + length xs" "j + length ys \<le> length b"
  shows "blit (blit b i xs) j ys = blit b i (xs @ ys)"
  using assms blit_append [of i xs ys b] by simp

lemma blit_whole: "blit b 0 xs = xs @ drop (length xs) b"
  by (simp add: blit_def)

lemma blit_at: "i = length xs \<Longrightarrow> blit (xs @ ys) i zs = xs @ zs @ drop (length zs) ys"
  by (simp add: blit_def)

lemma list_update_blit:
  "i < length b \<Longrightarrow> b[i := v] = blit b i [v]"
  by (simp add: blit_def upd_conv_take_nth_drop)

lemma nth_blit:
  assumes "i + length xs \<le> length b" "j < length b"
  shows "blit b i xs ! j =
    (if j < i then b ! j else if j < i + length xs then xs ! (j - i) else b ! j)"
proof -
  have "length (take i b) = i" using assms by simp
  then show ?thesis
    using assms by (auto simp: blit_def nth_append)
qed

lemma length_window [simp]:
  "i + n \<le> length b \<Longrightarrow> length (window b i n) = n"
  by (simp add: window_def)

lemma window_blit_same:
  "i + length xs \<le> length b \<Longrightarrow> window (blit b i xs) i (length xs) = xs"
  by (simp add: window_def blit_def)

lemma window_blit_other:
  assumes "i + length xs \<le> length b" "j + n \<le> length b"
    "j + n \<le> i \<or> i + length xs \<le> j"
  shows "window (blit b i xs) j n = window b j n"
proof (rule nth_equalityI)
  show "length (window (blit b i xs) j n) = length (window b j n)"
    using assms by simp
next
  fix k assume "k < length (window (blit b i xs) j n)"
  then have k: "k < n" using assms by simp
  then show "window (blit b i xs) j n ! k = window b j n ! k"
    using assms by (auto simp: window_def nth_blit)
qed

lemma window_append_skip:
  "length xs \<le> i \<Longrightarrow> window (xs @ ys) i n = window ys (i - length xs) n"
  by (simp add: window_def)

lemma window_append_head:
  "length xs = n \<Longrightarrow> window (xs @ ys) 0 n = xs"
  by (simp add: window_def)

lemma window_append_within:
  "i + n \<le> length xs \<Longrightarrow> window (xs @ ys) i n = window xs i n"
  by (simp add: window_def)

lemma window_add: "window b i (n + m) = window b i n @ window b (i + n) m"
  by (simp add: window_def take_add add.commute [of i n])

lemma window_1: "i < length b \<Longrightarrow> window b i 1 = [b ! i]"
  by (simp add: window_def take_Suc_conv_app_nth)

lemma window_all [simp]: "window b 0 (length b) = b"
  by (simp add: window_def)

lemma ucast_8_32_8 [simp]: "(ucast (ucast (x::u8) :: u32) :: u8) = x"
  by (rule bit_word_eqI) (auto simp: bit_simps)

section \<open>Lists\<close>

lemma find_distinct_key:
  "\<lbrakk>distinct (map f xs); x \<in> set xs\<rbrakk> \<Longrightarrow> find (\<lambda>y. f y = f x) xs = Some x"
  by (induction xs) auto

lemma in_set_drop_conv:
  "y \<in> set (drop k xs) \<longleftrightarrow> (\<exists>j. k \<le> j \<and> j < length xs \<and> y = xs ! j)"
proof
  assume "y \<in> set (drop k xs)"
  then obtain i where "i < length xs - k" "y = xs ! (k + i)" by (auto simp: in_set_conv_nth)
  then show "\<exists>j. k \<le> j \<and> j < length xs \<and> y = xs ! j" by (intro exI [of _ "k + i"]) auto
next
  assume "\<exists>j. k \<le> j \<and> j < length xs \<and> y = xs ! j"
  then obtain j where "k \<le> j" "j < length xs" "y = xs ! j" by blast
  then show "y \<in> set (drop k xs)"
    by (auto simp: in_set_conv_nth intro!: exI [of _ "j - k"])
qed

lemma set_take_drop: "y \<in> set xs \<Longrightarrow> y \<in> set (take k xs) \<or> y \<in> set (drop k xs)"
  by (metis Un_iff append_take_drop_id set_append)

section \<open>Words as naturals\<close>

lemma unat_add_small:
  "unat a + unat b < 2 ^ LENGTH('a) \<Longrightarrow> unat (a + b) = unat a + unat (b :: 'a::len word)"
  using unat_add_lem by blast

lemma unat_mult_small:
  "unat a * unat b < 2 ^ LENGTH('a) \<Longrightarrow> unat (a * b) = unat a * unat (b :: 'a::len word)"
  using unat_mult_lem by blast

lemma unat_and_mask: "unat (w AND mask n) = unat (w :: 'a::len word) mod 2 ^ n"
  unfolding take_bit_eq_mask [symmetric] unsigned_take_bit_eq by (rule take_bit_eq_mod)

lemma unat_shiftr: "unat (drop_bit n w) = unat (w :: 'a::len word) div 2 ^ n"
  unfolding unsigned_drop_bit_eq
  by (simp add: drop_bit_eq_div [symmetric] take_bit_nat_eq_self)

lemma unat_shiftl_small:
  "unat w * 2 ^ n < 2 ^ LENGTH('a) \<Longrightarrow> unat (push_bit n w) = unat (w :: 'a::len word) * 2 ^ n"
  unfolding unsigned_push_bit_eq push_bit_eq_mult [where 'a = nat] by (rule take_bit_nat_eq_self)

lemma unat_ucast_up:
  "LENGTH('a) \<le> LENGTH('b) \<Longrightarrow> unat (ucast (w :: 'a::len word) :: 'b::len word) = unat w"
  by (simp add: unsigned_ucast_eq take_bit_nat_eq_self order_less_le_trans [OF unsigned_less])

lemma unat_of_nat_small: "n < 2 ^ LENGTH('a) \<Longrightarrow> unat (of_nat n :: 'a::len word) = n"
  by (simp add: unsigned_of_nat take_bit_nat_eq_self)

lemma bit_odd_unat: "bit (w :: 'a::len word) n \<longleftrightarrow> odd (unat w div 2 ^ n)"
  by (metis bit_iff_odd bit_unsigned_iff possible_bit_nat)

lemma mod_le_mod: "x \<le> y \<Longrightarrow> x div n = y div n \<Longrightarrow> x mod n \<le> y mod (n :: nat)"
  by (metis diff_le_mono minus_mult_div_eq_mod)

lemma unat_inc: "b \<noteq> - 1 \<Longrightarrow> unat (b + 1) = Suc (unat (b :: 'a::len word))"
  using unatSuc [of b] by (metis add.commute eq_neg_iff_add_eq_0)

lemma word_less_Suc: "a \<le> b \<Longrightarrow> b \<noteq> - 1 \<Longrightarrow> a < b + (1 :: 'a::len word)"
  by (simp add: word_less_nat_alt word_le_nat_alt unat_inc)

end
