(* ===== verification/Codec.thy ===== *)
theory Codec
  imports Prelude
begin

text \<open>
  \<open>src/src/clcodec.h\<close>: the little-endian wire codec.  The six pack and
  unpack helpers act on a buffer at an offset; the write cursor and the read
  cursor are records holding the buffer, the position and the end.  The locale
  \<open>wire_field\<close> is the contract every fixed-width field codec of
  the program meets (this one and the big-endian one of
  \<open>clhold.c\<close>); frame codecs are proved against it.
\<close>

section \<open>Pack and unpack\<close>

definition pc_p16 :: "bytes \<Rightarrow> nat \<Rightarrow> u16 \<Rightarrow> bytes" where
  "pc_p16 p i v = (p[i := ucast v])[i + 1 := ucast (drop_bit 8 v)]"

definition pc_p32 :: "bytes \<Rightarrow> nat \<Rightarrow> u32 \<Rightarrow> bytes" where
  "pc_p32 p i v = pc_p16 (pc_p16 p i (ucast v)) (i + 2) (ucast (drop_bit 16 v))"

definition pc_p64 :: "bytes \<Rightarrow> nat \<Rightarrow> u64 \<Rightarrow> bytes" where
  "pc_p64 p i v = pc_p32 (pc_p32 p i (ucast v)) (i + 4) (ucast (drop_bit 32 v))"

definition pc_g16 :: "bytes \<Rightarrow> nat \<Rightarrow> u16" where
  "pc_g16 p i = ucast (p ! i) OR push_bit 8 (ucast (p ! (i + 1)))"

definition pc_g32 :: "bytes \<Rightarrow> nat \<Rightarrow> u32" where
  "pc_g32 p i = ucast (pc_g16 p i) OR push_bit 16 (ucast (pc_g16 p (i + 2)))"

definition pc_g64 :: "bytes \<Rightarrow> nat \<Rightarrow> u64" where
  "pc_g64 p i = ucast (pc_g32 p i) OR push_bit 32 (ucast (pc_g32 p (i + 4)))"

text \<open>The bytes each width puts on the wire.\<close>

definition le16 :: "u16 \<Rightarrow> bytes" where
  "le16 v = [ucast v, ucast (drop_bit 8 v)]"

definition le32 :: "u32 \<Rightarrow> bytes" where
  "le32 v = le16 (ucast v) @ le16 (ucast (drop_bit 16 v))"

definition le64 :: "u64 \<Rightarrow> bytes" where
  "le64 v = le32 (ucast v) @ le32 (ucast (drop_bit 32 v))"

section \<open>Cursors\<close>

record wcur =
  w_buf :: bytes
  w_p :: nat
  w_end :: nat
  w_ok :: bool

definition pc_wcur_init :: "bytes \<Rightarrow> nat \<Rightarrow> wcur" where
  "pc_wcur_init buf cap = \<lparr>w_buf = buf, w_p = 0, w_end = cap, w_ok = True\<rparr>"

definition pc_wcur_len :: "wcur \<Rightarrow> nat" where
  "pc_wcur_len c = w_p c"

definition pc_wroom :: "wcur \<Rightarrow> nat \<Rightarrow> wcur \<times> bool" where
  "pc_wroom c n =
     (if \<not> w_ok c \<or> w_end c - w_p c < n then (c\<lparr>w_ok := False\<rparr>, False)
      else (c, True))"

definition pc_w8 :: "wcur \<Rightarrow> u32 \<Rightarrow> wcur" where
  "pc_w8 c v =
     (case pc_wroom c 1 of (c, room) \<Rightarrow>
        if room then c\<lparr>w_buf := (w_buf c)[w_p c := ucast v], w_p := w_p c + 1\<rparr> else c)"

definition pc_w16 :: "wcur \<Rightarrow> u16 \<Rightarrow> wcur" where
  "pc_w16 c v =
     (case pc_wroom c 2 of (c, room) \<Rightarrow>
        if room then c\<lparr>w_buf := pc_p16 (w_buf c) (w_p c) v, w_p := w_p c + 2\<rparr> else c)"

definition pc_w32 :: "wcur \<Rightarrow> u32 \<Rightarrow> wcur" where
  "pc_w32 c v =
     (case pc_wroom c 4 of (c, room) \<Rightarrow>
        if room then c\<lparr>w_buf := pc_p32 (w_buf c) (w_p c) v, w_p := w_p c + 4\<rparr> else c)"

definition pc_w64 :: "wcur \<Rightarrow> u64 \<Rightarrow> wcur" where
  "pc_w64 c v =
     (case pc_wroom c 8 of (c, room) \<Rightarrow>
        if room then c\<lparr>w_buf := pc_p64 (w_buf c) (w_p c) v, w_p := w_p c + 8\<rparr> else c)"

definition pc_wraw :: "wcur \<Rightarrow> bytes \<Rightarrow> wcur" where
  "pc_wraw c src =
     (case pc_wroom c (length src) of (c, room) \<Rightarrow>
        if room then c\<lparr>w_buf := blit (w_buf c) (w_p c) src, w_p := w_p c + length src\<rparr> else c)"

record rcur =
  r_buf :: bytes
  r_p :: nat
  r_end :: nat

definition pc_rcur_init :: "bytes \<Rightarrow> nat \<Rightarrow> rcur" where
  "pc_rcur_init buf n = \<lparr>r_buf = buf, r_p = 0, r_end = n\<rparr>"

definition pc_rfits :: "rcur \<Rightarrow> nat \<Rightarrow> bool" where
  "pc_rfits c n \<longleftrightarrow> r_p c \<le> r_end c \<and> r_end c - r_p c \<ge> n"

definition pc_rskip :: "rcur \<Rightarrow> nat \<Rightarrow> rcur \<times> bool" where
  "pc_rskip c n = (if \<not> pc_rfits c n then (c, False) else (c\<lparr>r_p := r_p c + n\<rparr>, True))"

text \<open>The unchecked reads: the value and the advanced cursor.\<close>

definition pc_ru8 :: "rcur \<Rightarrow> u8 \<times> rcur" where
  "pc_ru8 c = (r_buf c ! r_p c, c\<lparr>r_p := r_p c + 1\<rparr>)"

definition pc_ru16 :: "rcur \<Rightarrow> u16 \<times> rcur" where
  "pc_ru16 c = (pc_g16 (r_buf c) (r_p c), c\<lparr>r_p := r_p c + 2\<rparr>)"

definition pc_ru32 :: "rcur \<Rightarrow> u32 \<times> rcur" where
  "pc_ru32 c = (pc_g32 (r_buf c) (r_p c), c\<lparr>r_p := r_p c + 4\<rparr>)"

definition pc_ru64 :: "rcur \<Rightarrow> u64 \<times> rcur" where
  "pc_ru64 c = (pc_g64 (r_buf c) (r_p c), c\<lparr>r_p := r_p c + 8\<rparr>)"

definition pc_rubytes :: "rcur \<Rightarrow> nat \<Rightarrow> bytes \<times> rcur" where
  "pc_rubytes c n = (window (r_buf c) (r_p c) n, c\<lparr>r_p := r_p c + n\<rparr>)"

text \<open>The checked reads: \<open>None\<close> when the field is not wholly there.\<close>

definition pc_r8 :: "rcur \<Rightarrow> (u8 \<times> rcur) option" where
  "pc_r8 c = (if \<not> pc_rfits c 1 then None else Some (pc_ru8 c))"

definition pc_r16 :: "rcur \<Rightarrow> (u16 \<times> rcur) option" where
  "pc_r16 c = (if \<not> pc_rfits c 2 then None else Some (pc_ru16 c))"

definition pc_r32 :: "rcur \<Rightarrow> (u32 \<times> rcur) option" where
  "pc_r32 c = (if \<not> pc_rfits c 4 then None else Some (pc_ru32 c))"

definition pc_r64 :: "rcur \<Rightarrow> (u64 \<times> rcur) option" where
  "pc_r64 c = (if \<not> pc_rfits c 8 then None else Some (pc_ru64 c))"

definition pc_rbytes :: "rcur \<Rightarrow> nat \<Rightarrow> (bytes \<times> rcur) option" where
  "pc_rbytes c n = (if \<not> pc_rfits c n then None else Some (pc_rubytes c n))"

text \<open>A frame is a run of cursor writes in order; its reader performs the
  reads of the same widths in the same order.\<close>

datatype field = F8 u8 | F16 u16 | F32 u32 | F64 u64 | FRaw bytes

definition write_field :: "wcur \<Rightarrow> field \<Rightarrow> wcur" where
  "write_field c f =
     (case f of F8 v \<Rightarrow> pc_w8 c (ucast v) | F16 v \<Rightarrow> pc_w16 c v | F32 v \<Rightarrow> pc_w32 c v
      | F64 v \<Rightarrow> pc_w64 c v | FRaw bs \<Rightarrow> pc_wraw c bs)"

definition read_like :: "field \<Rightarrow> rcur \<Rightarrow> (field \<times> rcur) option" where
  "read_like f c =
     (case f of F8 _ \<Rightarrow> map_option (apfst F8) (pc_r8 c)
      | F16 _ \<Rightarrow> map_option (apfst F16) (pc_r16 c)
      | F32 _ \<Rightarrow> map_option (apfst F32) (pc_r32 c)
      | F64 _ \<Rightarrow> map_option (apfst F64) (pc_r64 c)
      | FRaw bs \<Rightarrow> map_option (apfst FRaw) (pc_rbytes c (length bs)))"

fun read_all :: "field list \<Rightarrow> rcur \<Rightarrow> (field list \<times> rcur) option" where
  "read_all [] c = Some ([], c)"
| "read_all (f # fs) c =
     (case read_like f c of None \<Rightarrow> None
      | Some (g, c') \<Rightarrow>
          (case read_all fs c' of None \<Rightarrow> None | Some (gs, c'') \<Rightarrow> Some (g # gs, c'')))"

primrec field_bytes :: "field \<Rightarrow> bytes" where
  "field_bytes (F8 v) = [v]"
| "field_bytes (F16 v) = le16 v"
| "field_bytes (F32 v) = le32 v"
| "field_bytes (F64 v) = le64 v"
| "field_bytes (FRaw bs) = bs"

definition frame_bytes :: "field list \<Rightarrow> bytes" where
  "frame_bytes fs = concat (map field_bytes fs)"

definition wcur_inv :: "wcur \<Rightarrow> bool" where
  "wcur_inv c \<longleftrightarrow> w_p c \<le> w_end c \<and> w_end c \<le> length (w_buf c)"

section \<open>The contract of a fixed-width field\<close>

locale wire_field =
  fixes put :: "bytes \<Rightarrow> nat \<Rightarrow> 'a \<Rightarrow> bytes"
    and get :: "bytes \<Rightarrow> nat \<Rightarrow> 'a"
    and enc :: "'a \<Rightarrow> bytes"
    and wd :: nat
  assumes len_enc: "length (enc v) = wd"
    and put_blit: "i + wd \<le> length b \<Longrightarrow> put b i v = blit b i (enc v)"
    and get_enc: "get (xs @ enc v @ ys) (length xs) = v"
    and enc_get: "i + wd \<le> length b \<Longrightarrow> enc (get b i) = window b i wd"
begin

lemma enc_inj: "enc v = enc w \<Longrightarrow> v = w"
  using get_enc [of "[]" v "[]"] get_enc [of "[]" w "[]"] by simp

lemma get_window:
  assumes "i + wd \<le> length b" "j + wd \<le> length c" "window b i wd = window c j wd"
  shows "get b i = get c j"
  using assms enc_get enc_inj by metis

lemma get_head: "get (enc v @ ys) 0 = v"
  using get_enc [of "[]" v ys] by simp

lemma get_last: "get (enc v) 0 = v"
  using get_enc [of "[]" v "[]"] by simp

lemma get_skip:
  assumes "length xs \<le> i" "i + wd \<le> length xs + length ys"
  shows "get (xs @ ys) i = get ys (i - length xs)"
  using assms by (intro get_window) (auto simp: window_append_skip)

lemma get_Cons:
  assumes "0 < i" "i + wd \<le> Suc (length ys)"
  shows "get (y # ys) i = get ys (i - 1)"
  using get_skip [of "[y]" i ys] assms by simp

lemma put_at: "wd \<le> length ys \<Longrightarrow> i = length xs \<Longrightarrow> put (xs @ ys) i v = xs @ enc v @ drop wd ys"
  by (simp add: put_blit blit_def len_enc)

lemma length_put: "i + wd \<le> length b \<Longrightarrow> length (put b i v) = length b"
  by (simp add: put_blit len_enc)

lemma get_put_same: "i + wd \<le> length b \<Longrightarrow> get (put b i v) i = v"
  by (simp add: put_blit blit_def) (metis get_enc add_leD1 length_take min.absorb2)

lemma get_put_other:
  assumes "i + wd \<le> length b" "j + wd \<le> length b" "j + wd \<le> i \<or> i + wd \<le> j"
  shows "get (put b i v) j = get b j"
proof (rule get_window)
  show "j + wd \<le> length (put b i v)" using assms by (simp add: length_put)
  show "window (put b i v) j wd = window b j wd"
    using assms by (simp add: put_blit window_blit_other len_enc)
qed (use assms in simp)

end

section \<open>The little-endian fields meet it\<close>

lemma split_or_16: "(ucast (ucast (v::u16) :: u8) :: u16) OR push_bit 8 (ucast (ucast (drop_bit 8 v) :: u8)) = v"
  by (rule bit_word_eqI) (auto simp: bit_simps)

lemma split_or_32: "(ucast (ucast (v::u32) :: u16) :: u32) OR push_bit 16 (ucast (ucast (drop_bit 16 v) :: u16)) = v"
  by (rule bit_word_eqI) (auto simp: bit_simps)

lemma split_or_64: "(ucast (ucast (v::u64) :: u32) :: u64) OR push_bit 32 (ucast (ucast (drop_bit 32 v) :: u32)) = v"
  by (rule bit_word_eqI) (auto simp: bit_simps)

lemma join_lo_16: "(ucast (ucast (a::u8) OR push_bit 8 (ucast (c::u8)) :: u16) :: u8) = a"
  by (rule bit_word_eqI) (auto simp: bit_simps)

lemma join_hi_16: "(ucast (drop_bit 8 (ucast (a::u8) OR push_bit 8 (ucast (c::u8)) :: u16)) :: u8) = c"
  by (rule bit_word_eqI) (auto simp: bit_simps dest: bit_imp_le_length)

lemma join_lo_32: "(ucast (ucast (a::u16) OR push_bit 16 (ucast (c::u16)) :: u32) :: u16) = a"
  by (rule bit_word_eqI) (auto simp: bit_simps)

lemma join_hi_32: "(ucast (drop_bit 16 (ucast (a::u16) OR push_bit 16 (ucast (c::u16)) :: u32)) :: u16) = c"
  by (rule bit_word_eqI) (auto simp: bit_simps dest: bit_imp_le_length)

lemma join_lo_64: "(ucast (ucast (a::u32) OR push_bit 32 (ucast (c::u32)) :: u64) :: u32) = a"
  by (rule bit_word_eqI) (auto simp: bit_simps)

lemma join_hi_64: "(ucast (drop_bit 32 (ucast (a::u32) OR push_bit 32 (ucast (c::u32)) :: u64)) :: u32) = c"
  by (rule bit_word_eqI) (auto simp: bit_simps dest: bit_imp_le_length)

lemma window_2: "i + 2 \<le> length b \<Longrightarrow> window b i 2 = [b ! i, b ! (i + 1)]"
  by (rule nth_equalityI) (auto simp: window_def less_Suc_eq numeral_2_eq_2)

interpretation f16: wire_field pc_p16 pc_g16 le16 2
proof unfold_locales
  fix b :: bytes and i v
  assume "i + 2 \<le> length b"
  then show "pc_p16 b i v = blit b i (le16 v)"
    using blit_append [of i "[ucast v]" "[ucast (drop_bit 8 v)]" b]
    by (simp add: pc_p16_def le16_def list_update_blit)
next
  fix b :: bytes and i
  assume "i + 2 \<le> length b"
  then show "le16 (pc_g16 b i) = window b i 2"
    unfolding le16_def pc_g16_def join_lo_16 join_hi_16 by (simp add: window_2)
qed (simp_all add: le16_def pc_g16_def nth_append split_or_16)

interpretation f32: wire_field pc_p32 pc_g32 le32 4
proof unfold_locales
  fix v show "length (le32 v) = 4" by (simp add: le32_def f16.len_enc)
next
  fix b :: bytes and i v
  assume "i + 4 \<le> length b"
  then show "pc_p32 b i v = blit b i (le32 v)"
    by (simp add: pc_p32_def le32_def f16.put_blit f16.length_put f16.len_enc blit_append_at)
next
  fix xs ys :: bytes and v
  show "pc_g32 (xs @ le32 v @ ys) (length xs) = v"
    using f16.get_enc [of xs "ucast v"]
      f16.get_enc [of "xs @ le16 (ucast v)" "ucast (drop_bit 16 v)" ys]
    by (simp add: pc_g32_def le32_def f16.len_enc split_or_32)
next
  fix b :: bytes and i
  assume i: "i + 4 \<le> length b"
  have "window b i 4 = window b i (2 + 2)" by simp
  also have "\<dots> = window b i 2 @ window b (i + 2) 2"
    by (rule window_add)
  finally show "le32 (pc_g32 b i) = window b i 4"
    unfolding le32_def pc_g32_def join_lo_32 join_hi_32 using i by (simp add: f16.enc_get)
qed

interpretation f64: wire_field pc_p64 pc_g64 le64 8
proof unfold_locales
  fix v show "length (le64 v) = 8" by (simp add: le64_def f32.len_enc)
next
  fix b :: bytes and i v
  assume "i + 8 \<le> length b"
  then show "pc_p64 b i v = blit b i (le64 v)"
    by (simp add: pc_p64_def le64_def f32.put_blit f32.length_put f32.len_enc blit_append_at)
next
  fix xs ys :: bytes and v
  show "pc_g64 (xs @ le64 v @ ys) (length xs) = v"
    using f32.get_enc [of xs "ucast v"]
      f32.get_enc [of "xs @ le32 (ucast v)" "ucast (drop_bit 32 v)" ys]
    by (simp add: pc_g64_def le64_def f32.len_enc split_or_64)
next
  fix b :: bytes and i
  assume i: "i + 8 \<le> length b"
  have "window b i 8 = window b i (4 + 4)" by simp
  also have "\<dots> = window b i 4 @ window b (i + 4) 4"
    by (rule window_add)
  finally show "le64 (pc_g64 b i) = window b i 8"
    unfolding le64_def pc_g64_def join_lo_64 join_hi_64 using i by (simp add: f32.enc_get)
qed

lemmas le_widths [widths, simp] = f16.len_enc f32.len_enc f64.len_enc
lemmas le_puts = f16.put_blit f32.put_blit f64.put_blit
lemmas le_put_lengths [simp] = f16.length_put f32.length_put f64.length_put
lemmas le_wire [wire] =
  f16.get_head f32.get_head f64.get_head f16.get_last f32.get_last f64.get_last
  f16.get_skip f32.get_skip f64.get_skip f16.get_Cons f32.get_Cons f64.get_Cons

section \<open>Cursors: order is position\<close>

lemma write_field_raw:
  assumes "wcur_inv c"
  shows "write_field c f = pc_wraw c (field_bytes f)"
  using assms
  by (cases f)
    (auto simp: write_field_def pc_w8_def pc_w16_def pc_w32_def pc_w64_def pc_wraw_def
      pc_wroom_def wcur_inv_def le_puts list_update_blit)

lemma wraw_room:
  assumes "wcur_inv c" "w_ok c" "w_p c + length bs \<le> w_end c"
  shows "pc_wraw c bs = c\<lparr>w_buf := blit (w_buf c) (w_p c) bs, w_p := w_p c + length bs\<rparr>"
  using assms by (auto simp: pc_wraw_def pc_wroom_def)

lemma wraw_no_room:
  assumes "\<not> w_ok c \<or> w_end c < w_p c + length bs" "wcur_inv c"
  shows "pc_wraw c bs = c\<lparr>w_ok := False\<rparr>"
  using assms by (auto simp: pc_wraw_def pc_wroom_def wcur_inv_def)

lemma wcur_inv_wraw: "wcur_inv c \<Longrightarrow> wcur_inv (pc_wraw c bs)"
  by (auto simp: pc_wraw_def pc_wroom_def wcur_inv_def)

lemma wcur_inv_write: "wcur_inv c \<Longrightarrow> wcur_inv (write_field c f)"
  by (simp add: write_field_raw wcur_inv_wraw)

lemma write_all_not_ok:
  "\<lbrakk>wcur_inv c; \<not> w_ok c\<rbrakk> \<Longrightarrow> \<not> w_ok (foldl write_field c fs) \<and>
     w_buf (foldl write_field c fs) = w_buf c \<and> w_p (foldl write_field c fs) = w_p c"
proof (induction fs arbitrary: c)
  case (Cons f fs)
  then have "write_field c f = c\<lparr>w_ok := False\<rparr>"
    by (simp add: write_field_raw wraw_no_room)
  moreover have "wcur_inv (c\<lparr>w_ok := False\<rparr>)" using Cons.prems by (simp add: wcur_inv_def)
  ultimately show ?case using Cons.IH [of "c\<lparr>w_ok := False\<rparr>"] by simp
qed simp

lemma write_all_ok:
  "\<lbrakk>wcur_inv c; w_ok c; w_p c + length (frame_bytes fs) \<le> w_end c\<rbrakk> \<Longrightarrow>
   foldl write_field c fs =
     c\<lparr>w_buf := blit (w_buf c) (w_p c) (frame_bytes fs),
       w_p := w_p c + length (frame_bytes fs)\<rparr>"
proof (induction fs arbitrary: c)
  case Nil
  then show ?case by (simp add: frame_bytes_def)
next
  case (Cons f fs)
  let ?bs = "field_bytes f"
  let ?c = "c\<lparr>w_buf := blit (w_buf c) (w_p c) ?bs, w_p := w_p c + length ?bs\<rparr>"
  have room: "w_p c + length ?bs + length (frame_bytes fs) \<le> w_end c"
    using Cons.prems by (simp add: frame_bytes_def)
  have w: "write_field c f = ?c"
    using Cons.prems room by (simp add: write_field_raw wraw_room)
  have "wcur_inv ?c" using wcur_inv_write [OF Cons.prems(1), of f] w by simp
  then have "foldl write_field ?c fs =
      ?c\<lparr>w_buf := blit (w_buf ?c) (w_p ?c) (frame_bytes fs),
         w_p := w_p ?c + length (frame_bytes fs)\<rparr>"
    using Cons.prems room by (intro Cons.IH) auto
  moreover have "blit (blit (w_buf c) (w_p c) ?bs) (w_p c + length ?bs) (frame_bytes fs)
      = blit (w_buf c) (w_p c) (?bs @ frame_bytes fs)"
    using Cons.prems room by (intro blit_append) (simp add: wcur_inv_def)
  ultimately show ?case using w by (simp add: frame_bytes_def ac_simps)
qed

lemma write_all_overflow:
  "\<lbrakk>wcur_inv c; w_ok c; w_end c < w_p c + length (frame_bytes fs)\<rbrakk> \<Longrightarrow>
   \<not> w_ok (foldl write_field c fs)"
proof (induction fs arbitrary: c)
  case Nil
  then show ?case by (simp add: frame_bytes_def wcur_inv_def)
next
  case (Cons f fs)
  let ?bs = "field_bytes f"
  have inv: "wcur_inv (write_field c f)" using Cons.prems by (simp add: wcur_inv_write)
  show ?case
  proof (cases "w_p c + length ?bs \<le> w_end c")
    case True
    then have "write_field c f =
        c\<lparr>w_buf := blit (w_buf c) (w_p c) ?bs, w_p := w_p c + length ?bs\<rparr>"
      using Cons.prems by (simp add: write_field_raw wraw_room)
    then show ?thesis
      using Cons.IH [OF inv] Cons.prems by (simp add: frame_bytes_def ac_simps)
  next
    case False
    then have "write_field c f = c\<lparr>w_ok := False\<rparr>"
      using Cons.prems by (intro trans [OF write_field_raw wraw_no_room]) auto
    then show ?thesis using write_all_not_ok [OF inv] by simp
  qed
qed

lemma drop_wraw:
  assumes "wcur_inv c"
  shows "drop (w_end c) (w_buf (pc_wraw c bs)) = drop (w_end c) (w_buf c)"
proof (rule nth_equalityI)
  fix i assume "i < length (drop (w_end c) (w_buf (pc_wraw c bs)))"
  then show "drop (w_end c) (w_buf (pc_wraw c bs)) ! i = drop (w_end c) (w_buf c) ! i"
    using assms by (auto simp: pc_wraw_def pc_wroom_def wcur_inv_def nth_blit split: if_splits)
qed (use assms in \<open>auto simp: pc_wraw_def pc_wroom_def wcur_inv_def\<close>)

lemma w_end_wraw [simp]: "w_end (pc_wraw c bs) = w_end c"
  by (auto simp: pc_wraw_def pc_wroom_def)

lemma write_all_tail:
  "wcur_inv c \<Longrightarrow>
   drop (w_end c) (w_buf (foldl write_field c fs)) = drop (w_end c) (w_buf c)"
proof (induction fs arbitrary: c)
  case (Cons f fs)
  then show ?case
    using Cons.IH [OF wcur_inv_write [OF Cons.prems, of f]]
    by (simp add: write_field_raw drop_wraw)
qed simp

lemma read_like_frame:
  assumes "r_buf c = xs @ field_bytes f @ ys" "r_p c = length xs"
    "length xs + length (field_bytes f) \<le> r_end c"
  shows "read_like f c = Some (f, c\<lparr>r_p := r_p c + length (field_bytes f)\<rparr>)"
  using assms
  by (cases f)
    (auto simp: read_like_def pc_r8_def pc_r16_def pc_r32_def pc_r64_def pc_rbytes_def
      pc_ru8_def pc_ru16_def pc_ru32_def pc_ru64_def pc_rubytes_def pc_rfits_def nth_append
      f16.get_enc f32.get_enc f64.get_enc window_def)

lemma read_all_frame:
  "\<lbrakk>r_buf c = xs @ frame_bytes fs @ ys; r_p c = length xs;
    length xs + length (frame_bytes fs) \<le> r_end c\<rbrakk> \<Longrightarrow>
   read_all fs c = Some (fs, c\<lparr>r_p := r_p c + length (frame_bytes fs)\<rparr>)"
proof (induction fs arbitrary: c xs)
  case Nil
  then show ?case by (simp add: frame_bytes_def)
next
  case (Cons f fs)
  let ?c = "c\<lparr>r_p := r_p c + length (field_bytes f)\<rparr>"
  have "read_like f c = Some (f, ?c)"
    using Cons.prems by (intro read_like_frame [of _ xs _ "frame_bytes fs @ ys"]) (auto simp: frame_bytes_def)
  moreover have "read_all fs ?c = Some (fs, ?c\<lparr>r_p := r_p ?c + length (frame_bytes fs)\<rparr>)"
    using Cons.prems by (intro Cons.IH [of _ "xs @ field_bytes f"]) (auto simp: frame_bytes_def)
  ultimately show ?case by (simp add: frame_bytes_def ac_simps)
qed

lemma read_never_past_end:
  assumes "read_like f c = Some (g, c')" "r_p c \<le> r_end c"
  shows "r_p c' \<le> r_end c' \<and> r_end c' = r_end c \<and> r_buf c' = r_buf c"
  using assms
  by (cases f)
    (auto simp: read_like_def pc_r8_def pc_r16_def pc_r32_def pc_r64_def pc_rbytes_def
      pc_ru8_def pc_ru16_def pc_ru32_def pc_ru64_def pc_rubytes_def pc_rfits_def
      split: if_splits)

text \<open>C39: A frame written through the bounded write cursor keeps \<open>ok\<close> exactly when
  all its fields fit in the capacity; the bytes past the capacity are never
  touched; and when it fits, the cursor's length is the frame's length and the
  read cursor, reading fields of the same widths in the same order, returns
  exactly the fields that were written.\<close>

theorem cursor_roundtrip:
  assumes "cap \<le> length buf"
  shows "let c = foldl write_field (pc_wcur_init buf cap) fs in
    (w_ok c \<longleftrightarrow> length (frame_bytes fs) \<le> cap) \<and>
    drop cap (w_buf c) = drop cap buf \<and>
    (w_ok c \<longrightarrow> pc_wcur_len c = length (frame_bytes fs) \<and>
      read_all fs (pc_rcur_init (w_buf c) (pc_wcur_len c)) =
        Some (fs, \<lparr>r_buf = w_buf c, r_p = pc_wcur_len c, r_end = pc_wcur_len c\<rparr>))"
proof -
  let ?i = "pc_wcur_init buf cap"
  let ?c = "foldl write_field ?i fs"
  have inv: "wcur_inv ?i" using assms by (simp add: wcur_inv_def pc_wcur_init_def)
  have tail: "drop cap (w_buf ?c) = drop cap buf"
    using write_all_tail [OF inv, of fs] by (simp add: pc_wcur_init_def)
  have "w_ok ?c \<longleftrightarrow> length (frame_bytes fs) \<le> cap"
    using write_all_ok [OF inv, of fs] write_all_overflow [OF inv, of fs]
    by (cases "length (frame_bytes fs) \<le> cap") (auto simp: pc_wcur_init_def)
  moreover {
    assume fits: "length (frame_bytes fs) \<le> cap"
    then have c: "?c = ?i\<lparr>w_buf := blit buf 0 (frame_bytes fs), w_p := length (frame_bytes fs)\<rparr>"
      using write_all_ok [OF inv, of fs] by (simp add: pc_wcur_init_def)
    have "read_all fs (pc_rcur_init (w_buf ?c) (w_p ?c)) =
        Some (fs, (pc_rcur_init (w_buf ?c) (w_p ?c))\<lparr>r_p := 0 + length (frame_bytes fs)\<rparr>)"
      unfolding c
      by (subst read_all_frame [where xs = "[]"])
        (auto simp: pc_rcur_init_def blit_whole)
    with c have "pc_wcur_len ?c = length (frame_bytes fs) \<and>
      read_all fs (pc_rcur_init (w_buf ?c) (pc_wcur_len ?c)) =
        Some (fs, \<lparr>r_buf = w_buf ?c, r_p = pc_wcur_len ?c, r_end = pc_wcur_len ?c\<rparr>)"
      by (simp add: pc_wcur_len_def pc_rcur_init_def)
  }
  ultimately show ?thesis using tail unfolding Let_def by blast
qed

theorem cursor_roundtrip_witness:
  "let c = foldl write_field (pc_wcur_init (replicate 16 0) 10) [F16 513, F8 7, F32 70000] in
    w_ok c \<and> pc_wcur_len c = 7 \<and>
    read_all [F16 513, F8 7, F32 70000] (pc_rcur_init (w_buf c) (pc_wcur_len c)) =
      Some ([F16 513, F8 7, F32 70000], \<lparr>r_buf = w_buf c, r_p = 7, r_end = 7\<rparr>)"
  using cursor_roundtrip [of 10 "replicate 16 0" "[F16 513, F8 7, F32 70000]"]
  by (simp add: Let_def frame_bytes_def del: foldl.simps read_all.simps) auto

end
