(* ===== verification/Clmap.thy ===== *)
theory Clmap
  imports Codec
begin

text \<open>
  \<open>src/src/clmap.h\<close> and \<open>src/src/clmap.c\<close>: the cluster map, its wire format, its
  epoch order and its placement weights.  A map is a record with the fields of
  \<open>struct pc_clmap\<close>; \<open>node\<close> is the fixed array of \<open>PC_CLMAP_MAXNODE\<close>
  entries of which the first \<open>nnodes\<close> are in use.  \<open>encode\<close> returns
  \<open>None\<close> for \<open>-1\<close> and otherwise the written buffer and the length;
  \<open>decode\<close> returns the reason of a refusal or the map.
\<close>

section \<open>Constants and structures\<close>

definition PC_CLMAP_MAGIC :: u32 where "PC_CLMAP_MAGIC = 0x504D4350"
definition PC_CLMAP_VER :: u16 where "PC_CLMAP_VER = 2"
definition PC_CLMAP_HDR :: nat where "PC_CLMAP_HDR = 30"
definition PC_CLMAP_NODESZ :: nat where "PC_CLMAP_NODESZ = 32"
definition PC_CLMAP_MAXNODE :: nat where "PC_CLMAP_MAXNODE = 257"
definition PC_CLMAP_MAXBYTES :: nat where
  "PC_CLMAP_MAXBYTES = PC_CLMAP_HDR + PC_CLMAP_NODESZ * PC_CLMAP_MAXNODE"
definition PC_CLMAP_ST_READY :: u8 where "PC_CLMAP_ST_READY = 2"
definition PC_CLMAP_W_UNSET :: u16 where "PC_CLMAP_W_UNSET = 0xFFFF"

lemmas clmap_consts = PC_CLMAP_HDR_def PC_CLMAP_NODESZ_def PC_CLMAP_MAXNODE_def
  PC_CLMAP_MAXBYTES_def

record clmap_node =
  ident :: bytes
  node_id :: u16
  addr :: u32
  cluster_port :: u16
  client_port :: u16
  state :: u8
  master_pref :: u8
  cap_weight :: u16
  admin_weight :: u16

record clmap =
  map_term :: u32
  map_seq :: u32
  master_id :: u16
  backup_id :: u16
  map_mode :: u8
  eager :: u8
  config_digest :: u64
  nnodes :: u16
  node :: "clmap_node list"

datatype clmap_why = Short | Magic | Version | Count | Trunc | Dup

section \<open>Local little-endian accessors\<close>

definition clmap_w16 :: "bytes \<Rightarrow> nat \<Rightarrow> u16 \<Rightarrow> bytes" where
  "clmap_w16 p i v = (p[i := ucast v])[i + 1 := ucast (drop_bit 8 v)]"

definition clmap_w32 :: "bytes \<Rightarrow> nat \<Rightarrow> u32 \<Rightarrow> bytes" where
  "clmap_w32 p i v = clmap_w16 (clmap_w16 p i (ucast v)) (i + 2) (ucast (drop_bit 16 v))"

definition clmap_w64 :: "bytes \<Rightarrow> nat \<Rightarrow> u64 \<Rightarrow> bytes" where
  "clmap_w64 p i v = clmap_w32 (clmap_w32 p i (ucast v)) (i + 4) (ucast (drop_bit 32 v))"

definition clmap_r16 :: "bytes \<Rightarrow> nat \<Rightarrow> u16" where
  "clmap_r16 p i = ucast (p ! i) OR push_bit 8 (ucast (p ! (i + 1)))"

definition clmap_r32 :: "bytes \<Rightarrow> nat \<Rightarrow> u32" where
  "clmap_r32 p i = ucast (clmap_r16 p i) OR push_bit 16 (ucast (clmap_r16 p (i + 2)))"

definition clmap_r64 :: "bytes \<Rightarrow> nat \<Rightarrow> u64" where
  "clmap_r64 p i = ucast (clmap_r32 p i) OR push_bit 32 (ucast (clmap_r32 p (i + 4)))"

section \<open>Encode\<close>

definition clmap_put_header :: "bytes \<Rightarrow> clmap \<Rightarrow> bytes" where
  "clmap_put_header buf m =
    (let buf = clmap_w32 buf 0 PC_CLMAP_MAGIC;
         buf = clmap_w16 buf 4 PC_CLMAP_VER;
         buf = clmap_w32 buf 6 (map_term m);
         buf = clmap_w32 buf 10 (map_seq m);
         buf = clmap_w16 buf 14 (master_id m);
         buf = clmap_w16 buf 16 (backup_id m);
         buf = buf[18 := map_mode m];
         buf = buf[19 := (if eager m \<noteq> 0 then 1 else 0)];
         buf = clmap_w64 buf 20 (config_digest m)
     in clmap_w16 buf 28 (nnodes m))"

definition clmap_put_node :: "bytes \<Rightarrow> nat \<Rightarrow> clmap_node \<Rightarrow> bytes" where
  "clmap_put_node buf p n =
    (let buf = blit buf p (ident n);
         buf = clmap_w16 buf (p + 16) (node_id n);
         buf = clmap_w32 buf (p + 18) (addr n);
         buf = clmap_w16 buf (p + 22) (cluster_port n);
         buf = clmap_w16 buf (p + 24) (client_port n);
         buf = buf[p + 26 := state n];
         buf = buf[p + 27 := master_pref n];
         buf = clmap_w16 buf (p + 28) (cap_weight n)
     in clmap_w16 buf (p + 30) (admin_weight n))"

fun clmap_put_nodes :: "bytes \<Rightarrow> nat \<Rightarrow> clmap_node list \<Rightarrow> bytes" where
  "clmap_put_nodes buf p [] = buf"
| "clmap_put_nodes buf p (n # ns) =
     clmap_put_nodes (clmap_put_node buf p n) (p + PC_CLMAP_NODESZ) ns"

text \<open>The entries in use: what every \<open>for (i = 0; i < m->nnodes; i++)\<close> visits.\<close>

definition used_nodes :: "clmap \<Rightarrow> clmap_node list" where
  "used_nodes m = take (unat (nnodes m)) (node m)"

definition pc_clmap_encode :: "clmap \<Rightarrow> bytes \<Rightarrow> nat \<Rightarrow> (bytes \<times> nat) option" where
  "pc_clmap_encode m buf cap =
    (if unat (nnodes m) > PC_CLMAP_MAXNODE then None
     else let need = PC_CLMAP_HDR + unat (nnodes m) * PC_CLMAP_NODESZ in
       if cap < need then None
       else Some (clmap_put_nodes (clmap_put_header buf m) PC_CLMAP_HDR (used_nodes m), need))"

section \<open>Decode\<close>

definition zero_node :: clmap_node where
  "zero_node = \<lparr>ident = replicate 16 0, node_id = 0, addr = 0, cluster_port = 0,
     client_port = 0, state = 0, master_pref = 0, cap_weight = 0, admin_weight = 0\<rparr>"

definition clmap_get_node :: "bytes \<Rightarrow> nat \<Rightarrow> clmap_node" where
  "clmap_get_node buf p =
    \<lparr>ident = window buf p 16,
     node_id = clmap_r16 buf (p + 16),
     addr = clmap_r32 buf (p + 18),
     cluster_port = clmap_r16 buf (p + 22),
     client_port = clmap_r16 buf (p + 24),
     state = buf ! (p + 26),
     master_pref = buf ! (p + 27),
     cap_weight = clmap_r16 buf (p + 28),
     admin_weight = clmap_r16 buf (p + 30)\<rparr>"

fun clmap_get_nodes :: "bytes \<Rightarrow> nat \<Rightarrow> nat \<Rightarrow> clmap_node list" where
  "clmap_get_nodes buf p 0 = []"
| "clmap_get_nodes buf p (Suc n) =
     clmap_get_node buf p # clmap_get_nodes buf (p + PC_CLMAP_NODESZ) n"

definition clmap_fill :: "bytes \<Rightarrow> nat \<Rightarrow> clmap" where
  "clmap_fill buf cnt =
    \<lparr>map_term = clmap_r32 buf 6,
     map_seq = clmap_r32 buf 10,
     master_id = clmap_r16 buf 14,
     backup_id = clmap_r16 buf 16,
     map_mode = buf ! 18,
     eager = buf ! 19,
     config_digest = clmap_r64 buf 20,
     nnodes = of_nat cnt,
     node = clmap_get_nodes buf PC_CLMAP_HDR cnt @ replicate (PC_CLMAP_MAXNODE - cnt) zero_node\<rparr>"

fun clmap_dup :: "clmap_node list \<Rightarrow> bool" where
  "clmap_dup [] \<longleftrightarrow> False"
| "clmap_dup (x # xs) \<longleftrightarrow>
     list_ex (\<lambda>y. node_id x = node_id y \<or> ident x = ident y) xs \<or> clmap_dup xs"

definition pc_clmap_decode :: "bytes \<Rightarrow> clmap_why + clmap" where
  "pc_clmap_decode buf =
    (if length buf < PC_CLMAP_HDR then Inl Short
     else if clmap_r32 buf 0 \<noteq> PC_CLMAP_MAGIC then Inl Magic
     else if clmap_r16 buf 4 \<noteq> PC_CLMAP_VER then Inl Version
     else let cnt = unat (clmap_r16 buf 28) in
       if cnt > PC_CLMAP_MAXNODE then Inl Count
       else if length buf \<noteq> PC_CLMAP_HDR + cnt * PC_CLMAP_NODESZ then Inl Trunc
       else let out = clmap_fill buf cnt in
         if clmap_dup (used_nodes out) then Inl Dup else Inr out)"

section \<open>Order, weights, lookup\<close>

definition pc_clmap_epoch_cmp :: "u32 \<Rightarrow> u32 \<Rightarrow> u32 \<Rightarrow> u32 \<Rightarrow> int" where
  "pc_clmap_epoch_cmp a_term a_seq b_term b_seq =
    (if a_term \<noteq> b_term then (if a_term < b_term then -1 else 1)
     else if a_seq \<noteq> b_seq then (if a_seq < b_seq then -1 else 1)
     else 0)"

definition pc_clmap_weight :: "clmap_node \<Rightarrow> u32" where
  "pc_clmap_weight n =
    (if admin_weight n \<noteq> PC_CLMAP_W_UNSET then ucast (admin_weight n) else ucast (cap_weight n))"

definition pc_clmap_placeable :: "clmap_node \<Rightarrow> bool" where
  "pc_clmap_placeable n \<longleftrightarrow> state n = PC_CLMAP_ST_READY \<and> pc_clmap_weight n > 0"

definition pc_clmap_placeable_count :: "clmap \<Rightarrow> nat" where
  "pc_clmap_placeable_count m =
    fold (\<lambda>nd n. if pc_clmap_placeable nd then n + 1 else n) (used_nodes m) 0"

definition pc_clmap_find :: "clmap \<Rightarrow> u16 \<Rightarrow> clmap_node option" where
  "pc_clmap_find m i = find (\<lambda>n. node_id n = i) (used_nodes m)"

section \<open>Well-formed maps\<close>

definition clmap_wf :: "clmap \<Rightarrow> bool" where
  "clmap_wf m \<longleftrightarrow>
     unat (nnodes m) \<le> PC_CLMAP_MAXNODE \<and> length (node m) = PC_CLMAP_MAXNODE \<and>
     list_all (\<lambda>n. length (ident n) = 16) (used_nodes m) \<and>
     distinct (map node_id (used_nodes m)) \<and> distinct (map ident (used_nodes m))"

text \<open>What a decoder of an encoded map sees: \<open>eager\<close> as a truth value and the
  entries past \<open>nnodes\<close> cleared.\<close>

definition clmap_norm :: "clmap \<Rightarrow> clmap" where
  "clmap_norm m = m\<lparr>eager := (if eager m \<noteq> 0 then 1 else 0),
     node := used_nodes m @ replicate (PC_CLMAP_MAXNODE - unat (nnodes m)) zero_node\<rparr>"

definition node_bytes :: "clmap_node \<Rightarrow> bytes" where
  "node_bytes n = ident n @ le16 (node_id n) @ le32 (addr n) @ le16 (cluster_port n)
     @ le16 (client_port n) @ [state n] @ [master_pref n] @ le16 (cap_weight n)
     @ le16 (admin_weight n)"

definition header_bytes :: "clmap \<Rightarrow> bytes" where
  "header_bytes m = le32 PC_CLMAP_MAGIC @ le16 PC_CLMAP_VER @ le32 (map_term m)
     @ le32 (map_seq m) @ le16 (master_id m) @ le16 (backup_id m) @ [map_mode m]
     @ [if eager m \<noteq> 0 then 1 else 0] @ le64 (config_digest m) @ le16 (nnodes m)"

definition clmap_bytes :: "clmap \<Rightarrow> bytes" where
  "clmap_bytes m = header_bytes m @ concat (map node_bytes (used_nodes m))"

section \<open>The accessors are the codec's\<close>

lemma clmap_accessors [simp]:
  "clmap_w16 = pc_p16" "clmap_w32 = pc_p32" "clmap_w64 = pc_p64"
  "clmap_r16 = pc_g16" "clmap_r32 = pc_g32" "clmap_r64 = pc_g64"
  by (intro ext; simp add: clmap_w16_def pc_p16_def clmap_w32_def pc_p32_def clmap_w64_def
      pc_p64_def clmap_r16_def pc_g16_def clmap_r32_def pc_g32_def clmap_r64_def pc_g64_def
      fun_eq_iff)+

section \<open>Encode writes the byte string of the map\<close>

lemma length_node_bytes: "length (ident n) = 16 \<Longrightarrow> length (node_bytes n) = 32"
  by (simp add: node_bytes_def)

lemma length_header_bytes [simp]: "length (header_bytes m) = 30"
  by (simp add: header_bytes_def)

lemma put_header_blit:
  assumes "30 \<le> length buf"
  shows "clmap_put_header buf m = blit buf 0 (header_bytes m)"
  using assms
  by (simp add: clmap_put_header_def Let_def header_bytes_def le_puts list_update_blit
      blit_append_at del: append_assoc) simp

lemma put_node_blit:
  assumes "p + 32 \<le> length buf" "length (ident n) = 16"
  shows "clmap_put_node buf p n = blit buf p (node_bytes n)"
  using assms
  by (simp add: clmap_put_node_def Let_def node_bytes_def le_puts list_update_blit
      blit_append_at del: append_assoc) (simp only: append_assoc append.simps)

lemma put_nodes_blit:
  "\<lbrakk>p + 32 * length ns \<le> length buf; list_all (\<lambda>n. length (ident n) = 16) ns\<rbrakk> \<Longrightarrow>
   clmap_put_nodes buf p ns = blit buf p (concat (map node_bytes ns))"
proof (induction ns arbitrary: buf p)
  case (Cons n ns)
  have len: "length (node_bytes n) = 32" using Cons.prems by (simp add: length_node_bytes)
  have total: "length (concat (map node_bytes ns)) = 32 * length ns"
    using Cons.prems(2) by (induction ns) (auto simp: length_node_bytes)
  have "clmap_put_nodes buf p (n # ns) =
      clmap_put_nodes (blit buf p (node_bytes n)) (p + 32) ns"
    using Cons.prems by (simp add: put_node_blit clmap_consts)
  also have "\<dots> = blit (blit buf p (node_bytes n)) (p + 32) (concat (map node_bytes ns))"
    using Cons.prems len by (intro Cons.IH) auto
  also have "\<dots> = blit buf p (node_bytes n @ concat (map node_bytes ns))"
    using Cons.prems len total by (intro blit_append_at) auto
  finally show ?case by simp
qed simp

lemma length_used_nodes:
  "length (node m) = PC_CLMAP_MAXNODE \<Longrightarrow> unat (nnodes m) \<le> PC_CLMAP_MAXNODE \<Longrightarrow>
   length (used_nodes m) = unat (nnodes m)"
  by (simp add: used_nodes_def)

lemma length_concat_nodes:
  "list_all (\<lambda>n. length (ident n) = 16) ns \<Longrightarrow>
   length (concat (map node_bytes ns)) = 32 * length ns"
  by (induction ns) (auto simp: length_node_bytes)

lemma length_clmap_bytes:
  "clmap_wf m \<Longrightarrow> length (clmap_bytes m) = PC_CLMAP_HDR + unat (nnodes m) * PC_CLMAP_NODESZ"
  by (simp add: clmap_bytes_def clmap_wf_def length_concat_nodes length_used_nodes clmap_consts)

lemma encode_bytes:
  assumes "clmap_wf m" "length (clmap_bytes m) \<le> cap" "cap \<le> length buf"
  shows "pc_clmap_encode m buf cap =
    Some (clmap_bytes m @ drop (length (clmap_bytes m)) buf, length (clmap_bytes m))"
proof -
  have wf: "unat (nnodes m) \<le> 257" "list_all (\<lambda>n. length (ident n) = 16) (used_nodes m)"
    "length (used_nodes m) = unat (nnodes m)"
    using assms(1) by (auto simp: clmap_wf_def length_used_nodes clmap_consts)
  have len: "length (clmap_bytes m) = 30 + unat (nnodes m) * 32"
    using assms(1) by (simp add: length_clmap_bytes clmap_consts)
  have "clmap_put_nodes (clmap_put_header buf m) 30 (used_nodes m) =
      blit (blit buf 0 (header_bytes m)) 30 (concat (map node_bytes (used_nodes m)))"
    using assms wf len by (simp add: put_header_blit put_nodes_blit)
  also have "\<dots> = blit buf 0 (clmap_bytes m)"
    unfolding clmap_bytes_def using assms wf len
    by (intro blit_append_at) (auto simp: length_concat_nodes)
  finally show ?thesis
    using assms wf len by (simp add: pc_clmap_encode_def clmap_consts blit_whole Let_def)
qed

section \<open>Decode reads it back\<close>

lemma get_node_bytes:
  assumes "length (ident n) = 16"
  shows "clmap_get_node (xs @ node_bytes n @ ys) (length xs) = n"
  using assms
  by (simp add: clmap_get_node_def node_bytes_def wire window_append_skip
      window_append_head nth_append)

lemma get_nodes_bytes:
  "list_all (\<lambda>n. length (ident n) = 16) ns \<Longrightarrow>
   clmap_get_nodes (xs @ concat (map node_bytes ns)) (length xs) (length ns) = ns"
proof (induction ns arbitrary: xs)
  case (Cons n ns)
  then have "clmap_get_nodes ((xs @ node_bytes n) @ concat (map node_bytes ns))
      (length (xs @ node_bytes n)) (length ns) = ns"
    by (intro Cons.IH) simp
  with Cons.prems show ?case
    by (simp add: get_node_bytes length_node_bytes PC_CLMAP_NODESZ_def)
qed simp

lemma clmap_dup_iff:
  "clmap_dup ns \<longleftrightarrow> \<not> (distinct (map node_id ns) \<and> distinct (map ident ns))"
  by (induction ns) (auto simp: list_ex_iff)

lemma header_reads:
  "pc_g32 (clmap_bytes m) 0 = PC_CLMAP_MAGIC" "pc_g16 (clmap_bytes m) 4 = PC_CLMAP_VER"
  "pc_g32 (clmap_bytes m) 6 = map_term m" "pc_g32 (clmap_bytes m) 10 = map_seq m"
  "pc_g16 (clmap_bytes m) 14 = master_id m" "pc_g16 (clmap_bytes m) 16 = backup_id m"
  "clmap_bytes m ! 18 = map_mode m"
  "clmap_bytes m ! 19 = (if eager m \<noteq> 0 then 1 else 0)"
  "pc_g64 (clmap_bytes m) 20 = config_digest m" "pc_g16 (clmap_bytes m) 28 = nnodes m"
  by (simp_all add: clmap_bytes_def header_bytes_def wire nth_append)

lemma fill_bytes:
  assumes "clmap_wf m"
  shows "clmap_fill (clmap_bytes m) (unat (nnodes m)) = clmap_norm m"
proof -
  have wf: "unat (nnodes m) \<le> 257" "list_all (\<lambda>n. length (ident n) = 16) (used_nodes m)"
    "length (used_nodes m) = unat (nnodes m)"
    using assms by (auto simp: clmap_wf_def length_used_nodes clmap_consts)
  have "clmap_get_nodes (clmap_bytes m) 30 (unat (nnodes m)) = used_nodes m"
    using get_nodes_bytes [OF wf(2), of "header_bytes m"] wf(3) by (simp add: clmap_bytes_def)
  then show ?thesis
    by (simp add: clmap_fill_def clmap_norm_def header_reads PC_CLMAP_HDR_def)
qed

lemma used_nodes_norm:
  assumes "clmap_wf m"
  shows "used_nodes (clmap_norm m) = used_nodes m"
  using assms by (simp add: used_nodes_def clmap_norm_def clmap_wf_def)

lemma decode_bytes:
  assumes "clmap_wf m"
  shows "pc_clmap_decode (clmap_bytes m) = Inr (clmap_norm m)"
proof -
  have "\<not> clmap_dup (used_nodes m)" "unat (nnodes m) \<le> PC_CLMAP_MAXNODE"
    using assms by (auto simp: clmap_wf_def clmap_dup_iff)
  then show ?thesis
    using assms
    by (simp add: pc_clmap_decode_def length_clmap_bytes fill_bytes used_nodes_norm header_reads)
qed

section \<open>What an accepted frame is\<close>

lemma node_bytes_get:
  assumes "p + 32 \<le> length buf"
  shows "node_bytes (clmap_get_node buf p) = window buf p 32"
proof -
  have "window buf p 32 = window buf p (16 + (2 + (4 + (2 + (2 + (1 + (1 + (2 + 2))))))))"
    by simp
  then show ?thesis
    using assms unfolding window_add
    by (simp add: node_bytes_def clmap_get_node_def f16.enc_get f32.enc_get window_1
        add.commute [of _ p] flip: One_nat_def)
qed

lemma length_ident_get: "p + 32 \<le> length buf \<Longrightarrow> length (ident (clmap_get_node buf p)) = 16"
  by (simp add: clmap_get_node_def)

lemma get_nodes_canonical:
  "p + 32 * n \<le> length buf \<Longrightarrow>
   concat (map node_bytes (clmap_get_nodes buf p n)) = window buf p (32 * n) \<and>
   length (clmap_get_nodes buf p n) = n \<and>
   list_all (\<lambda>x. length (ident x) = 16) (clmap_get_nodes buf p n)"
proof (induction n arbitrary: p)
  case 0
  then show ?case by (simp add: window_def)
next
  case (Suc n)
  have "window buf p (32 * Suc n) = window buf p (32 + 32 * n)" by simp
  then show ?case
    using Suc.prems Suc.IH [of "p + 32"]
    by (simp add: PC_CLMAP_NODESZ_def node_bytes_get window_add length_ident_get)
qed

lemma header_canonical:
  assumes "30 \<le> length buf" "pc_g32 buf 0 = PC_CLMAP_MAGIC" "pc_g16 buf 4 = PC_CLMAP_VER"
    "buf ! 19 = 0 \<or> buf ! 19 = 1"
  shows "header_bytes (clmap_fill buf (unat (pc_g16 buf 28))) = window buf 0 30"
proof -
  have "window buf 0 30 =
      window buf 0 (4 + (2 + (4 + (4 + (2 + (2 + (1 + (1 + (8 + 2)))))))))"
    by simp
  then show ?thesis
    using assms unfolding window_add
    by (auto simp: header_bytes_def clmap_fill_def f16.enc_get f32.enc_get f64.enc_get window_1
        simp flip: One_nat_def assms(2,3))
qed

lemma used_nodes_fill:
  assumes "unat c \<le> 257" "30 + 32 * unat c \<le> length buf"
  shows "used_nodes (clmap_fill buf (unat c)) = clmap_get_nodes buf 30 (unat (c :: u16))"
  using assms get_nodes_canonical [of 30 "unat c" buf]
  by (simp add: used_nodes_def clmap_fill_def PC_CLMAP_HDR_def)

lemma decode_Inr:
  assumes "pc_clmap_decode buf = Inr m"
  shows "30 \<le> length buf" "pc_g32 buf 0 = PC_CLMAP_MAGIC" "pc_g16 buf 4 = PC_CLMAP_VER"
    "unat (pc_g16 buf 28) \<le> 257" "length buf = 30 + 32 * unat (pc_g16 buf 28)"
    "m = clmap_fill buf (unat (pc_g16 buf 28))" "\<not> clmap_dup (used_nodes m)"
  using assms by (auto simp: pc_clmap_decode_def Let_def clmap_consts split: if_splits)

lemma decode_wf:
  assumes "pc_clmap_decode buf = Inr m"
  shows "clmap_wf m"
proof -
  note d = decode_Inr [OF assms]
  have u: "used_nodes m = clmap_get_nodes buf 30 (unat (pc_g16 buf 28))"
    using d used_nodes_fill by simp
  show ?thesis
    using d u get_nodes_canonical [of 30 "unat (pc_g16 buf 28)" buf]
    by (auto simp: clmap_wf_def clmap_dup_iff clmap_fill_def clmap_consts)
qed

lemma decode_canonical:
  assumes "pc_clmap_decode buf = Inr m" "eager m = 0 \<or> eager m = 1"
  shows "clmap_bytes m = buf"
proof -
  note d = decode_Inr [OF assms(1)]
  let ?n = "unat (pc_g16 buf 28)"
  have "buf ! 19 = 0 \<or> buf ! 19 = 1" using d(6) assms(2) by (simp add: clmap_fill_def)
  then have "clmap_bytes m = window buf 0 30 @ window buf 30 (32 * ?n)"
    using d get_nodes_canonical [of 30 ?n buf]
    by (simp add: clmap_bytes_def header_canonical used_nodes_fill)
  also have "\<dots> = window buf 0 (length buf)"
    using d(5) window_add [of buf 0 30 "32 * ?n"] by simp
  finally show ?thesis by simp
qed

section \<open>Properties\<close>

definition sample_node :: "nat \<Rightarrow> clmap_node" where
  "sample_node k = \<lparr>ident = replicate 15 7 @ [of_nat k], node_id = of_nat k,
     addr = 0x0A000000 + of_nat k, cluster_port = 7000, client_port = 6379, state = 2,
     master_pref = 1, cap_weight = 1000, admin_weight = 0xFFFF\<rparr>"

definition sample_map :: clmap where
  "sample_map = \<lparr>map_term = 3, map_seq = 9, master_id = 1, backup_id = 2, map_mode = 1,
     eager = 1, config_digest = 0x1122334455667788, nnodes = 3,
     node = map sample_node [1, 2, 3] @ replicate 254 zero_node\<rparr>"

lemma used_sample: "used_nodes sample_map = map sample_node [1, 2, 3]"
  by (simp add: used_nodes_def sample_map_def)

lemma sample_wf: "clmap_wf sample_map"
  unfolding clmap_wf_def used_sample
  by (simp add: sample_map_def sample_node_def clmap_consts)

text \<open>C28: Encoding a well-formed map into a large enough buffer succeeds, writes exactly
  \<open>PC_CLMAP_HDR + nnodes * PC_CLMAP_NODESZ\<close> bytes (never more than
  \<open>PC_CLMAP_MAXBYTES\<close>) and nothing behind them, and decoding those bytes returns the map
  with \<open>eager\<close> as a truth value.\<close>

theorem clmap_roundtrip:
  assumes "clmap_wf m" "PC_CLMAP_MAXBYTES \<le> cap" "cap \<le> length buf"
  shows "\<exists>out need. pc_clmap_encode m buf cap = Some (out, need) \<and>
    need = PC_CLMAP_HDR + unat (nnodes m) * PC_CLMAP_NODESZ \<and> need \<le> PC_CLMAP_MAXBYTES \<and>
    drop need out = drop need buf \<and>
    pc_clmap_decode (take need out) = Inr (clmap_norm m)"
proof -
  have need: "length (clmap_bytes m) = PC_CLMAP_HDR + unat (nnodes m) * PC_CLMAP_NODESZ"
    using assms(1) by (rule length_clmap_bytes)
  then have max: "length (clmap_bytes m) \<le> PC_CLMAP_MAXBYTES"
    using assms(1) by (simp add: clmap_wf_def clmap_consts)
  with assms have "pc_clmap_encode m buf cap =
      Some (clmap_bytes m @ drop (length (clmap_bytes m)) buf, length (clmap_bytes m))"
    by (intro encode_bytes) auto
  then show ?thesis
    using need max decode_bytes [OF assms(1)] by (simp add: assms)
qed

theorem clmap_roundtrip_witness:
  "\<exists>out need. pc_clmap_encode sample_map (replicate 9000 0) 8254 = Some (out, need) \<and>
    need = 126 \<and> pc_clmap_decode (take need out) = Inr (clmap_norm sample_map)"
proof -
  have "PC_CLMAP_MAXBYTES \<le> 8254" "8254 \<le> length (replicate 9000 (0::u8))"
    by (simp_all add: clmap_consts)
  from clmap_roundtrip [OF sample_wf this] show ?thesis
    by (auto simp: clmap_consts sample_map_def)
qed



end
