(* ===== verification/Select.thy ===== *)
theory Select
  imports Prelude "HOL-Library.Multiset"
begin

text \<open>
  Choosing by a comparison: the three loop shapes the placement code uses (a
  running best, a selection sort of the first few places, a count of those
  ahead), over an arbitrary comparison, and the contract a comparison has to
  meet for the three to agree.  \<open>Clplace\<close> interprets the contract on the comparison of
  \<open>clplace.c\<close>.
\<close>

section \<open>The loops\<close>

definition running_best :: "('c \<Rightarrow> 'c \<Rightarrow> bool) \<Rightarrow> 'c list \<Rightarrow> 'c option" where
  "running_best bt xs =
     fold (\<lambda>x best. case best of None \<Rightarrow> Some x
       | Some b \<Rightarrow> if bt x b then Some x else best) xs None"

definition best_index :: "('c \<Rightarrow> 'c \<Rightarrow> bool) \<Rightarrow> 'c list \<Rightarrow> nat \<Rightarrow> nat" where
  "best_index bt c k =
     fold (\<lambda>j best. if bt (c ! j) (c ! best) then j else best) [k + 1 ..< length c] k"

definition swap_best :: "('c \<Rightarrow> 'c \<Rightarrow> bool) \<Rightarrow> 'c list \<Rightarrow> nat \<Rightarrow> 'c list" where
  "swap_best bt c k =
     (let best = best_index bt c k in
      if best \<noteq> k then (c[k := c ! best])[best := c ! k] else c)"

function select_from :: "('c \<Rightarrow> 'c \<Rightarrow> bool) \<Rightarrow> 'c list \<Rightarrow> nat \<Rightarrow> nat \<Rightarrow> 'c list" where
  "select_from bt c k mx =
     (if k < mx then let c' = swap_best bt c k in c' ! k # select_from bt c' (k + 1) mx else [])"
  by pat_completeness auto
termination by (relation "measure (\<lambda>(bt, c, k, mx). mx - k)") auto

declare select_from.simps [simp del]

lemma mset_map_ex: "mset d = mset (map f xs) \<Longrightarrow> \<exists>ys. mset ys = mset xs \<and> d = map f ys"
proof (induction d arbitrary: xs)
  case (Cons a d)
  then obtain x where x: "x \<in> set xs" "f x = a"
    by (metis image_iff list.set_intros(1) mset_eq_setD set_map)
  then obtain us vs where xs: "xs = us @ x # vs" by (meson split_list)
  with Cons.prems x have "mset d = mset (map f (us @ vs))" by simp
  then obtain ys where "mset ys = mset (us @ vs)" "d = map f ys" using Cons.IH by blast
  with xs x show ?case by (intro exI [of _ "x # ys"]) simp
qed simp

section \<open>The contract of a comparison\<close>

locale ranking =
  fixes bt :: "'c \<Rightarrow> 'c \<Rightarrow> bool" and ok :: "'c \<Rightarrow> bool" and key :: "'c \<Rightarrow> 'k"
  assumes bt_asym: "ok a \<Longrightarrow> ok b \<Longrightarrow> bt a b \<Longrightarrow> \<not> bt b a"
    and bt_trans: "ok a \<Longrightarrow> ok b \<Longrightarrow> ok c \<Longrightarrow> bt a b \<Longrightarrow> bt b c \<Longrightarrow> bt a c"
    and bt_total: "ok a \<Longrightarrow> ok b \<Longrightarrow> key a \<noteq> key b \<Longrightarrow> bt a b \<or> bt b a"
begin

lemma bt_irrefl: "ok a \<Longrightarrow> \<not> bt a a"
  using bt_asym by blast

lemma running_best_fold:
  "\<lbrakk>\<forall>x \<in> set (b # xs). ok x; distinct (map key (b # xs))\<rbrakk> \<Longrightarrow>
   \<exists>r. fold (\<lambda>x best. case best of None \<Rightarrow> Some x
         | Some b \<Rightarrow> if bt x b then Some x else best) xs (Some b) = Some r \<and>
     r \<in> set (b # xs) \<and> (\<forall>y \<in> set (b # xs). y \<noteq> r \<longrightarrow> bt r y)"
proof (induction xs arbitrary: b)
  case (Cons x xs)
  show ?case
  proof (cases "bt x b")
    case True
    then obtain r where r: "fold (\<lambda>x best. case best of None \<Rightarrow> Some x
         | Some b \<Rightarrow> if bt x b then Some x else best) xs (Some x) = Some r"
      "r \<in> set (x # xs)" "\<forall>y \<in> set (x # xs). y \<noteq> r \<longrightarrow> bt r y"
      using Cons.IH [of x] Cons.prems by auto
    have "bt r b"
      using r True Cons.prems by (cases "x = r") (auto intro: bt_trans [of r x b])
    with r True show ?thesis by auto
  next
    case False
    then obtain r where r: "fold (\<lambda>x best. case best of None \<Rightarrow> Some x
         | Some b \<Rightarrow> if bt x b then Some x else best) xs (Some b) = Some r"
      "r \<in> set (b # xs)" "\<forall>y \<in> set (b # xs). y \<noteq> r \<longrightarrow> bt r y"
      using Cons.IH [of b] Cons.prems by auto
    have bx: "bt b x" using False Cons.prems bt_total [of b x] by auto
    have "bt r x"
      using r bx Cons.prems by (cases "b = r") (auto intro: bt_trans [of r b x])
    with r False show ?thesis by auto
  qed
qed simp

lemma running_best_max:
  assumes "\<forall>x \<in> set xs. ok x" "distinct (map key xs)" "xs \<noteq> []"
  obtains r where "running_best bt xs = Some r" "r \<in> set xs" "\<forall>y \<in> set xs. y \<noteq> r \<longrightarrow> bt r y"
proof -
  obtain b ys where xs: "xs = b # ys" using assms(3) by (cases xs) auto
  with running_best_fold [of b ys] assms(1,2) that show ?thesis
    by (auto simp: running_best_def)
qed

lemma max_unique:
  assumes "\<forall>x \<in> A. ok x" "r \<in> A" "s \<in> A" "\<forall>y \<in> A. y \<noteq> r \<longrightarrow> bt r y" "\<forall>y \<in> A. y \<noteq> s \<longrightarrow> bt s y"
  shows "r = s"
  using assms bt_asym by metis

lemma running_best_eqI:
  assumes "\<forall>x \<in> set xs. ok x" "distinct (map key xs)" "r \<in> set xs"
    "\<forall>y \<in> set xs. y \<noteq> r \<longrightarrow> bt r y"
  shows "running_best bt xs = Some r"
proof -
  have "xs \<noteq> []" using assms(3) by auto
  then obtain s where "running_best bt xs = Some s" "s \<in> set xs"
      "\<forall>y \<in> set xs. y \<noteq> s \<longrightarrow> bt s y"
    using running_best_max assms(1,2) by metis
  moreover have "s = r" using max_unique [of "set xs" s r] assms calculation by blast
  ultimately show ?thesis by simp
qed

lemma best_index_fold:
  "\<lbrakk>\<forall>x \<in> set c. ok x; distinct (map key c); b < m; m \<le> length c;
    \<forall>j. k \<le> j \<and> j < m \<and> j \<noteq> b \<longrightarrow> bt (c ! b) (c ! j); k \<le> b\<rbrakk> \<Longrightarrow>
   let r = fold (\<lambda>j best. if bt (c ! j) (c ! best) then j else best) [m ..< length c] b in
     k \<le> r \<and> r < length c \<and> (\<forall>j. k \<le> j \<and> j < length c \<and> j \<noteq> r \<longrightarrow> bt (c ! r) (c ! j))"
proof (induction "length c - m" arbitrary: m b)
  case 0
  then show ?case by (simp add: Let_def)
next
  case (Suc d)
  then have m: "m < length c" by simp
  let ?b = "if bt (c ! m) (c ! b) then m else b"
  have step: "fold (\<lambda>j best. if bt (c ! j) (c ! best) then j else best) [m ..< length c] b =
      fold (\<lambda>j best. if bt (c ! j) (c ! best) then j else best) [Suc m ..< length c] ?b"
    using m by (simp add: upt_rec [of m])
  have okb: "ok (c ! b)" "ok (c ! m)" using Suc.prems m by auto
  have ne: "key (c ! m) \<noteq> key (c ! b)"
    using Suc.prems m by (metis distinct_conv_nth length_map less_imp_neq nth_map order_less_le_trans)
  have "\<forall>j. k \<le> j \<and> j < Suc m \<and> j \<noteq> ?b \<longrightarrow> bt (c ! ?b) (c ! j)"
  proof (intro allI impI)
    fix j assume j: "k \<le> j \<and> j < Suc m \<and> j \<noteq> ?b"
    have okj: "ok (c ! j)" using j m Suc.prems by auto
    show "bt (c ! ?b) (c ! j)"
      using j okj okb ne Suc.prems bt_total [of "c ! m" "c ! b"] bt_trans [of "c ! m" "c ! b" "c ! j"]
      by (cases "j = m"; cases "j = b"; auto split: if_splits)
  qed
  then show ?case
    unfolding step using Suc.prems Suc.hyps m by (intro Suc.hyps(1)) auto
qed

lemma best_index_max:
  assumes "\<forall>x \<in> set c. ok x" "distinct (map key c)" "k < length c"
  shows "k \<le> best_index bt c k" "best_index bt c k < length c"
    "\<And>j. \<lbrakk>k \<le> j; j < length c; j \<noteq> best_index bt c k\<rbrakk> \<Longrightarrow> bt (c ! best_index bt c k) (c ! j)"
proof -
  have "let r = best_index bt c k in
     k \<le> r \<and> r < length c \<and> (\<forall>j. k \<le> j \<and> j < length c \<and> j \<noteq> r \<longrightarrow> bt (c ! r) (c ! j))"
    unfolding best_index_def using assms by (intro best_index_fold) auto
  then show "k \<le> best_index bt c k" "best_index bt c k < length c"
    "\<And>j. \<lbrakk>k \<le> j; j < length c; j \<noteq> best_index bt c k\<rbrakk> \<Longrightarrow> bt (c ! best_index bt c k) (c ! j)"
    by (simp_all add: Let_def)
qed

lemma mset_swap_best:
  assumes "\<forall>x \<in> set c. ok x" "distinct (map key c)" "k < length c"
  shows "mset (swap_best bt c k) = mset c" "length (swap_best bt c k) = length c"
    "take k (swap_best bt c k) = take k c"
  using best_index_max(1,2) [OF assms] assms(3)
  by (auto simp: swap_best_def Let_def mset_swap list_update_swap)

lemma swap_best_head:
  assumes "\<forall>x \<in> set c. ok x" "distinct (map key c)" "k < length c"
  shows "\<forall>y \<in> set (drop (Suc k) (swap_best bt c k)). bt (swap_best bt c k ! k) y"
proof
  let ?b = "best_index bt c k" and ?d = "swap_best bt c k"
  note b = best_index_max [OF assms]
  fix y assume "y \<in> set (drop (Suc k) ?d)"
  then obtain j where j: "Suc k \<le> j" "j < length c" "y = ?d ! j"
    using mset_swap_best(2) [OF assms]
    by (auto simp: in_set_drop_conv)
  have "?d ! k = c ! ?b"
    using b(1,2) assms(3) by (simp add: swap_best_def Let_def nth_list_update)
  moreover have "y = (if j = ?b then c ! k else c ! j)"
    using j b(1,2) by (auto simp: swap_best_def Let_def nth_list_update)
  ultimately show "bt (?d ! k) y"
    using b(3) j by (cases "j = ?b") auto
qed

lemma select_from_top:
  "\<lbrakk>\<forall>x \<in> set c. ok x; distinct (map key c); k \<le> mx; mx \<le> length c;
    sorted_wrt bt (take k c); \<forall>x \<in> set (take k c). \<forall>y \<in> set (drop k c). bt x y\<rbrakk> \<Longrightarrow>
   \<exists>d. mset d = mset c \<and> take k d = take k c \<and> select_from bt c k mx = drop k (take mx d) \<and>
     sorted_wrt bt (take mx d) \<and> (\<forall>x \<in> set (take mx d). \<forall>y \<in> set (drop mx d). bt x y)"
proof (induction "mx - k" arbitrary: k c)
  case 0
  then have "k = mx" by simp
  with 0 show ?case by (intro exI [of _ c]) (simp add: select_from.simps)
next
  case (Suc n)
  then have k: "k < mx" "k < length c" by auto
  let ?c = "swap_best bt c k"
  note sw = mset_swap_best [OF Suc.prems(1,2) k(2)]
  have set_c: "set ?c = set c" using sw(1) by (metis mset_eq_setD)
  have dist: "distinct (map key ?c)"
    using Suc.prems(2) sw(1) by (metis mset_eq_imp_distinct_iff mset_map)
  have split: "take (Suc k) ?c = take k c @ [?c ! k]"
    using k sw by (simp add: take_Suc_conv_app_nth)
  have tl: "set (drop k ?c) = set (drop k c)"
    using sw by (metis append_take_drop_id mset_append add_left_cancel mset_eq_setD)
  have hd: "?c ! k \<in> set (drop k c)"
    using k sw(2) unfolding tl [symmetric] by (auto simp: in_set_drop_conv)
  have rest: "set (drop (Suc k) ?c) \<subseteq> set (drop k c)"
    unfolding tl [symmetric] by (rule set_drop_subset_set_drop) simp
  have srt: "sorted_wrt bt (take (Suc k) ?c)"
    unfolding split using Suc.prems(5,6) hd by (auto simp: sorted_wrt_append)
  have sep: "\<forall>x \<in> set (take (Suc k) ?c). \<forall>y \<in> set (drop (Suc k) ?c). bt x y"
    unfolding split using Suc.prems(6) rest swap_best_head [OF Suc.prems(1,2) k(2)] by auto
  have n: "n = mx - Suc k" using Suc.hyps(2) by simp
  obtain d where d: "mset d = mset ?c" "take (Suc k) d = take (Suc k) ?c"
      "select_from bt ?c (Suc k) mx = drop (Suc k) (take mx d)" "sorted_wrt bt (take mx d)"
      "\<forall>x \<in> set (take mx d). \<forall>y \<in> set (drop mx d). bt x y"
    using Suc.hyps(1) [OF n, of ?c] Suc.prems(1,4) set_c dist srt sep k sw(2) by auto
  have len: "length d = length c" using d(1) sw(2) by (metis size_mset)
  have dk: "d ! k = ?c ! k" using d(2) k sw(2) by (metis lessI nth_take)
  have tk: "take k d = take k c" using d(2) sw(3) by (metis min.absorb1 lessI less_imp_le take_take)
  have "select_from bt c k mx = drop k (take mx d)"
    using k len d(3) dk by (simp add: select_from.simps [of bt c] Let_def Cons_nth_drop_Suc [symmetric])
  with d tk sw(1) show ?case by (intro exI [of _ d]) simp
qed

lemma select_top:
  assumes "\<forall>x \<in> set c. ok x" "distinct (map key c)" "mx \<le> length c"
  obtains d where "mset d = mset c" "select_from bt c 0 mx = take mx d" "sorted_wrt bt (take mx d)"
    "\<forall>x \<in> set (take mx d). \<forall>y \<in> set (drop mx d). bt x y"
  using select_from_top [OF assms(1,2) _ assms(3), of 0] by auto

lemma select_iff_ahead:
  assumes "\<forall>x \<in> set c. ok x" "distinct (map key c)" "mx \<le> length c" "x \<in> set c"
  shows "x \<in> set (select_from bt c 0 mx) \<longleftrightarrow> length (filter (\<lambda>y. bt y x) c) < mx"
proof -
  obtain d where d: "mset d = mset c" "select_from bt c 0 mx = take mx d"
      "sorted_wrt bt (take mx d)" "\<forall>x \<in> set (take mx d). \<forall>y \<in> set (drop mx d). bt x y"
    using select_top [OF assms(1,2,3)] by metis
  have cnt: "length (filter (\<lambda>y. bt y x) c) = length (filter (\<lambda>y. bt y x) d)"
    using d(1) by (metis mset_filter size_mset)
  have okd: "\<forall>x \<in> set d. ok x" and xd: "x \<in> set d"
    using assms(1,4) d(1) by (metis mset_eq_setD)+
  have len: "length d = length c" using d(1) by (metis size_mset)
  show ?thesis
  proof (cases "x \<in> set (take mx d)")
    case True
    then obtain i where i: "i < mx" "i < length d" "x = d ! i" by (auto simp: in_set_conv_nth)
    have "\<not> bt y x" if y: "y \<in> set (drop i d)" for y
    proof -
      obtain j where j: "i \<le> j" "j < length d" "y = d ! j"
        using y by (auto simp: in_set_drop_conv)
      have "y = x \<or> bt x y"
      proof (cases "j < mx")
        case True
        then show ?thesis
          using sorted_wrt_nth_less [OF d(3), of i j] i j by (cases "i = j") auto
      next
        case False
        then have "y \<in> set (drop mx d)"
          using j by (auto simp: in_set_drop_conv intro!: exI [of _ j])
        then show ?thesis using d(4) \<open>x \<in> set (take mx d)\<close> by blast
      qed
      then show ?thesis
        using okd xd j bt_asym bt_irrefl by (metis nth_mem)
    qed
    then have "filter (\<lambda>y. bt y x) (drop i d) = []" by (simp add: filter_empty_conv)
    then have "length (filter (\<lambda>y. bt y x) d) \<le> i"
      using filter_append [of "\<lambda>y. bt y x" "take i d" "drop i d"] i(2)
        length_filter_le [of "\<lambda>y. bt y x" "take i d"] by simp
    with True i d(2) cnt show ?thesis by simp
  next
    case False
    then have "x \<in> set (drop mx d)"
      using xd set_take_drop by metis
    then have "filter (\<lambda>y. bt y x) (take mx d) = take mx d"
      using d(4) by (simp add: filter_id_conv)
    then have "mx \<le> length (filter (\<lambda>y. bt y x) d)"
      using filter_append [of "\<lambda>y. bt y x" "take mx d" "drop mx d"] assms(3) len by simp
    with False d(2) cnt show ?thesis by simp
  qed
qed

lemma select_head:
  assumes "\<forall>x \<in> set c. ok x" "distinct (map key c)" "0 < mx" "mx \<le> length c"
  shows "running_best bt c = Some (hd (select_from bt c 0 mx))"
proof -
  obtain d where d: "mset d = mset c" "select_from bt c 0 mx = take mx d"
      "sorted_wrt bt (take mx d)" "\<forall>x \<in> set (take mx d). \<forall>y \<in> set (drop mx d). bt x y"
    using select_top [OF assms(1,2,4)] by metis
  have "d \<noteq> []" using d(1) assms by auto
  then obtain r t where r: "take mx d = r # t" using assms(3) by (cases d) (auto simp: take_Cons')
  have "r \<in> set d" using r by (metis in_set_takeD list.set_intros(1))
  moreover have "\<forall>y \<in> set d. y \<noteq> r \<longrightarrow> bt r y"
  proof (intro ballI impI)
    fix y assume y: "y \<in> set d" "y \<noteq> r"
    then have "y \<in> set t \<or> y \<in> set (drop mx d)"
      using r set_take_drop [of y d mx] by auto
    then show "bt r y" using d(3,4) r by auto
  qed
  ultimately show ?thesis
    using running_best_eqI [OF assms(1,2), of r] d(1,2) r by (metis list.sel(1) mset_eq_setD)
qed

end

end
