(* ===== verification/Clplace.thy ===== *)
theory Clplace
  imports Complex_Main Clmap Select
begin

text \<open>
  \<open>src/src/pc_mix.h\<close> and \<open>src/src/clplace.c\<close>: weighted rendezvous placement over
  the cluster map, in integers.  \<open>cand\<close> is the local \<open>struct cand\<close>; a loop over the
  map's nodes is a recursion or fold over \<open>used_nodes\<close>.
\<close>

section \<open>The mix and the fixed-point logarithm\<close>

definition pc_hrw_mix :: "u64 \<Rightarrow> u32 \<Rightarrow> u16 \<Rightarrow> u64" where
  "pc_hrw_mix kh a port =
    (let h = kh XOR ((push_bit 16 (ucast a) OR ucast port) * 0x9E3779B97F4A7C15);
         h = h XOR drop_bit 33 h;
         h = h * 0xff51afd7ed558ccd;
         h = h XOR drop_bit 33 h;
         h = h * 0xc4ceb9fe1a85ec53
     in h XOR drop_bit 33 h)"

definition pc_clplace_mix :: "u64 \<Rightarrow> u32 \<Rightarrow> u16 \<Rightarrow> u64" where
  "pc_clplace_mix kh a port = pc_hrw_mix kh a port"

definition LOG2_TAB :: "u32 list" where
  "LOG2_TAB =
    [      0,   46551,   91711,  135563,  178179,  219628,  259971,  299266,
      337566,  374920,  411375,  446971,  481749,  515745,  548995,  581529,
      613378,  644570,  675132,  705089,  734464,  763280,  791557,  819315,
      846573,  873348,  899658,  925518,  950944,  975949, 1000547, 1024752,
     1048576]"

text \<open>The loop \<open>while (!(h & (1ull << msb))) msb--\<close>, counting down from \<open>63\<close>.\<close>

fun msb_scan :: "u64 \<Rightarrow> nat \<Rightarrow> nat" where
  "msb_scan h msb =
     (if h AND push_bit msb 1 \<noteq> 0 then msb else if msb = 0 then 0 else msb_scan h (msb - 1))"

declare msb_scan.simps [simp del]

definition PC_CLPLACE_FBITS :: nat where "PC_CLPLACE_FBITS = 20"

definition pc_clplace_dterm :: "u64 \<Rightarrow> u64" where
  "pc_clplace_dterm h =
    (if h = 0 then push_bit PC_CLPLACE_FBITS 64
     else let msb = msb_scan h 63;
              norm = push_bit (63 - msb) h;
              idx = unat (drop_bit 58 norm AND 0x1F);
              rem = drop_bit 38 norm AND 0xFFFFF;
              lo = ucast (LOG2_TAB ! idx);
              hi = ucast (LOG2_TAB ! (idx + 1));
              frac = lo + drop_bit 20 ((hi - lo) * rem)
          in push_bit PC_CLPLACE_FBITS (of_nat (64 - msb)) - frac)"

section \<open>Comparison, owner, rank, membership\<close>

record cand =
  c_w :: u32
  c_d :: u64
  c_id :: u16

definition beats :: "cand \<Rightarrow> cand \<Rightarrow> bool" where
  "beats a b =
    (let la = ucast (c_w a) * c_d b :: u64;
         lb = ucast (c_w b) * c_d a
     in if la \<noteq> lb then la > lb else c_id a > c_id b)"

definition cand_of :: "u64 \<Rightarrow> clmap_node \<Rightarrow> cand" where
  "cand_of kh n =
    \<lparr>c_w = pc_clmap_weight n,
     c_d = pc_clplace_dterm (pc_clplace_mix kh (addr n) (cluster_port n)),
     c_id = node_id n\<rparr>"

definition owner_step :: "u64 \<Rightarrow> clmap_node \<Rightarrow> cand option \<Rightarrow> cand option" where
  "owner_step kh n best =
    (if \<not> pc_clmap_placeable n then best
     else let c = cand_of kh n in
       case best of None \<Rightarrow> Some c | Some b \<Rightarrow> if beats c b then Some c else best)"

definition pc_clplace_owner :: "clmap \<Rightarrow> u64 \<Rightarrow> u16" where
  "pc_clplace_owner m kh =
    (case fold (owner_step kh) (used_nodes m) None of None \<Rightarrow> 0 | Some b \<Rightarrow> c_id b)"

definition rank_cands :: "clmap \<Rightarrow> u64 \<Rightarrow> cand list" where
  "rank_cands m kh = map (cand_of kh) (filter pc_clmap_placeable (used_nodes m))"

definition pc_clplace_rank :: "clmap \<Rightarrow> u64 \<Rightarrow> int \<Rightarrow> u16 list" where
  "pc_clplace_rank m kh mx =
    (if mx \<le> 0 then []
     else let c = rank_cands m kh;
              mx = (if mx > int (length c) then length c else nat mx)
          in map c_id (select_from beats c 0 mx))"

fun not_overtaken :: "u64 \<Rightarrow> cand \<Rightarrow> int \<Rightarrow> clmap_node list \<Rightarrow> int \<Rightarrow> bool" where
  "not_overtaken kh me k [] ahead = True"
| "not_overtaken kh me k (n # ns) ahead =
     (if node_id n = c_id me \<or> \<not> pc_clmap_placeable n then not_overtaken kh me k ns ahead
      else if beats (cand_of kh n) me
        then (if ahead + 1 \<ge> k then False else not_overtaken kh me k ns (ahead + 1))
      else not_overtaken kh me k ns ahead)"

definition pc_clplace_in_set :: "clmap \<Rightarrow> u64 \<Rightarrow> u16 \<Rightarrow> int \<Rightarrow> bool" where
  "pc_clplace_in_set m kh i k =
    (if k \<le> 0 then False
     else case find (\<lambda>n. node_id n = i) (used_nodes m) of
       None \<Rightarrow> False
     | Some n \<Rightarrow> if \<not> pc_clmap_placeable n then False
         else not_overtaken kh (cand_of kh n) k (used_nodes m) 0)"

definition pc_clplace_has :: "clmap \<Rightarrow> u16 \<Rightarrow> bool" where
  "pc_clplace_has m i = list_ex (\<lambda>n. node_id n = i) (used_nodes m)"

section \<open>The D term over the naturals\<close>

definition log2_tab :: "nat list" where "log2_tab = map unat LOG2_TAB"

text \<open>The interpolated table at a 25-bit mantissa.\<close>

definition interp :: "nat \<Rightarrow> nat" where
  "interp x = (let i = x div 2 ^ 20; lo = log2_tab ! i; hi = log2_tab ! (i + 1)
     in lo + (hi - lo) * (x mod 2 ^ 20) div 2 ^ 20)"

lemma log2_tab_eq: "log2_tab =
    [      0,   46551,   91711,  135563,  178179,  219628,  259971,  299266,
      337566,  374920,  411375,  446971,  481749,  515745,  548995,  581529,
      613378,  644570,  675132,  705089,  734464,  763280,  791557,  819315,
      846573,  873348,  899658,  925518,  950944,  975949, 1000547, 1024752,
     1048576]"
  by (simp add: log2_tab_def LOG2_TAB_def)

lemma log2_tab_sorted: "sorted_wrt (<) log2_tab"
  by (simp add: log2_tab_eq)

lemma length_log2_tab [simp]: "length log2_tab = 33"
  by (simp add: log2_tab_eq)

lemma log2_tab_mono: "i \<le> j \<Longrightarrow> j < 33 \<Longrightarrow> log2_tab ! i \<le> log2_tab ! j"
  using sorted_wrt_nth_less [OF log2_tab_sorted, of i j] by (cases "i = j") auto

lemma log2_tab_le: "i < 33 \<Longrightarrow> log2_tab ! i \<le> 2 ^ 20"
  using log2_tab_mono [of i 32] by (simp add: log2_tab_eq)

lemma interp_lower: "x < 2 ^ 25 \<Longrightarrow> log2_tab ! (x div 2 ^ 20) \<le> interp x"
  by (simp add: interp_def Let_def)

lemma scaled_less: "r < (b::nat) \<Longrightarrow> 0 < d \<Longrightarrow> d * r div b < d"
  by (simp add: div_less_iff_less_mult mult.commute)

lemma interp_upper:
  assumes "x < 2 ^ 25"
  shows "interp x < log2_tab ! (x div 2 ^ 20 + 1)"
proof -
  let ?i = "x div 2 ^ 20"
  have i: "?i < 32" using assms by (simp add: less_mult_imp_div_less)
  have "log2_tab ! ?i < log2_tab ! (?i + 1)"
    using sorted_wrt_nth_less [OF log2_tab_sorted, of ?i "?i + 1"] i by simp
  then show ?thesis
    using scaled_less [of "x mod 2 ^ 20" "2 ^ 20" "log2_tab ! (?i + 1) - log2_tab ! ?i"]
    by (simp add: interp_def Let_def less_diff_conv add.commute)
qed

lemma interp_lt: "x < 2 ^ 25 \<Longrightarrow> interp x < 2 ^ 20"
  using interp_upper [of x] log2_tab_le [of "x div 2 ^ 20 + 1"]
  by (auto simp: less_mult_imp_div_less)

lemma interp_mono:
  assumes "x \<le> y" "y < 2 ^ 25"
  shows "interp x \<le> interp y"
proof (cases "x div 2 ^ 20 = y div 2 ^ 20")
  case True
  then have "x mod 2 ^ 20 \<le> y mod 2 ^ 20" using assms(1) by (intro mod_le_mod)
  with True show ?thesis
    by (simp add: interp_def Let_def div_le_mono mult_le_mono2)
next
  case False
  then have lt: "x div 2 ^ 20 < y div 2 ^ 20" using assms(1) by (simp add: div_le_mono le_neq_implies_less)
  have "interp x \<le> log2_tab ! (x div 2 ^ 20 + 1)" using assms interp_upper [of x] by simp
  also have "\<dots> \<le> log2_tab ! (y div 2 ^ 20)"
    using lt assms(2) by (intro log2_tab_mono) (auto simp: less_mult_imp_div_less)
  also have "\<dots> \<le> interp y" using assms(2) by (rule interp_lower)
  finally show ?thesis .
qed

lemma msb_scan_spec:
  "\<lbrakk>h \<noteq> 0; unat h < 2 ^ Suc m; m < 64\<rbrakk> \<Longrightarrow>
   msb_scan h m \<le> m \<and> 2 ^ msb_scan h m \<le> unat h \<and> unat h < 2 ^ Suc (msb_scan h m)"
proof (induction m)
  case 0
  then have "unat h = 1" using unat_gt_0 [of h] by simp
  then show ?case by (simp add: msb_scan.simps)
next
  case (Suc m)
  show ?case
  proof (cases "bit h (Suc m)")
    case True
    then have "unat h div 2 ^ Suc m \<noteq> 0" by (metis bit_odd_unat even_zero)
    then have "2 ^ Suc m \<le> unat h" using div_less by (metis linorder_not_less)
    with True Suc.prems show ?thesis
      by (simp add: msb_scan.simps [of h "Suc m"] and_exp_eq_0_iff_not_bit del: power_Suc)
  next
    case False
    then have "even (unat h div 2 ^ Suc m)" using Suc.prems(3) by (simp add: bit_odd_unat)
    moreover have "unat h div 2 ^ Suc m < 2"
      using Suc.prems(2) by (simp add: less_mult_imp_div_less)
    ultimately have "unat h div 2 ^ Suc m = 0" by (auto simp: less_2_cases_iff)
    then have "unat h < 2 ^ Suc m" by (simp add: div_eq_0_iff del: power_Suc)
    with False Suc show ?thesis
      by (simp add: msb_scan.simps [of h "Suc m"] and_exp_eq_0_iff_not_bit del: power_Suc)
  qed
qed

text \<open>The 25 bits below the leading one.\<close>

definition mantissa :: "u64 \<Rightarrow> nat" where
  "mantissa h = unat h * 2 ^ (63 - msb_scan h 63) div 2 ^ 38 mod 2 ^ 25"

lemma msb_range:
  assumes "h \<noteq> 0"
  shows "msb_scan h 63 \<le> 63" "2 ^ msb_scan h 63 \<le> unat h" "unat h < 2 ^ Suc (msb_scan h 63)"
  using msb_scan_spec [of h 63] assms unsigned_less [of h, where 'a = nat] by auto

lemma norm_range:
  assumes "h \<noteq> 0"
  shows "2 ^ 63 \<le> unat h * 2 ^ (63 - msb_scan h 63)" "unat h * 2 ^ (63 - msb_scan h 63) < 2 ^ 64"
proof -
  let ?k = "msb_scan h 63"
  note r = msb_range [OF assms]
  have "(2::nat) ^ 63 = 2 ^ ?k * 2 ^ (63 - ?k)" using r(1) by (simp flip: power_add)
  also have "\<dots> \<le> unat h * 2 ^ (63 - ?k)" using r(2) by simp
  finally show "2 ^ 63 \<le> unat h * 2 ^ (63 - ?k)" .
  have "unat h * 2 ^ (63 - ?k) < 2 ^ Suc ?k * 2 ^ (63 - ?k)" using r(3) by simp
  also have "\<dots> = 2 ^ 64" using r(1) by (simp flip: power_add power_Suc)
  finally show "unat h * 2 ^ (63 - ?k) < 2 ^ 64" .
qed

lemma unat_norm:
  assumes "h \<noteq> 0"
  shows "unat (push_bit (63 - msb_scan h 63) h) = unat h * 2 ^ (63 - msb_scan h 63)"
  using norm_range [OF assms] by (intro unat_shiftl_small) simp

lemma unat_LOG2_TAB: "i < 33 \<Longrightarrow> unat (ucast (LOG2_TAB ! i) :: u64) = log2_tab ! i"
  by (simp add: log2_tab_def LOG2_TAB_def unat_ucast_up nth_Cons')

lemma mantissa_lt: "mantissa h < 2 ^ 25"
  by (simp add: mantissa_def)

lemma mantissa_idx:
  assumes "h \<noteq> 0"
  shows "unat (drop_bit 58 (push_bit (63 - msb_scan h 63) h) AND 0x1F) = mantissa h div 2 ^ 20"
proof -
  let ?n = "unat h * 2 ^ (63 - msb_scan h 63)"
  have m: "(0x1F :: u64) = mask 5" by (simp add: mask_eq_exp_minus_1)
  have "unat (drop_bit 58 (push_bit (63 - msb_scan h 63) h) AND 0x1F) = ?n div 2 ^ 58 mod 2 ^ 5"
    by (simp only: m unat_and_mask unat_shiftr unat_norm [OF assms])
  also have "?n div 2 ^ 58 = ?n div 2 ^ 38 div 2 ^ 20" by (simp add: div_mult2_eq [symmetric])
  also have "?n div 2 ^ 38 div 2 ^ 20 mod 2 ^ 5 = mantissa h div 2 ^ 20"
    unfolding mantissa_def
    using mod_mult2_eq [of "?n div 2 ^ 38" "2 ^ 20" "2 ^ 5"] by simp
  finally show ?thesis .
qed

lemma mantissa_rem:
  assumes "h \<noteq> 0"
  shows "unat (drop_bit 38 (push_bit (63 - msb_scan h 63) h) AND 0xFFFFF) = mantissa h mod 2 ^ 20"
proof -
  let ?n = "unat h * 2 ^ (63 - msb_scan h 63)"
  have m: "(0xFFFFF :: u64) = mask 20" by (simp add: mask_eq_exp_minus_1)
  have "unat (drop_bit 38 (push_bit (63 - msb_scan h 63) h) AND 0xFFFFF) = ?n div 2 ^ 38 mod 2 ^ 20"
    by (simp only: m unat_and_mask unat_shiftr unat_norm [OF assms])
  then show ?thesis by (simp add: mantissa_def mod_mod_cancel)
qed

lemma interp_word:
  fixes idx :: nat and rem :: u64
  assumes "idx = x div 2 ^ 20" "unat rem = x mod 2 ^ 20" "x < 2 ^ 25"
  shows "unat (ucast (LOG2_TAB ! idx) +
    drop_bit 20 ((ucast (LOG2_TAB ! (idx + 1)) - ucast (LOG2_TAB ! idx)) * rem) :: u64) = interp x"
proof -
  let ?lo = "ucast (LOG2_TAB ! idx) :: u64" and ?hi = "ucast (LOG2_TAB ! (idx + 1)) :: u64"
  have i: "idx < 32" using assms(1,3) by (simp add: less_mult_imp_div_less)
  have lo: "unat ?lo = log2_tab ! idx" and hi: "unat ?hi = log2_tab ! (idx + 1)"
    using i by (simp_all add: unat_LOG2_TAB)
  have le: "log2_tab ! idx \<le> log2_tab ! (idx + 1)" using i by (intro log2_tab_mono) auto
  have top: "log2_tab ! (idx + 1) \<le> 2 ^ 20" using i by (intro log2_tab_le) auto
  have sub: "unat (?hi - ?lo) = log2_tab ! (idx + 1) - log2_tab ! idx"
    using le lo hi by (simp add: unat_sub word_le_nat_alt)
  have "unat (?hi - ?lo) * unat rem \<le> 2 ^ 20 * 2 ^ 20"
    unfolding sub assms(2) using top by (intro mult_le_mono) auto
  then have prod: "unat ((?hi - ?lo) * rem) = (log2_tab ! (idx + 1) - log2_tab ! idx) * (x mod 2 ^ 20)"
    using sub assms(2) by (subst unat_mult_small) auto
  have frac: "unat ?lo + unat (drop_bit 20 ((?hi - ?lo) * rem)) = interp x"
    by (simp only: lo unat_shiftr prod) (simp add: interp_def Let_def assms(1))
  then show ?thesis
    using interp_lt [OF assms(3)] by (subst unat_add_small) auto
qed

lemma dterm_unat:
  assumes "h \<noteq> 0"
  shows "unat (pc_clplace_dterm h) = (64 - msb_scan h 63) * 2 ^ 20 - interp (mantissa h)"
proof -
  let ?k = "msb_scan h 63"
  let ?idx = "unat (drop_bit 58 (push_bit (63 - ?k) h) AND 0x1F)"
  let ?rem = "drop_bit 38 (push_bit (63 - ?k) h) AND 0xFFFFF"
  let ?frac = "ucast (LOG2_TAB ! ?idx) +
    drop_bit 20 ((ucast (LOG2_TAB ! (?idx + 1)) - ucast (LOG2_TAB ! ?idx)) * ?rem) :: u64"
  have frac: "unat ?frac = interp (mantissa h)"
    by (rule interp_word [OF mantissa_idx [OF assms] mantissa_rem [OF assms] mantissa_lt])
  have k: "?k \<le> 63" using msb_range [OF assms] by simp
  have w: "unat (of_nat (64 - ?k) :: u64) = 64 - ?k"
    by (rule unat_of_nat_small) (simp add: less_imp_diff_less)
  then have top: "unat (push_bit 20 (of_nat (64 - ?k)) :: u64) = (64 - ?k) * 2 ^ 20"
    by (subst unat_shiftl_small) auto
  have "1 * 2 ^ 20 \<le> (64 - ?k) * 2 ^ 20" using k by (intro mult_le_mono1) simp
  then have "?frac \<le> push_bit 20 (of_nat (64 - ?k))"
    unfolding word_le_nat_alt frac top using interp_lt [OF mantissa_lt, of h] by simp
  then have "unat (push_bit 20 (of_nat (64 - ?k)) - ?frac) = (64 - ?k) * 2 ^ 20 - interp (mantissa h)"
    by (simp only: unat_sub frac top)
  then show ?thesis
    using assms by (simp only: pc_clplace_dterm_def Let_def PC_CLPLACE_FBITS_def if_False)
qed

lemma dterm_bounds:
  "0 < unat (pc_clplace_dterm h)" "unat (pc_clplace_dterm h) \<le> 64 * 2 ^ 20"
proof -
  have "0 < unat (pc_clplace_dterm h) \<and> unat (pc_clplace_dterm h) \<le> 64 * 2 ^ 20"
  proof (cases "h = 0")
    case True
    then show ?thesis by (simp add: pc_clplace_dterm_def PC_CLPLACE_FBITS_def)
  next
    case False
    have "1 * 2 ^ 20 \<le> (64 - msb_scan h 63) * 2 ^ 20"
      using msb_range(1) [OF False] by (intro mult_le_mono1) simp
    then show ?thesis
      using interp_lt [OF mantissa_lt, of h] unfolding dterm_unat [OF False] by auto
  qed
  then show "0 < unat (pc_clplace_dterm h)" "unat (pc_clplace_dterm h) \<le> 64 * 2 ^ 20" by auto
qed

lemma mantissa_mono:
  assumes "h \<noteq> 0" "h \<le> h'" "msb_scan h 63 = msb_scan h' 63"
  shows "mantissa h \<le> mantissa h'"
proof -
  let ?n = "\<lambda>h. unat h * 2 ^ (63 - msb_scan h 63)"
  have h': "h' \<noteq> 0" using assms(1,2) word_le_0_iff by auto
  have div1: "?n h div 2 ^ 38 div 2 ^ 25 = 1" "?n h' div 2 ^ 38 div 2 ^ 25 = 1"
    using norm_range [OF assms(1)] norm_range [OF h']
    by (auto simp: div_mult2_eq [symmetric] intro!: div_nat_eqI)
  have "?n h \<le> ?n h'" using assms(2,3) by (simp add: word_le_nat_alt)
  then show ?thesis
    unfolding mantissa_def using div1 by (intro mod_le_mod div_le_mono) auto
qed

lemma dterm_antimono:
  assumes "h \<le> h'"
  shows "unat (pc_clplace_dterm h') \<le> unat (pc_clplace_dterm h)"
proof (cases "h = 0")
  case True
  then have "unat (pc_clplace_dterm h) = 64 * 2 ^ 20"
    by (simp add: pc_clplace_dterm_def PC_CLPLACE_FBITS_def)
  then show ?thesis using dterm_bounds(2) [of h'] by simp
next
  case False
  then have h': "h' \<noteq> 0" using assms word_le_0_iff by auto
  let ?k = "msb_scan h 63" and ?k' = "msb_scan h' 63"
  note r = msb_range [OF False] and r' = msb_range [OF h']
  have "unat h \<le> unat h'" using assms by (simp add: word_le_nat_alt)
  with r(2) r'(3) have "2 ^ ?k < (2::nat) ^ Suc ?k'" by linarith
  then have le: "?k \<le> ?k'" by (simp only: power_strict_increasing_iff less_Suc_eq_le)
  show ?thesis
  proof (cases "?k = ?k'")
    case True
    then show ?thesis
      using interp_mono [OF mantissa_mono [OF False assms] mantissa_lt]
      by (simp add: dterm_unat False h')
  next
    case False
    then have "(64 - ?k') + 1 \<le> 64 - ?k" using le r'(1) by simp
    then have "((64 - ?k') + 1) * 2 ^ 20 \<le> (64 - ?k) * 2 ^ 20" by (rule mult_le_mono1)
    then show ?thesis
      using interp_lt [OF mantissa_lt, of h] by (simp add: dterm_unat \<open>h \<noteq> 0\<close> h')
  qed
qed

section \<open>The comparison orders candidates by score\<close>

definition cand_ok :: "cand \<Rightarrow> bool" where
  "cand_ok c \<longleftrightarrow> unat (c_w c) < 2 ^ 16 \<and> 0 < unat (c_d c) \<and> unat (c_d c) \<le> 64 * 2 ^ 20"

definition score :: "cand \<Rightarrow> real" where
  "score c = real (unat (c_w c)) / real (unat (c_d c))"

lemma unat_weighted:
  assumes "unat (w :: u32) < 2 ^ 16" "unat (d :: u64) \<le> 64 * 2 ^ 20"
  shows "unat (ucast w * d) = unat w * unat d"
proof -
  have "unat w * unat d \<le> 2 ^ 16 * (64 * 2 ^ 20)" using assms by (intro mult_le_mono) auto
  then show ?thesis by (subst unat_mult_small) (auto simp: unat_ucast_up)
qed

lemma frac_cross:
  "0 < x \<Longrightarrow> 0 < y \<Longrightarrow> real a / real x < real b / real y \<longleftrightarrow> a * y < b * (x :: nat)"
  by (simp add: pos_divide_less_eq pos_less_divide_eq)
    (metis of_nat_less_iff of_nat_mult)

lemma score_less:
  assumes "cand_ok a" "cand_ok b"
  shows "score b < score a \<longleftrightarrow> unat (c_w b) * unat (c_d a) < unat (c_w a) * unat (c_d b)"
  unfolding score_def by (rule frac_cross) (use assms in \<open>auto simp: cand_ok_def\<close>)

lemma beats_iff:
  assumes "cand_ok a" "cand_ok b"
  shows "beats a b \<longleftrightarrow> score b < score a \<or> score a = score b \<and> c_id b < c_id a"
proof -
  have u: "unat (ucast (c_w a) * c_d b) = unat (c_w a) * unat (c_d b)"
    "unat (ucast (c_w b) * c_d a) = unat (c_w b) * unat (c_d a)"
    using assms unat_weighted by (auto simp: cand_ok_def)
  have eq: "score a = score b \<longleftrightarrow> \<not> score b < score a \<and> \<not> score a < score b" by auto
  show ?thesis
    unfolding beats_def Let_def eq score_less [OF assms] score_less [OF assms(2,1)]
      word_less_nat_alt word_unat_eq_iff u
    by auto
qed

interpretation place: ranking beats cand_ok c_id
proof unfold_locales
  show "\<not> beats b a" if "cand_ok a" "cand_ok b" "beats a b" for a b
    using that by (auto simp: beats_iff)
  show "beats a c" if "cand_ok a" "cand_ok b" "cand_ok c" "beats a b" "beats b c" for a b c
    using that by (auto simp: beats_iff)
  show "beats a b \<or> beats b a" if "cand_ok a" "cand_ok b" "c_id a \<noteq> c_id b" for a b
    using that by (auto simp: beats_iff)
qed

lemma cand_of_ok: "cand_ok (cand_of kh n)"
proof -
  have "unat (pc_clmap_weight n) < 2 ^ 16"
    using unsigned_less [of "admin_weight n", where 'a = nat]
      unsigned_less [of "cap_weight n", where 'a = nat]
    by (simp add: pc_clmap_weight_def unat_ucast_up)
  then show ?thesis
    using dterm_bounds by (simp add: cand_ok_def cand_of_def)
qed

lemma rank_cands_ok: "\<forall>c \<in> set (rank_cands m kh). cand_ok c"
  by (auto simp: rank_cands_def cand_of_ok)

lemma c_id_cand_of [simp]: "c_id (cand_of kh n) = node_id n"
  by (simp add: cand_of_def)

lemma rank_cands_distinct:
  "distinct (map node_id (used_nodes m)) \<Longrightarrow> distinct (map c_id (rank_cands m kh))"
  by (simp add: rank_cands_def o_def distinct_map inj_on_def)

lemma owner_fold:
  "fold (owner_step kh) ns best =
   fold (\<lambda>x best. case best of None \<Rightarrow> Some x | Some b \<Rightarrow> if beats x b then Some x else best)
     (map (cand_of kh) (filter pc_clmap_placeable ns)) best"
  by (induction ns arbitrary: best) (auto simp: owner_step_def Let_def)

lemma owner_running_best:
  "pc_clplace_owner m kh = (case running_best beats (rank_cands m kh) of None \<Rightarrow> 0 | Some b \<Rightarrow> c_id b)"
  by (simp add: pc_clplace_owner_def owner_fold running_best_def rank_cands_def)

lemma not_overtaken_count:
  assumes "ahead < k"
  shows "not_overtaken kh me k ns ahead \<longleftrightarrow>
    ahead + int (length (filter (\<lambda>n. node_id n \<noteq> c_id me \<and> pc_clmap_placeable n \<and>
      beats (cand_of kh n) me) ns)) < k"
  using assms by (induction ns arbitrary: ahead) auto

lemma rank_select:
  assumes "0 < mx"
  shows "pc_clplace_rank m kh mx =
    map c_id (select_from beats (rank_cands m kh) 0 (min (nat mx) (length (rank_cands m kh))))"
  using assms by (simp add: pc_clplace_rank_def Let_def min_def nat_le_iff)

lemma count_ahead_cands:
  assumes "distinct (map node_id (used_nodes m))" "n \<in> set (used_nodes m)"
  shows "length (filter (\<lambda>x. node_id x \<noteq> node_id n \<and> pc_clmap_placeable x \<and>
      beats (cand_of kh x) (cand_of kh n)) (used_nodes m)) =
    length (filter (\<lambda>c. beats c (cand_of kh n)) (rank_cands m kh))"
proof -
  have "\<not> beats (cand_of kh x) (cand_of kh n)"
    if "x \<in> set (used_nodes m)" "node_id x = node_id n" for x
    using that assms place.bt_irrefl [OF cand_of_ok] by (metis (no_types) distinct_map inj_on_def)
  then have "filter (\<lambda>x. node_id x \<noteq> node_id n \<and> pc_clmap_placeable x \<and>
      beats (cand_of kh x) (cand_of kh n)) (used_nodes m) =
    filter (\<lambda>x. beats (cand_of kh x) (cand_of kh n)) (filter pc_clmap_placeable (used_nodes m))"
    by (auto intro!: filter_cong)
  then show ?thesis by (simp add: rank_cands_def filter_map o_def)
qed

lemma in_set_placeable:
  assumes "distinct (map node_id (used_nodes m))" "n \<in> set (used_nodes m)"
    "pc_clmap_placeable n" "0 < k"
  shows "pc_clplace_in_set m kh (node_id n) k \<longleftrightarrow>
    cand_of kh n \<in> set (select_from beats (rank_cands m kh) 0 (min (nat k) (length (rank_cands m kh))))"
proof -
  let ?c = "rank_cands m kh"
  have mem: "cand_of kh n \<in> set ?c" using assms by (auto simp: rank_cands_def)
  have less: "length (filter (\<lambda>c. beats c (cand_of kh n)) ?c) < length ?c"
    using mem place.bt_irrefl [OF cand_of_ok] by (intro length_filter_less) auto
  have "pc_clplace_in_set m kh (node_id n) k \<longleftrightarrow>
      int (length (filter (\<lambda>c. beats c (cand_of kh n)) ?c)) < k"
    using assms by (simp add: pc_clplace_in_set_def find_distinct_key not_overtaken_count
        count_ahead_cands)
  also have "\<dots> \<longleftrightarrow> length (filter (\<lambda>c. beats c (cand_of kh n)) ?c) < min (nat k) (length ?c)"
    using less by (auto simp: zless_nat_eq_int_zless)
  also have "\<dots> \<longleftrightarrow> cand_of kh n \<in> set (select_from beats ?c 0 (min (nat k) (length ?c)))"
    using place.select_iff_ahead [OF rank_cands_ok rank_cands_distinct [OF assms(1)] _ mem] by simp
  finally show ?thesis .
qed

lemma select_subset:
  assumes "distinct (map node_id (used_nodes m))" "mx \<le> length (rank_cands m kh)"
  shows "set (select_from beats (rank_cands m kh) 0 mx) \<subseteq> set (rank_cands m kh)"
proof -
  obtain d where "mset d = mset (rank_cands m kh)" "select_from beats (rank_cands m kh) 0 mx = take mx d"
    using place.select_top [OF rank_cands_ok rank_cands_distinct [OF assms(1)] assms(2)] by metis
  then show ?thesis by (metis mset_eq_setD set_take_subset)
qed

lemma in_set_rank:
  assumes "distinct (map node_id (used_nodes m))"
  shows "pc_clplace_in_set m kh i k \<longleftrightarrow> i \<in> set (pc_clplace_rank m kh k)"
proof (cases "0 < k")
  case False
  then show ?thesis by (simp add: pc_clplace_in_set_def pc_clplace_rank_def)
next
  case True
  let ?s = "select_from beats (rank_cands m kh) 0 (min (nat k) (length (rank_cands m kh)))"
  have sub: "set ?s \<subseteq> set (rank_cands m kh)" using assms by (intro select_subset) auto
  have members: "i \<in> set (pc_clplace_rank m kh k) \<longleftrightarrow>
      (\<exists>n \<in> set (used_nodes m). pc_clmap_placeable n \<and> node_id n = i \<and> cand_of kh n \<in> set ?s)"
  proof
    assume "i \<in> set (pc_clplace_rank m kh k)"
    then obtain c where c: "c \<in> set ?s" "i = c_id c" by (auto simp: rank_select [OF True])
    then have "c \<in> set (rank_cands m kh)" using sub by blast
    then show "\<exists>n \<in> set (used_nodes m). pc_clmap_placeable n \<and> node_id n = i \<and> cand_of kh n \<in> set ?s"
      using c unfolding rank_cands_def by auto
  next
    assume "\<exists>n \<in> set (used_nodes m). pc_clmap_placeable n \<and> node_id n = i \<and> cand_of kh n \<in> set ?s"
    then obtain n where "node_id n = i" "cand_of kh n \<in> set ?s" by blast
    then show "i \<in> set (pc_clplace_rank m kh k)"
      unfolding rank_select [OF True] by (metis c_id_cand_of image_eqI set_map)
  qed
  show ?thesis
  proof (cases "\<exists>n \<in> set (used_nodes m). pc_clmap_placeable n \<and> node_id n = i")
    case True
    then obtain n where n: "n \<in> set (used_nodes m)" "pc_clmap_placeable n" "node_id n = i" by auto
    then have "\<And>x. x \<in> set (used_nodes m) \<Longrightarrow> node_id x = i \<Longrightarrow> x = n"
      using assms by (auto simp: distinct_map inj_on_def)
    with n have "i \<in> set (pc_clplace_rank m kh k) \<longleftrightarrow> cand_of kh n \<in> set ?s"
      unfolding members by blast
    then show ?thesis
      using in_set_placeable [OF assms n(1,2) \<open>0 < k\<close>] n(3) by simp
  next
    case False
    have "\<not> pc_clplace_in_set m kh i k"
      using False by (auto simp: pc_clplace_in_set_def find_Some_iff split: option.splits)
    with False members show ?thesis by auto
  qed
qed

lemma rank_head_owner:
  assumes "distinct (map node_id (used_nodes m))" "0 < mx"
  shows "pc_clplace_owner m kh =
    (case pc_clplace_rank m kh mx of [] \<Rightarrow> 0 | i # _ \<Rightarrow> i)"
proof (cases "rank_cands m kh = []")
  case True
  then show ?thesis
    using assms(2)
    by (simp add: owner_running_best running_best_def rank_select select_from.simps)
next
  case False
  let ?c = "rank_cands m kh" and ?k = "min (nat mx) (length (rank_cands m kh))"
  have k: "0 < ?k" "?k \<le> length ?c" using False assms(2) by auto
  have "running_best beats ?c = Some (hd (select_from beats ?c 0 ?k))"
    using place.select_head [OF rank_cands_ok rank_cands_distinct [OF assms(1)] k] .
  moreover have "select_from beats ?c 0 ?k \<noteq> []"
    using k(1) by (subst select_from.simps) (simp add: Let_def)
  ultimately show ?thesis
    using assms(2) by (cases "select_from beats ?c 0 ?k") (auto simp: owner_running_best rank_select)
qed

section \<open>Properties\<close>

definition placeable_set :: "clmap \<Rightarrow> clmap_node set" where
  "placeable_set m = set (filter pc_clmap_placeable (used_nodes m))"

lemma set_rank_cands: "set (rank_cands m kh) = cand_of kh ` placeable_set m"
  by (simp add: rank_cands_def placeable_set_def)

lemma owner_is_best:
  assumes "distinct (map node_id (used_nodes m))" "placeable_set m \<noteq> {}"
  obtains n where "n \<in> placeable_set m" "pc_clplace_owner m kh = node_id n"
    "\<forall>x \<in> placeable_set m. cand_of kh x \<noteq> cand_of kh n \<longrightarrow> beats (cand_of kh n) (cand_of kh x)"
proof -
  have "rank_cands m kh \<noteq> []" using assms(2) set_rank_cands [of m kh] by auto
  then obtain r where r: "running_best beats (rank_cands m kh) = Some r"
      "r \<in> set (rank_cands m kh)" "\<forall>y \<in> set (rank_cands m kh). y \<noteq> r \<longrightarrow> beats r y"
    using place.running_best_max [OF rank_cands_ok rank_cands_distinct [OF assms(1)]] by metis
  then obtain n where "n \<in> placeable_set m" "r = cand_of kh n"
    by (auto simp: set_rank_cands)
  with r that show ?thesis by (auto simp: owner_running_best set_rank_cands)
qed



text \<open>The ranked list is the score order: it has \<open>min max\<close> (number of placeable
  nodes) entries, all of them placeable and distinct, each beating the
  next by the integer comparison, and every placeable node left out is beaten
  by every node listed.\<close>

theorem rank_is_score_order:
  assumes "distinct (map node_id (used_nodes m))" "0 \<le> mx"
  shows "\<exists>top rest. pc_clplace_rank m kh mx = map node_id top \<and>
    mset (top @ rest) = mset (filter pc_clmap_placeable (used_nodes m)) \<and>
    length top = min (nat mx) (length (filter pc_clmap_placeable (used_nodes m))) \<and>
    sorted_wrt (\<lambda>a b. beats (cand_of kh a) (cand_of kh b)) top \<and>
    (\<forall>a \<in> set top. \<forall>b \<in> set rest. beats (cand_of kh a) (cand_of kh b))"
proof (cases "mx = 0")
  case True
  then show ?thesis
    by (intro exI [of _ "[]"] exI [of _ "filter pc_clmap_placeable (used_nodes m)"])
      (simp add: pc_clplace_rank_def)
next
  case False
  let ?ns = "filter pc_clmap_placeable (used_nodes m)" and ?k = "min (nat mx) (length (rank_cands m kh))"
  obtain d where d: "mset d = mset (rank_cands m kh)"
      "select_from beats (rank_cands m kh) 0 ?k = take ?k d" "sorted_wrt beats (take ?k d)"
      "\<forall>x \<in> set (take ?k d). \<forall>y \<in> set (drop ?k d). beats x y"
    using place.select_top [OF rank_cands_ok rank_cands_distinct [OF assms(1)]] by (metis min.cobounded2)
  then obtain ns where ns: "mset ns = mset ?ns" "d = map (cand_of kh) ns"
    unfolding rank_cands_def by (metis mset_map_ex)
  have len: "?k = min (nat mx) (length ?ns)" "length ns = length ?ns"
    using ns(1) by (simp_all add: rank_cands_def mset_eq_length)
  have "pc_clplace_rank m kh mx = map node_id (take ?k ns)"
    using False assms(2) d(2) ns(2) by (simp add: rank_select take_map o_def)
  moreover have "sorted_wrt (\<lambda>a b. beats (cand_of kh a) (cand_of kh b)) (take ?k ns)"
    using d(3) ns(2) by (simp add: take_map sorted_wrt_map)
  moreover have "\<forall>a \<in> set (take ?k ns). \<forall>b \<in> set (drop ?k ns). beats (cand_of kh a) (cand_of kh b)"
    using d(4) ns(2) by (simp add: take_map drop_map)
  ultimately show ?thesis
    using ns(1) len by (intro exI [of _ "take ?k ns"] exI [of _ "drop ?k ns"]) simp
qed

theorem rank_is_score_order_witness:
  "\<exists>top rest. pc_clplace_rank sample_map 106 2 = map node_id top \<and> length top = 2 \<and>
    sorted_wrt (\<lambda>a b. beats (cand_of 106 a) (cand_of 106 b)) top \<and>
    (\<forall>a \<in> set top. \<forall>b \<in> set rest. beats (cand_of 106 a) (cand_of 106 b))"
proof -
  have d: "distinct (map node_id (used_nodes sample_map))"
    using sample_wf by (simp add: clmap_wf_def)
  have "length (filter pc_clmap_placeable (used_nodes sample_map)) = 3"
    unfolding used_sample
    by (simp add: sample_node_def pc_clmap_placeable_def pc_clmap_weight_def
        PC_CLMAP_ST_READY_def PC_CLMAP_W_UNSET_def)
  then show ?thesis using rank_is_score_order [OF d, of 2 106] by auto
qed



text \<open>C40: The fixed-point term \<open>64 - log2 h\<close> is never zero, never exceeds \<open>64 << 20\<close> and
  never increases with \<open>h\<close>; hence between equal weights a node whose mix is larger
  never has the smaller score.\<close>

theorem dterm_bounded_antitone:
  "0 < pc_clplace_dterm h \<and> pc_clplace_dterm h \<le> push_bit 20 64 \<and>
   (h \<le> h' \<longrightarrow> pc_clplace_dterm h' \<le> pc_clplace_dterm h)"
proof (intro conjI impI)
  show "0 < pc_clplace_dterm h" using dterm_bounds(1) [of h] by (simp add: word_less_nat_alt)
  show "pc_clplace_dterm h \<le> push_bit 20 64" using dterm_bounds(2) [of h] by (simp add: word_le_nat_alt)
  show "pc_clplace_dterm h' \<le> pc_clplace_dterm h" if "h \<le> h'"
    using dterm_antimono [OF that] by (simp add: word_le_nat_alt)
qed

theorem dterm_bounded_antitone_witness:
  "(1 :: u64) \<le> 2 \<and> pc_clplace_dterm 2 \<le> pc_clplace_dterm 1"
  using dterm_bounded_antitone [of 1 2] by simp

text \<open>Two nodes of nominal weight whose mixes differ but whose fixed-point terms
  coincide: the node with the smaller mix owns the key, so uniform weights do not
  reproduce the plain argmax over the mix in every case.\<close>

definition tie_map :: clmap where
  "tie_map = sample_map\<lparr>nnodes := 2, node := [sample_node 29, sample_node 118]\<rparr>"

lemma uniform_weights_not_argmax:
  "pc_clplace_mix 106 0x0A000076 7000 < pc_clplace_mix 106 0x0A00001D 7000 \<and>
   pc_clmap_weight (sample_node 29) = pc_clmap_weight (sample_node 118) \<and>
   pc_clplace_owner tie_map 106 = 118"
  by code_simp

end
