(* ===== verification/Lamport.thy ===== *)
theory Lamport
  imports Prelude
begin

text \<open>
  The write clock of \<open>src/src/compat/compat.c\<close>: the clustered edition's shared
  counter, and the standalone edition's per-thread clocks over a shared one.
  An atomic read-modify-write is one step; a compare-and-swap loop is its net effect.
\<close>

section \<open>The clustered edition\<close>

record lclock =
  lam :: u64
  lam_rejected :: u64

definition PC_LAMPORT_MAX_JUMP :: u64 where "PC_LAMPORT_MAX_JUMP = 1000000000"

definition pc_lamport_tick :: "lclock \<Rightarrow> lclock \<times> u64" where
  "pc_lamport_tick c = (c\<lparr>lam := lam c + 1\<rparr>, lam c + 1)"

definition pc_lamport_publish :: "u64 \<Rightarrow> lclock \<Rightarrow> lclock" where
  "pc_lamport_publish v c = c"

definition pc_lamport_now :: "lclock \<Rightarrow> u64" where
  "pc_lamport_now c = lam c"

definition pc_lamport_restore :: "u64 \<Rightarrow> lclock \<Rightarrow> lclock" where
  "pc_lamport_restore high c = (if high > lam c then c\<lparr>lam := high\<rparr> else c)"

definition pc_lamport_observe :: "u64 \<Rightarrow> lclock \<Rightarrow> lclock" where
  "pc_lamport_observe seen c =
    (if seen > lam c + PC_LAMPORT_MAX_JUMP then c\<lparr>lam_rejected := lam_rejected c + 1\<rparr>
     else if seen > lam c then c\<lparr>lam := seen\<rparr> else c)"

section \<open>The standalone edition\<close>

record saclock =
  sa_shared :: u64
  sa_local :: "nat \<Rightarrow> u64"

definition sa_tick :: "nat \<Rightarrow> saclock \<Rightarrow> saclock \<times> u64" where
  "sa_tick t c =
    (let g = sa_shared c;
         v = (if sa_local c t > g then sa_local c t else g) + 1
     in (c\<lparr>sa_local := (sa_local c)(t := v)\<rparr>, v))"

definition sa_publish :: "u64 \<Rightarrow> saclock \<Rightarrow> saclock" where
  "sa_publish v c = (if v > sa_shared c then c\<lparr>sa_shared := v\<rparr> else c)"

text \<open>What happens to the standalone clock, in any interleaving of threads.\<close>

inductive sa_step :: "saclock \<Rightarrow> saclock \<Rightarrow> bool" where
  sa_tick: "sa_step c (fst (sa_tick t c))"
| sa_publish: "sa_step c (sa_publish v c)"

inductive sa_steps :: "saclock \<Rightarrow> saclock \<Rightarrow> bool" where
  sa_refl: "sa_steps c c"
| sa_next: "sa_steps c d \<Longrightarrow> sa_step d e \<Longrightarrow> sa_steps c e"

section \<open>Facts\<close>

lemma lamport_tick_lam [simp]:
  "snd (pc_lamport_tick c) = lam c + 1" "lam (fst (pc_lamport_tick c)) = lam c + 1"
  by (simp_all add: pc_lamport_tick_def)

lemma observe_mono: "lam c \<le> lam (pc_lamport_observe v c)"
  by (auto simp: pc_lamport_observe_def)

lemma observe_reaches:
  "v \<le> lam c + PC_LAMPORT_MAX_JUMP \<Longrightarrow> v \<le> lam (pc_lamport_observe v c)"
  by (auto simp: pc_lamport_observe_def)

lemma sa_step_shared: "sa_step c d \<Longrightarrow> sa_shared c \<le> sa_shared d"
  by (induction rule: sa_step.induct) (auto simp: sa_tick_def sa_publish_def Let_def)

lemma sa_steps_shared: "sa_steps c d \<Longrightarrow> sa_shared c \<le> sa_shared d"
  by (induction rule: sa_steps.induct) (auto dest: sa_step_shared intro: order_trans)

text \<open>Standalone clock: once a delete has published its version, every later tick, on
  any thread and after any interleaving of ticks and publishes, is
  above that version, and above the ticking thread's own previous
  ticks, as long as the 64-bit counters have not run out.\<close>

theorem standalone_tick_above_published:
  assumes "sa_steps (sa_publish v c) d" "sa_shared d \<noteq> - 1" "sa_local d t \<noteq> - 1"
  shows "v < snd (sa_tick t d) \<and> sa_local d t < snd (sa_tick t d)"
proof -
  have "v \<le> sa_shared (sa_publish v c)" by (auto simp: sa_publish_def)
  also have "\<dots> \<le> sa_shared d" using assms(1) by (rule sa_steps_shared)
  finally have v: "v \<le> sa_shared d" .
  show ?thesis
    using v assms(2,3) word_less_Suc by (auto simp: sa_tick_def Let_def)
qed

theorem standalone_tick_above_published_witness:
  "let c = \<lparr>sa_shared = 4, sa_local = (\<lambda>_. 2)\<rparr>; d = fst (sa_tick 1 (sa_publish 9 c))
   in 9 < snd (sa_tick 0 d)"
proof -
  define c where "c = \<lparr>sa_shared = (4::u64), sa_local = (\<lambda>_::nat. 2::u64)\<rparr>"
  let ?d = "fst (sa_tick 1 (sa_publish 9 c))"
  have "sa_steps (sa_publish 9 c) ?d" by (rule sa_next [OF sa_refl sa_step.sa_tick])
  moreover have "sa_shared ?d \<noteq> - 1" "sa_local ?d 0 \<noteq> - 1"
    by (simp_all add: c_def sa_tick_def sa_publish_def Let_def)
  ultimately show ?thesis
    using standalone_tick_above_published [of 9 c ?d 0] by (simp add: c_def Let_def)
qed

end
