(* ===== verification/Keyhash.thy ===== *)
theory Keyhash
  imports Codec
begin

text \<open>
  The key hash (MurmurHash3 x86_32) and the identical-value check of
  \<open>src/src/core/pcache_htable.c\<close>.  A \<open>memcpy\<close> of four or eight bytes into an integer is the
  little-endian load of the hosts the daemon runs on.  The per-thread lookahead
  memo of \<open>pcache_key_hash\<close>, which returns the value it computed before for
  the same bytes, is left out.
\<close>

section \<open>MurmurHash3\<close>

definition murmur_k :: "u32 \<Rightarrow> u32" where
  "murmur_k k =
    (let k = k * 0xcc9e2d51;
         k = push_bit 15 k OR drop_bit 17 k
     in k * 0x1b873593)"

fun murmur_body :: "bytes \<Rightarrow> u32 \<Rightarrow> u32 \<times> bytes" where
  "murmur_body (a # b # c # d # p) h =
    (let h = h XOR murmur_k (pc_g32 [a, b, c, d] 0);
         h = push_bit 13 h OR drop_bit 19 h
     in murmur_body p (h * 5 + 0xe6546b64))"
| "murmur_body p h = (h, p)"

definition murmur_tail :: "bytes \<Rightarrow> u32 \<Rightarrow> u32" where
  "murmur_tail p h =
    (if p = [] then h
     else let k = (if length p = 3 then push_bit 16 (ucast (p ! 2)) else 0);
              k = (if length p \<ge> 2 then k XOR push_bit 8 (ucast (p ! 1)) else k);
              k = k XOR ucast (p ! 0)
          in h XOR murmur_k k)"

definition pcache_key_hash :: "bytes \<Rightarrow> u32" where
  "pcache_key_hash key =
    (case murmur_body key 0x9747b28c of (h, p) \<Rightarrow>
      let h = murmur_tail p h;
          h = h XOR of_nat (length key);
          h = h XOR drop_bit 16 h;
          h = h * 0x85ebca6b;
          h = h XOR drop_bit 13 h;
          h = h * 0xc2b2ae35
      in h XOR drop_bit 16 h)"

section \<open>Identical values\<close>

definition ld64 :: "bytes \<Rightarrow> nat \<Rightarrow> u64" where
  "ld64 p i = pc_g64 p i"

function eq_bytes :: "bytes \<Rightarrow> bytes \<Rightarrow> nat \<Rightarrow> nat \<Rightarrow> bool" where
  "eq_bytes p q i n = (if i < n then (if p ! i \<noteq> q ! i then False else eq_bytes p q (i + 1) n) else True)"
  by pat_completeness auto
termination by (relation "measure (\<lambda>(p, q, i, n). n - i)") auto

text \<open>The 32-byte steps: \<open>Inl ()\<close> for a difference, \<open>Inr i\<close> for where the loop stops.\<close>

function eq_steps32 :: "bytes \<Rightarrow> bytes \<Rightarrow> nat \<Rightarrow> nat \<Rightarrow> unit + nat" where
  "eq_steps32 p q i n =
    (if i + 32 \<le> n
     then if (ld64 p i XOR ld64 q i) OR (ld64 p (i + 8) XOR ld64 q (i + 8)) OR
             (ld64 p (i + 16) XOR ld64 q (i + 16)) OR (ld64 p (i + 24) XOR ld64 q (i + 24)) \<noteq> 0
          then Inl () else eq_steps32 p q (i + 32) n
     else Inr i)"
  by pat_completeness auto
termination by (relation "measure (\<lambda>(p, q, i, n). n - i)") auto

function eq_steps8 :: "bytes \<Rightarrow> bytes \<Rightarrow> nat \<Rightarrow> nat \<Rightarrow> unit + nat" where
  "eq_steps8 p q i n =
    (if i + 8 \<le> n
     then if ld64 p i \<noteq> ld64 q i then Inl () else eq_steps8 p q (i + 8) n
     else Inr i)"
  by pat_completeness auto
termination by (relation "measure (\<lambda>(p, q, i, n). n - i)") auto

declare eq_bytes.simps [simp del] eq_steps32.simps [simp del] eq_steps8.simps [simp del]

definition val_eq :: "bytes \<Rightarrow> bytes \<Rightarrow> nat \<Rightarrow> bool" where
  "val_eq p q n =
    (if n < 8 then eq_bytes p q 0 n
     else case eq_steps32 p q 0 n of Inl _ \<Rightarrow> False
       | Inr i \<Rightarrow> (case eq_steps8 p q i n of Inl _ \<Rightarrow> False
           | Inr i \<Rightarrow> \<not> (i < n \<and> ld64 p (n - 8) \<noteq> ld64 q (n - 8))))"

definition agree :: "bytes \<Rightarrow> bytes \<Rightarrow> nat \<Rightarrow> nat \<Rightarrow> bool" where
  "agree p q i k \<longleftrightarrow> (\<forall>j. i \<le> j \<and> j < k \<longrightarrow> p ! j = q ! j)"

lemma agree_split: "i \<le> m \<Longrightarrow> m \<le> k \<Longrightarrow> agree p q i k \<longleftrightarrow> agree p q i m \<and> agree p q m k"
  by (auto simp: agree_def) (metis linorder_not_less)

lemma agree_empty [simp]: "k \<le> i \<Longrightarrow> agree p q i k"
  by (auto simp: agree_def)

lemma agree_1: "agree p q i (i + 1) \<longleftrightarrow> p ! i = q ! i"
  by (auto simp: agree_def less_Suc_eq_le dest: le_antisym)

lemma agree_mono: "agree p q i k \<Longrightarrow> i \<le> i' \<Longrightarrow> k' \<le> k \<Longrightarrow> agree p q i' k'"
  by (auto simp: agree_def)

lemma agree_all:
  "length p = n \<Longrightarrow> length q = n \<Longrightarrow> agree p q 0 n \<longleftrightarrow> p = q"
  by (auto simp: agree_def list_eq_iff_nth_eq)

lemma eq_bytes_iff: "eq_bytes p q i n \<longleftrightarrow> agree p q i n"
proof (induction p q i n rule: eq_bytes.induct)
  case (1 p q i n)
  then show ?case
    using agree_split [of i "i + 1" n p q] by (subst eq_bytes.simps) (auto simp: agree_1 [simplified])
qed

lemma window_eq_iff:
  assumes "i + n \<le> length p" "i + n \<le> length q"
  shows "window p i n = window q i n \<longleftrightarrow> agree p q i (i + n)"
proof
  assume w: "window p i n = window q i n"
  show "agree p q i (i + n)"
    unfolding agree_def
  proof (intro allI impI)
    fix j assume j: "i \<le> j \<and> j < i + n"
    then have "window p i n ! (j - i) = p ! j" "window q i n ! (j - i) = q ! j"
      using assms nth_drop [of i p "j - i"] nth_drop [of i q "j - i"] by (auto simp: window_def)
    with w show "p ! j = q ! j" by simp
  qed
next
  assume "agree p q i (i + n)"
  then show "window p i n = window q i n"
    using assms by (intro nth_equalityI) (auto simp: window_def agree_def)
qed

lemma ld64_eq_iff:
  assumes "i + 8 \<le> length p" "i + 8 \<le> length q"
  shows "ld64 p i = ld64 q i \<longleftrightarrow> agree p q i (i + 8)"
  using assms f64.get_window [of i p i q] f64.enc_get [of i p] f64.enc_get [of i q]
    window_eq_iff [of i 8 p q] by (auto simp: ld64_def)

lemma xor_or_4_zero:
  "(a XOR a') OR (b XOR b') OR (c XOR c') OR (d XOR d') = 0 \<longleftrightarrow>
   a = a' \<and> b = b' \<and> c = c' \<and> d = (d' :: u64)"
  by (auto simp: bit_eq_iff bit_simps)

lemma agree_32:
  assumes "i + 32 \<le> length p" "i + 32 \<le> length q"
  shows "ld64 p i = ld64 q i \<and> ld64 p (i + 8) = ld64 q (i + 8) \<and>
    ld64 p (i + 16) = ld64 q (i + 16) \<and> ld64 p (i + 24) = ld64 q (i + 24) \<longleftrightarrow>
    agree p q i (i + 32)"
  using assms agree_split [of i "i + 8" "i + 32" p q] agree_split [of "i + 8" "i + 16" "i + 32" p q]
    agree_split [of "i + 16" "i + 24" "i + 32" p q]
    ld64_eq_iff [of i p q] ld64_eq_iff [of "i + 8" p q] ld64_eq_iff [of "i + 16" p q]
    ld64_eq_iff [of "i + 24" p q]
  by (simp add: add.assoc)

text \<open>Both stepping loops either find a difference or stop within a step of the end, having
  agreed so far.\<close>

lemma eq_steps8_spec:
  "\<lbrakk>n \<le> length p; n \<le> length q; i \<le> n\<rbrakk> \<Longrightarrow>
   (case eq_steps8 p q i n of Inl _ \<Rightarrow> \<not> agree p q i n
    | Inr k \<Rightarrow> i \<le> k \<and> k \<le> n \<and> n < k + 8 \<and> agree p q i k)"
proof (induction p q i n rule: eq_steps8.induct)
  case (1 p q i n)
  show ?case
  proof (cases "i + 8 \<le> n")
    case True
    show ?thesis
    proof (cases "ld64 p i = ld64 q i")
      case eq: True
      then have a: "agree p q i (i + 8)" using 1(2,3) True by (simp add: ld64_eq_iff)
      have "agree p q i k \<longleftrightarrow> agree p q (i + 8) k" if "i + 8 \<le> k" for k
        using a that agree_split [of i "i + 8" k p q] by simp
      then show ?thesis
        using 1 True eq by (subst eq_steps8.simps) (auto split: sum.splits)
    next
      case False
      then have "\<not> agree p q i n"
        using True 1(2,3) ld64_eq_iff [of i p q] agree_mono [of p q i n i "i + 8"] by auto
      then show ?thesis using True False by (subst eq_steps8.simps) auto
    qed
  next
    case False
    then show ?thesis using 1(4) by (subst eq_steps8.simps) auto
  qed
qed

lemma eq_steps32_spec:
  "\<lbrakk>n \<le> length p; n \<le> length q; i \<le> n\<rbrakk> \<Longrightarrow>
   (case eq_steps32 p q i n of Inl _ \<Rightarrow> \<not> agree p q i n
    | Inr k \<Rightarrow> i \<le> k \<and> k \<le> n \<and> agree p q i k)"
proof (induction p q i n rule: eq_steps32.induct)
  case (1 p q i n)
  let ?same = "ld64 p i = ld64 q i \<and> ld64 p (i + 8) = ld64 q (i + 8) \<and>
    ld64 p (i + 16) = ld64 q (i + 16) \<and> ld64 p (i + 24) = ld64 q (i + 24)"
  show ?case
  proof (cases "i + 32 \<le> n")
    case True
    have iff: "?same \<longleftrightarrow> agree p q i (i + 32)" using 1(2,3) True by (intro agree_32) auto
    show ?thesis
    proof (cases ?same)
      case same: True
      then have a: "agree p q i (i + 32)" using iff by blast
      have "agree p q i k \<longleftrightarrow> agree p q (i + 32) k" if "i + 32 \<le> k" for k
        using a that agree_split [of i "i + 32" k p q] by simp
      then show ?thesis
        using 1 True same by (subst eq_steps32.simps) (auto simp: xor_or_4_zero split: sum.splits)
    next
      case False
      then have "\<not> agree p q i n" using True iff agree_mono [of p q i n i "i + 32"] by auto
      then show ?thesis using True False by (subst eq_steps32.simps) (simp add: xor_or_4_zero)
    qed
  next
    case False
    then show ?thesis using 1(4) by (subst eq_steps32.simps) auto
  qed
qed

lemma val_eq_iff:
  assumes "length p = n" "length q = n"
  shows "val_eq p q n \<longleftrightarrow> p = q"
proof (cases "n < 8")
  case True
  then show ?thesis using assms by (simp add: val_eq_def eq_bytes_iff agree_all)
next
  case False
  show ?thesis
  proof (cases "eq_steps32 p q 0 n")
    case (Inl u)
    then show ?thesis
      using eq_steps32_spec [of n p q 0] assms False by (simp add: val_eq_def agree_all)
  next
    case (Inr k)
    then have k: "k \<le> n" "agree p q 0 k" using eq_steps32_spec [of n p q 0] assms by auto
    show ?thesis
    proof (cases "eq_steps8 p q k n")
      case (Inl u)
      then have "\<not> agree p q 0 n"
        using eq_steps8_spec [of n p q k] assms k agree_mono [of p q 0 n k n] by auto
      with \<open>eq_steps32 p q 0 n = Inr k\<close> Inl show ?thesis
        using assms False by (simp add: val_eq_def agree_all)
    next
      case (Inr m)
      then have m: "k \<le> m" "m \<le> n" "n < m + 8" "agree p q k m"
        using eq_steps8_spec [of n p q k] assms k by auto
      then have am: "agree p q 0 m" using k agree_split [of 0 k m p q] by simp
      have "ld64 p (n - 8) = ld64 q (n - 8) \<longleftrightarrow> agree p q (n - 8) n"
        using False assms ld64_eq_iff [of "n - 8" p q] by simp
      moreover have "n - 8 \<le> m" using m(3) by simp
      then have "agree p q 0 n \<longleftrightarrow> agree p q (n - 8) n \<or> m = n"
        using am m agree_split [of 0 m n p q] agree_mono [of p q "n - 8" n m n]
          agree_mono [of p q 0 n "n - 8" n] by auto
      ultimately show ?thesis
        using \<open>eq_steps32 p q 0 n = Inr k\<close> Inr assms False m(2)
        by (auto simp: val_eq_def agree_all)
    qed
  qed
qed

text \<open>The word-at-a-time comparison, with its overlapping last load, decides exactly
  whether the two byte ranges are equal, for every length.\<close>

theorem val_eq_correct:
  assumes "length p = n" "length q = n"
  shows "val_eq p q n \<longleftrightarrow> p = q"
  using assms by (rule val_eq_iff)

theorem val_eq_correct_witness:
  "length (replicate 43 (7::u8)) = 43 \<and> \<not> val_eq (replicate 43 7) ((replicate 43 7)[42 := 8]) 43"
proof -
  have "replicate 43 (7::u8) ! 42 \<noteq> (replicate 43 7)[42 := 8] ! 42" by simp
  then have "replicate 43 (7::u8) \<noteq> (replicate 43 7)[42 := 8]" by metis
  then show ?thesis
    using val_eq_correct [of "replicate 43 7" 43 "(replicate 43 7)[42 := 8]"] by simp
qed

end
