(* ===== verification/Chain.thy ===== *)
theory Chain
  imports Prelude
begin

text \<open>
  The bucket and its overflow chain, \<open>src/src/core/pcache_htable.h\<close> and the chain
  operations of \<open>src/src/core/pcache_htable.c\<close>.  A bucket has six tags, six slots and
  the packed \<open>meta\<close> word (3 bits of use count, the link bit, the owner).  A chain is the
  list of its buckets, the home bucket first; a bucket whose link bit is set is
  followed by the next element (its \<open>slot[5]\<close> holds the pointer to it in the code, and no
  record here).  \<open>layout\<close> is the reference: the chain that holds a given list of
  records; every operation is shown to act on it as a plain list operation.
\<close>

section \<open>Records and buckets\<close>

record hrec =
  r_flags :: u8
  r_key :: bytes
  r_val :: bytes
  r_expires :: u32
  r_hash :: u32
  r_ver :: u64
  r_wtick :: u32
  r_cell :: nat

record bkt =
  tags :: "u8 list"
  meta :: u16
  slots :: "hrec option list"

definition PCACHE_SLOTS :: nat where "PCACHE_SLOTS = 6"
definition PCACHE_BKT_USED :: u16 where "PCACHE_BKT_USED = 0x7"
definition PCACHE_BKT_LINK :: u16 where "PCACHE_BKT_LINK = 0x8"

definition tag_of :: "u32 \<Rightarrow> u8" where
  "tag_of h = (let t = ucast (drop_bit 24 h) in if t \<noteq> 0 then t else 1)"

definition bkt_used :: "bkt \<Rightarrow> nat" where
  "bkt_used b = unat (meta b AND PCACHE_BKT_USED)"

definition bkt_set_used :: "bkt \<Rightarrow> nat \<Rightarrow> bkt" where
  "bkt_set_used b u = b\<lparr>meta := (meta b AND NOT PCACHE_BKT_USED) OR of_nat u\<rparr>"

definition bkt_linked :: "bkt \<Rightarrow> bool" where
  "bkt_linked b \<longleftrightarrow> meta b AND PCACHE_BKT_LINK \<noteq> 0"

definition bkt_cap :: "bkt \<Rightarrow> nat" where
  "bkt_cap b = (if bkt_linked b then PCACHE_SLOTS - 1 else PCACHE_SLOTS)"

definition chained_of :: "nat \<Rightarrow> int" where
  "chained_of n = (if n > PCACHE_SLOTS then int n - (int PCACHE_SLOTS - 1) else 0)"

definition zero_bkt :: bkt where
  "zero_bkt = \<lparr>tags = replicate 6 0, meta = 0, slots = replicate 6 None\<rparr>"

section \<open>Chain operations\<close>

definition slot_holds :: "bkt \<Rightarrow> bytes \<Rightarrow> u32 \<Rightarrow> u8 \<Rightarrow> nat \<Rightarrow> bool" where
  "slot_holds b key hash tag i \<longleftrightarrow>
     tags b ! i = tag \<and>
     (case slots b ! i of None \<Rightarrow> False | Some r \<Rightarrow> r_hash r = hash \<and> r_key r = key)"

definition find_slot :: "bkt \<Rightarrow> bytes \<Rightarrow> u32 \<Rightarrow> u8 \<Rightarrow> nat option" where
  "find_slot b key hash tag = find (slot_holds b key hash tag) [0 ..< bkt_used b]"

fun chain_find :: "bkt list \<Rightarrow> bytes \<Rightarrow> u32 \<Rightarrow> u8 \<Rightarrow> (nat \<times> nat) option" where
  "chain_find [] key hash tag = None"
| "chain_find (b # bs) key hash tag =
     (case find_slot b key hash tag of
        Some i \<Rightarrow> Some (0, i)
      | None \<Rightarrow> if bkt_linked b then map_option (apfst Suc) (chain_find bs key hash tag) else None)"

text \<open>The position of the chain's last bucket and the number of records over the chain.\<close>

fun chain_tail :: "bkt list \<Rightarrow> nat \<times> nat" where
  "chain_tail [] = (0, 0)"
| "chain_tail (b # bs) =
     (if bkt_linked b then (case chain_tail bs of (t, n) \<Rightarrow> (Suc t, bkt_used b + n))
      else (0, bkt_used b))"

text \<open>Append at the tail: the buckets that take its place, and whether \<open>ob\<close> was used.\<close>

definition chain_append :: "bkt \<Rightarrow> hrec \<Rightarrow> u8 \<Rightarrow> bkt \<Rightarrow> bkt list \<times> bool" where
  "chain_append tail r tag ob =
    (let u = bkt_used tail in
     if u < bkt_cap tail
     then ([bkt_set_used (tail\<lparr>slots := (slots tail)[u := Some r],
              tags := (tags tail)[u := tag]\<rparr>) (u + 1)], False)
     else
       (let ob = ob\<lparr>slots := (slots ob)[0 := slots tail ! (PCACHE_SLOTS - 1)],
                    tags := (tags ob)[0 := tags tail ! (PCACHE_SLOTS - 1)]\<rparr>;
            ob = ob\<lparr>slots := (slots ob)[1 := Some r], tags := (tags ob)[1 := tag]\<rparr>;
            ob = bkt_set_used ob 2;
            tail = tail\<lparr>tags := (tags tail)[PCACHE_SLOTS - 1 := 0],
                        slots := (slots tail)[PCACHE_SLOTS - 1 := None],
                        meta := meta tail OR PCACHE_BKT_LINK\<rparr>
        in ([bkt_set_used tail (PCACHE_SLOTS - 1), ob], True)))"

definition chain_put :: "bkt list \<Rightarrow> hrec \<Rightarrow> u8 \<Rightarrow> bkt \<Rightarrow> bkt list \<times> bool" where
  "chain_put ch r tag ob =
    (let t = fst (chain_tail ch) in
     case chain_append (ch ! t) r tag ob of (bs, used_ob) \<Rightarrow> (take t ch @ bs, used_ob))"

text \<open>Replace the record in a slot (\<open>w->slot[i] = nr\<close>, or a change inside the record).\<close>

definition chain_set :: "bkt list \<Rightarrow> nat \<Rightarrow> nat \<Rightarrow> hrec \<Rightarrow> bkt list" where
  "chain_set ch w i r = ch[w := (ch ! w)\<lparr>slots := (slots (ch ! w))[i := Some r]\<rparr>]"

text \<open>Remove a slot: the chain, whether a bucket left it, the change in chained records.\<close>

definition chain_remove_at :: "bkt list \<Rightarrow> nat \<Rightarrow> nat \<Rightarrow> bkt list \<times> bool \<times> int" where
  "chain_remove_at ch w i =
    (case chain_tail ch of (t, n) \<Rightarrow>
      let dc = chained_of (n - 1) - chained_of n;
          tu = bkt_used (ch ! t) - 1;
          ch = (if t \<noteq> w \<or> tu \<noteq> i
                then ch[w := (ch ! w)\<lparr>slots := (slots (ch ! w))[i := slots (ch ! t) ! tu],
                                      tags := (tags (ch ! w))[i := tags (ch ! t) ! tu]\<rparr>]
                else ch);
          ch = ch[t := bkt_set_used ((ch ! t)\<lparr>slots := (slots (ch ! t))[tu := None],
                                              tags := (tags (ch ! t))[tu := 0]\<rparr>) tu]
      in if t = 0 \<or> tu \<noteq> 1 then (ch, False, dc)
         else
           let p = ch ! (t - 1);
               p = p\<lparr>tags := (tags p)[PCACHE_SLOTS - 1 := tags (ch ! t) ! 0],
                     slots := (slots p)[PCACHE_SLOTS - 1 := slots (ch ! t) ! 0],
                     meta := meta p AND NOT PCACHE_BKT_LINK\<rparr>
           in (take t (ch[t - 1 := bkt_set_used p PCACHE_SLOTS]), True, dc))"

section \<open>The reference: the chain of a list of records\<close>

definition mk_meta :: "nat \<Rightarrow> bool \<Rightarrow> u16" where
  "mk_meta u lk = of_nat u OR (if lk then 8 else 0)"

definition mk_bkt :: "hrec list \<Rightarrow> bool \<Rightarrow> bkt" where
  "mk_bkt rs lk =
     \<lparr>tags = map (\<lambda>r. tag_of (r_hash r)) rs @ replicate (6 - length rs) 0,
      meta = mk_meta (length rs) lk,
      slots = map Some rs @ replicate (6 - length rs) None\<rparr>"

text \<open>How many overflow buckets \<open>n\<close> records take, and where they sit.\<close>

definition nover :: "nat \<Rightarrow> nat" where
  "nover n = (if n \<le> 6 then 0 else (n - 2) div 5)"

definition layout :: "hrec list \<Rightarrow> bkt list" where
  "layout rs =
     map (\<lambda>j. mk_bkt (take 5 (drop (5 * j) rs)) True) [0 ..< nover (length rs)]
     @ [mk_bkt (drop (5 * nover (length rs)) rs) False]"

definition swap_remove :: "'a list \<Rightarrow> nat \<Rightarrow> 'a list" where
  "swap_remove xs p = butlast (xs[p := last xs])"

section \<open>The packed meta word\<close>

lemma less_8_cases: "u < 8 \<Longrightarrow> u = 0 \<or> u = 1 \<or> u = 2 \<or> u = 3 \<or> u = 4 \<or> u = 5 \<or> u = 6 \<or> u = (7::nat)"
  by arith

lemma meta_used: "u < 8 \<Longrightarrow> unat (mk_meta u lk AND PCACHE_BKT_USED) = u"
  by (cases lk; drule less_8_cases; elim disjE; simp add: mk_meta_def PCACHE_BKT_USED_def)

lemma meta_linked: "u < 8 \<Longrightarrow> mk_meta u lk AND PCACHE_BKT_LINK \<noteq> 0 \<longleftrightarrow> lk"
  by (cases lk; drule less_8_cases; elim disjE; simp add: mk_meta_def PCACHE_BKT_LINK_def)

lemma meta_set_used:
  "u < 8 \<Longrightarrow> v < 8 \<Longrightarrow> (mk_meta u lk AND NOT PCACHE_BKT_USED) OR of_nat v = mk_meta v lk"
  by (cases lk; drule less_8_cases; drule less_8_cases; elim disjE;
      simp add: mk_meta_def PCACHE_BKT_USED_def)

lemma meta_link: "u < 8 \<Longrightarrow> mk_meta u False OR PCACHE_BKT_LINK = mk_meta u True"
  by (drule less_8_cases; elim disjE; simp add: mk_meta_def PCACHE_BKT_LINK_def)

lemma meta_unlink: "u < 8 \<Longrightarrow> mk_meta u True AND NOT PCACHE_BKT_LINK = mk_meta u False"
  by (drule less_8_cases; elim disjE; simp add: mk_meta_def PCACHE_BKT_LINK_def)

lemma mk_bkt_sel [simp]:
  "meta (mk_bkt rs lk) = mk_meta (length rs) lk"
  "tags (mk_bkt rs lk) = map (\<lambda>r. tag_of (r_hash r)) rs @ replicate (6 - length rs) 0"
  "slots (mk_bkt rs lk) = map Some rs @ replicate (6 - length rs) None"
  by (simp_all add: mk_bkt_def)

lemma mk_bkt_used [simp]: "length rs \<le> 6 \<Longrightarrow> bkt_used (mk_bkt rs lk) = length rs"
  by (simp add: bkt_used_def meta_used)

lemma mk_bkt_linked [simp]: "length rs \<le> 6 \<Longrightarrow> bkt_linked (mk_bkt rs lk) \<longleftrightarrow> lk"
  by (simp add: bkt_linked_def meta_linked)

lemma mk_bkt_cap [simp]: "length rs \<le> 6 \<Longrightarrow> bkt_cap (mk_bkt rs lk) = (if lk then 5 else 6)"
  by (simp add: bkt_cap_def PCACHE_SLOTS_def)

lemma zero_bkt_mk: "zero_bkt = mk_bkt [] False"
  by (simp add: zero_bkt_def mk_bkt_def mk_meta_def)

section \<open>Single buckets\<close>

lemma bkt_eqI: "tags a = tags b \<Longrightarrow> meta a = meta b \<Longrightarrow> slots a = slots b \<Longrightarrow> (a :: bkt) = b"
  by simp

lemma mk_bkt_set:
  assumes "i < length rs" "length rs \<le> 6" "tag = tag_of (r_hash r)"
  shows "(mk_bkt rs lk)\<lparr>slots := (slots (mk_bkt rs lk))[i := Some r],
           tags := (tags (mk_bkt rs lk))[i := tag]\<rparr> = mk_bkt (rs[i := r]) lk"
  using assms by (intro bkt_eqI) (simp_all add: list_update_append map_update)

lemma mk_bkt_append:
  assumes "length rs < 6"
  shows "bkt_set_used ((mk_bkt rs lk)\<lparr>slots := (slots (mk_bkt rs lk))[length rs := Some r],
           tags := (tags (mk_bkt rs lk))[length rs := tag_of (r_hash r)]\<rparr>) (length rs + 1)
         = mk_bkt (rs @ [r]) lk"
proof -
  obtain m where m: "6 - length rs = Suc m" using assms by (cases "6 - length rs") auto
  then have "6 - Suc (length rs) = m" by simp
  with m show ?thesis
    using assms meta_set_used [of "length rs" "length rs + 1" lk]
    by (intro bkt_eqI) (simp_all add: bkt_set_used_def list_update_append)
qed

lemma mk_bkt_butlast:
  assumes "rs \<noteq> []" "length rs \<le> 6"
  shows "bkt_set_used ((mk_bkt rs lk)\<lparr>slots := (slots (mk_bkt rs lk))[length rs - 1 := None],
           tags := (tags (mk_bkt rs lk))[length rs - 1 := 0]\<rparr>) (length rs - 1)
         = mk_bkt (butlast rs) lk"
proof -
  obtain xs x where rs: "rs = xs @ [x]" using assms(1) by (metis rev_exhaust)
  have m: "6 - length xs = Suc (6 - Suc (length xs))" using assms(2) rs by simp
  have r1: "replicate (6 - length xs) (0::u8) = 0 # replicate (5 - length xs) 0"
    "replicate (6 - length xs) (None :: hrec option) = None # replicate (5 - length xs) None"
    using m by simp_all
  show ?thesis
    using assms(2) rs meta_set_used [of "length rs" "length rs - 1" lk]
    by (intro bkt_eqI) (simp_all add: bkt_set_used_def list_update_append r1)
qed

lemma mk_bkt_spill:
  assumes "length rs = 6"
  shows "bkt_set_used ((mk_bkt rs False)\<lparr>tags := (tags (mk_bkt rs False))[5 := 0],
           slots := (slots (mk_bkt rs False))[5 := None],
           meta := meta (mk_bkt rs False) OR PCACHE_BKT_LINK\<rparr>) 5 = mk_bkt (take 5 rs) True"
proof -
  obtain xs x where rs: "rs = xs @ [x]" "length xs = 5" using assms by (cases rs rule: rev_cases) auto
  show ?thesis
    using rs meta_set_used [of 6 5 True]
    by (intro bkt_eqI) (simp_all add: bkt_set_used_def list_update_append meta_link)
qed

lemma mk_bkt_pair:
  "bkt_set_used (zero_bkt\<lparr>slots := ((slots zero_bkt)[0 := Some a])[1 := Some b],
      tags := ((tags zero_bkt)[0 := tag_of (r_hash a)])[1 := tag_of (r_hash b)]\<rparr>) 2
   = mk_bkt [a, b] False"
  using meta_set_used [of 0 2 False]
  by (intro bkt_eqI)
    (simp_all add: zero_bkt_mk bkt_set_used_def numeral_eq_Suc replicate_app_Cons_same)

lemma mk_bkt_fold:
  assumes "length rs = 5"
  shows "bkt_set_used ((mk_bkt rs True)\<lparr>tags := (tags (mk_bkt rs True))[5 := tag_of (r_hash r)],
           slots := (slots (mk_bkt rs True))[5 := Some r],
           meta := meta (mk_bkt rs True) AND NOT PCACHE_BKT_LINK\<rparr>) 6 = mk_bkt (rs @ [r]) False"
  using assms meta_set_used [of 5 6 False]
  by (intro bkt_eqI) (simp_all add: bkt_set_used_def list_update_append meta_unlink)

section \<open>Where the records sit\<close>

lemma nover_range:
  "5 * nover n \<le> n" "n - 5 * nover n \<le> 6" "0 < nover n \<Longrightarrow> 2 \<le> n - 5 * nover n"
  "0 < nover n \<longleftrightarrow> 6 < n"
  by (auto simp: nover_def div_greater_zero_iff)

lemma nover_eqI: "n \<le> 5 * k + 6 \<Longrightarrow> k = 0 \<or> 5 * k + 2 \<le> n \<Longrightarrow> nover n = k"
  by (auto simp: nover_def)

text \<open>The records of the bucket at position \<open>j\<close> of the chain.\<close>

definition seg :: "'a list \<Rightarrow> nat \<Rightarrow> 'a list" where
  "seg rs j = (if j < nover (length rs) then take 5 (drop (5 * j) rs)
     else drop (5 * nover (length rs)) rs)"

lemma length_layout [simp]: "length (layout rs) = Suc (nover (length rs))"
  by (simp add: layout_def)

lemma layout_nth:
  "j \<le> nover (length rs) \<Longrightarrow> layout rs ! j = mk_bkt (seg rs j) (j < nover (length rs))"
  by (auto simp: layout_def seg_def nth_append)

lemma layout_eqI:
  assumes "length ch = Suc (nover (length rs))"
    "\<And>j. j \<le> nover (length rs) \<Longrightarrow> ch ! j = mk_bkt (seg rs j) (j < nover (length rs))"
  shows "ch = layout rs"
  using assms by (intro nth_equalityI) (auto simp: layout_nth)

lemma length_seg:
  "j < nover (length rs) \<Longrightarrow> length (seg rs j) = 5"
  "\<not> j < nover (length rs) \<Longrightarrow> length (seg rs j) = length rs - 5 * nover (length rs)"
  using nover_range(1) [of "length rs"] by (auto simp: seg_def)

lemma length_seg_le: "length (seg rs j) \<le> 6"
  using length_seg [of j rs] nover_range(2) [of "length rs"] by (cases "j < nover (length rs)") auto

lemma nth_seg:
  "j \<le> nover (length rs) \<Longrightarrow> i < length (seg rs j) \<Longrightarrow> seg rs j ! i = rs ! (5 * j + i)"
  using length_seg [of j rs] nover_range(1) [of "length rs"]
  by (cases "j = nover (length rs)") (auto simp: seg_def)

lemma pos_bound:
  "j \<le> nover (length rs) \<Longrightarrow> i < length (seg rs j) \<Longrightarrow> 5 * j + i < length rs"
  using length_seg [of j rs] nover_range(1,3) [of "length rs"]
  by (cases "j = nover (length rs)") auto

lemma pos_exists:
  assumes "p < length rs"
  obtains j i where "j \<le> nover (length rs)" "i < length (seg rs j)" "p = 5 * j + i"
proof (cases "p div 5 < nover (length rs)")
  case True
  then show ?thesis using that [of "p div 5" "p mod 5"] by (simp add: length_seg)
next
  case False
  let ?k = "nover (length rs)"
  have "5 * ?k \<le> p" using False by linarith
  then show ?thesis using that [of ?k "p - 5 * ?k"] assms by (simp add: length_seg)
qed

lemma pos_inj:
  assumes "j \<le> nover (length rs)" "i < length (seg rs j)"
    "j' \<le> nover (length rs)" "i' < length (seg rs j')" "5 * j + i = 5 * j' + i'"
  shows "j = j' \<and> i = i'"
  using assms length_seg [of j rs] length_seg [of j' rs]
  by (cases "j < nover (length rs)"; cases "j' < nover (length rs)"; auto; presburger)

section \<open>Tail, lookup, replacement\<close>

lemma chain_tail_split:
  "\<lbrakk>\<forall>b \<in> set bs. bkt_linked b; \<not> bkt_linked t\<rbrakk> \<Longrightarrow>
   chain_tail (bs @ [t]) = (length bs, sum_list (map bkt_used bs) + bkt_used t)"
  by (induction bs) auto

lemma chain_tail_layout [simp]: "chain_tail (layout rs) = (nover (length rs), length rs)"
proof -
  let ?k = "nover (length rs)"
  let ?bs = "map (\<lambda>j. mk_bkt (take 5 (drop (5 * j) rs)) True) [0 ..< ?k]"
  have len: "length (take 5 (drop (5 * j) rs)) = 5" if "j < ?k" for j
    using that nover_range(1) [of "length rs"] by auto
  have "map bkt_used ?bs = map (\<lambda>_. 5) [0 ..< ?k]" using len by auto
  then have "sum_list (map bkt_used ?bs) = 5 * ?k" by (simp only: map_replicate_const sum_list_replicate) simp
  moreover have "bkt_used (mk_bkt (drop (5 * ?k) rs) False) = length rs - 5 * ?k"
    using nover_range(2) [of "length rs"] by simp
  ultimately show ?thesis
    unfolding layout_def
    using len nover_range(1,2) [of "length rs"] by (subst chain_tail_split) auto
qed

lemma slot_holds_mk:
  "i < length rs \<Longrightarrow> length rs \<le> 6 \<Longrightarrow>
   slot_holds (mk_bkt rs lk) key h (tag_of h) i \<longleftrightarrow> r_hash (rs ! i) = h \<and> r_key (rs ! i) = key"
  by (auto simp: slot_holds_def nth_append)

lemma find_slot_mk:
  assumes "length rs \<le> 6"
  shows "find_slot (mk_bkt rs lk) key h (tag_of h) =
    find (\<lambda>i. r_hash (rs ! i) = h \<and> r_key (rs ! i) = key) [0 ..< length rs]"
  unfolding find_slot_def using assms by (intro find_cong) (auto simp: slot_holds_mk)

lemma chain_find_split_Some:
  "\<lbrakk>chain_find bs key h t = Some (w, i)\<rbrakk> \<Longrightarrow> w < length bs \<and> find_slot (bs ! w) key h t = Some i"
  by (induction bs arbitrary: w) (auto split: option.splits if_splits)

lemma chain_find_split_None:
  "\<lbrakk>chain_find (bs @ [t]) key h tg = None; \<forall>b \<in> set bs. bkt_linked b; b \<in> set (bs @ [t])\<rbrakk> \<Longrightarrow>
   find_slot b key h tg = None"
  by (induction bs) (auto split: option.splits if_splits)

lemma layout_links: "\<exists>bs t. layout rs = bs @ [t] \<and> (\<forall>b \<in> set bs. bkt_linked b)"
  by (rule exI, rule exI, rule conjI, rule layout_def) (auto simp: min_def)

lemma chain_find_Some:
  assumes "chain_find (layout rs) key h (tag_of h) = Some (w, i)"
  shows "w \<le> nover (length rs)" "i < length (seg rs w)"
    "r_hash (rs ! (5 * w + i)) = h" "r_key (rs ! (5 * w + i)) = key" "5 * w + i < length rs"
proof -
  from chain_find_split_Some [OF assms]
  have w: "w \<le> nover (length rs)" and f: "find_slot (layout rs ! w) key h (tag_of h) = Some i" by auto
  from f w have "i < length (seg rs w) \<and> r_hash (seg rs w ! i) = h \<and> r_key (seg rs w ! i) = key"
    by (simp add: layout_nth find_slot_mk length_seg_le find_Some_iff) auto
  with w show "w \<le> nover (length rs)" "i < length (seg rs w)"
    "r_hash (rs ! (5 * w + i)) = h" "r_key (rs ! (5 * w + i)) = key" "5 * w + i < length rs"
    using nth_seg [of w rs i] pos_bound [of w rs i] by auto
qed

lemma chain_find_None:
  assumes "chain_find (layout rs) key h (tag_of h) = None" "r \<in> set rs" "r_hash r = h"
  shows "r_key r \<noteq> key"
proof
  assume key: "r_key r = key"
  obtain p where p: "p < length rs" "r = rs ! p" using assms(2) by (metis in_set_conv_nth)
  then obtain j i where ji: "j \<le> nover (length rs)" "i < length (seg rs j)" "p = 5 * j + i"
    using pos_exists by metis
  obtain bs t where l: "layout rs = bs @ [t]" "\<forall>b \<in> set bs. bkt_linked b" using layout_links by metis
  have "layout rs ! j \<in> set (layout rs)" using ji(1) by simp
  then have "find_slot (layout rs ! j) key h (tag_of h) = None"
    using chain_find_split_None assms(1) l by metis
  then have "\<not> (r_hash (seg rs j ! i) = h \<and> r_key (seg rs j ! i) = key)"
    using ji by (auto simp: layout_nth find_slot_mk length_seg_le find_None_iff)
  then show False using ji p key assms(3) nth_seg [of j rs i] by simp
qed

lemma seg_update:
  assumes "j \<le> nover (length rs)" "i < length (seg rs j)" "j' \<le> nover (length rs)"
  shows "seg (rs[5 * j + i := r]) j' = (if j' = j then (seg rs j)[i := r] else seg rs j')"
proof (rule nth_equalityI)
  have l: "length (seg (rs[5 * j + i := r]) j') = length (seg rs j')" by (simp add: seg_def)
  then show "length (seg (rs[5 * j + i := r]) j') =
      length (if j' = j then (seg rs j)[i := r] else seg rs j')" by simp
  fix x assume "x < length (seg (rs[5 * j + i := r]) j')"
  then have x: "x < length (seg rs j')" using l by simp
  have "seg (rs[5 * j + i := r]) j' ! x = rs[5 * j + i := r] ! (5 * j' + x)"
    using x assms(3) l by (intro nth_seg) auto
  also have "\<dots> = (if j' = j \<and> x = i then r else rs ! (5 * j' + x))"
  proof -
    have "5 * j + i = 5 * j' + x \<longleftrightarrow> j' = j \<and> x = i"
      using pos_inj [OF assms(1,2) assms(3) x] by auto
    then show ?thesis using pos_bound [OF assms(3) x] by (simp add: nth_list_update)
  qed
  finally show "seg (rs[5 * j + i := r]) j' ! x =
      (if j' = j then (seg rs j)[i := r] else seg rs j') ! x"
    using nth_seg [OF assms(3) x] x assms(2) by (auto simp: nth_list_update)
qed

lemma layout_update:
  assumes "w \<le> nover (length rs)" "i < length (seg rs w)"
    "b = mk_bkt ((seg rs w)[i := r]) (w < nover (length rs))"
  shows "(layout rs)[w := b] = layout (rs[5 * w + i := r])"
  using assms by (intro layout_eqI) (auto simp: nth_list_update layout_nth seg_update)

lemma chain_set_layout:
  assumes "w \<le> nover (length rs)" "i < length (seg rs w)"
    "tag_of (r_hash r) = tag_of (r_hash (rs ! (5 * w + i)))"
  shows "chain_set (layout rs) w i r = layout (rs[5 * w + i := r])"
proof -
  have same: "(map (\<lambda>r. tag_of (r_hash r)) (seg rs w))[i := tag_of (r_hash r)] =
      map (\<lambda>r. tag_of (r_hash r)) (seg rs w)"
    using assms nth_seg [OF assms(1,2)] by (intro list_update_same_conv [THEN iffD2]) auto
  have "(layout rs ! w)\<lparr>slots := (slots (layout rs ! w))[i := Some r]\<rparr> =
      mk_bkt ((seg rs w)[i := r]) (w < nover (length rs))"
    using assms(1,2) same length_seg_le [of rs w]
    by (intro bkt_eqI) (simp_all add: layout_nth list_update_append map_update)
  then show ?thesis unfolding chain_set_def using layout_update [OF assms(1,2)] by metis
qed

lemma chain_put_layout:
  "chain_put (layout rs) r (tag_of (r_hash r)) zero_bkt =
     (layout (rs @ [r]), nover (Suc (length rs)) \<noteq> nover (length rs))"
proof -
  let ?k = "nover (length rs)" and ?tl = "drop (5 * nover (length rs)) rs"
  note rg = nover_range [of "length rs"]
  have tl: "layout rs ! ?k = mk_bkt ?tl False" by (simp add: layout_nth seg_def)
  show ?thesis
  proof (cases "length ?tl < 6")
    case True
    then have k: "nover (Suc (length rs)) = ?k"
      using rg by (intro nover_eqI) auto
    have "chain_append (layout rs ! ?k) r (tag_of (r_hash r)) zero_bkt = ([mk_bkt (?tl @ [r]) False], False)"
      unfolding tl chain_append_def Let_def using True mk_bkt_append [of ?tl False r] by simp
    moreover have "take ?k (layout rs) @ [mk_bkt (?tl @ [r]) False] = layout (rs @ [r])"
      using rg(1) k by (intro layout_eqI) (auto simp: nth_append layout_nth seg_def)
    ultimately show ?thesis using k by (simp add: chain_put_def)
  next
    case False
    then have six: "length ?tl = 6" using rg(2) by simp
    then have n: "length rs = 5 * ?k + 6" using rg(1) by simp
    then have k: "nover (Suc (length rs)) = Suc ?k" by (intro nover_eqI) auto
    have five: "slots (mk_bkt ?tl False) ! 5 = Some (?tl ! 5)"
      "tags (mk_bkt ?tl False) ! 5 = tag_of (r_hash (?tl ! 5))"
      using six by (simp_all add: nth_append)
    have "chain_append (layout rs ! ?k) r (tag_of (r_hash r)) zero_bkt =
        ([mk_bkt (take 5 ?tl) True, mk_bkt [?tl ! 5, r] False], True)"
      unfolding tl chain_append_def Let_def
      using six five mk_bkt_spill [OF six] mk_bkt_pair [of "?tl ! 5" r]
      by (simp add: PCACHE_SLOTS_def del: mk_bkt_sel)
    moreover have "take ?k (layout rs) @ [mk_bkt (take 5 ?tl) True, mk_bkt [?tl ! 5, r] False] =
        layout (rs @ [r])"
    proof (rule layout_eqI)
      have d: "drop (5 * Suc ?k) (rs @ [r]) = [?tl ! 5, r]"
        using six n Cons_nth_drop_Suc [of "5 + 5 * ?k" rs] by (simp add: add.commute)
      fix j assume "j \<le> nover (length (rs @ [r]))"
      then consider "j < ?k" | "j = ?k" | "j = Suc ?k" using k by force
      then show "(take ?k (layout rs) @ [mk_bkt (take 5 ?tl) True, mk_bkt [?tl ! 5, r] False]) ! j =
          mk_bkt (seg (rs @ [r]) j) (j < nover (length (rs @ [r])))"
        using k n d by cases (auto simp: nth_append layout_nth seg_def)
    qed (use k in simp)
    ultimately show ?thesis using k by (simp add: chain_put_def)
  qed
qed

section \<open>Removal\<close>

lemma length_swap_remove [simp]: "length (swap_remove xs p) = length xs - 1"
  by (simp add: swap_remove_def)

lemma layout_replace:
  assumes "w \<le> nover (length rs)" "i < length (seg rs w)"
  shows "(layout rs)[w := (layout rs ! w)\<lparr>slots := (slots (layout rs ! w))[i := Some r],
      tags := (tags (layout rs ! w))[i := tag_of (r_hash r)]\<rparr>] = layout (rs[5 * w + i := r])"
  using assms length_seg_le [of rs w]
  by (intro layout_update) (auto simp: layout_nth mk_bkt_set simp del: mk_bkt_sel)

lemma tail_last:
  assumes "rs \<noteq> []"
  shows "seg rs (nover (length rs)) \<noteq> []" "last (seg rs (nover (length rs))) = last rs"
    "slots (layout rs ! nover (length rs)) ! (length (seg rs (nover (length rs))) - 1) = Some (last rs)"
    "tags (layout rs ! nover (length rs)) ! (length (seg rs (nover (length rs))) - 1)
       = tag_of (r_hash (last rs))"
proof -
  let ?k = "nover (length rs)" and ?t = "seg rs (nover (length rs))"
  have "0 < length rs - 5 * ?k"
    using nover_range(3,4) [of "length rs"] assms by (cases "0 < ?k") auto
  then show ne: "?t \<noteq> []" using length_seg(2) [of ?k rs] by auto
  then show l: "last ?t = last rs" by (simp add: seg_def)
  have "?t ! (length ?t - 1) = last rs" using ne l by (simp add: last_conv_nth)
  then show "slots (layout rs ! ?k) ! (length ?t - 1) = Some (last rs)"
    "tags (layout rs ! ?k) ! (length ?t - 1) = tag_of (r_hash (last rs))"
    using ne by (simp_all add: layout_nth nth_append)
qed

lemma layout_butlast_keep:
  assumes "rs \<noteq> []" "nover (length rs) = 0 \<or> length (seg rs (nover (length rs))) \<noteq> 2"
  shows "(layout rs)[nover (length rs) := mk_bkt (butlast (seg rs (nover (length rs)))) False]
      = layout (butlast rs)" "nover (length rs - 1) = nover (length rs)"
proof -
  let ?k = "nover (length rs)"
  have len: "length (seg rs ?k) = length rs - 5 * ?k" by (simp add: length_seg)
  show k: "nover (length rs - 1) = ?k"
    using assms len nover_range [of "length rs"] by (intro nover_eqI) auto
  have "5 * ?k \<le> length rs - 1"
    using assms len nover_range [of "length rs"] by (cases "?k = 0") auto
  then have bl: "butlast rs = take (length rs - 1) rs" "5 * ?k \<le> length (butlast rs)"
    by (simp_all add: butlast_conv_take)
  have km: "nover (length (butlast rs)) = ?k" using k by simp
  show "(layout rs)[?k := mk_bkt (butlast (seg rs ?k)) False] = layout (butlast rs)"
  proof (rule layout_eqI)
    fix j assume "j \<le> nover (length (butlast rs))"
    then consider "j < ?k" | "j = ?k" unfolding km by linarith
    then show "(layout rs)[?k := mk_bkt (butlast (seg rs ?k)) False] ! j =
        mk_bkt (seg (butlast rs) j) (j < nover (length (butlast rs)))"
    proof cases
      case 1
      then have "5 * Suc j \<le> 5 * ?k" by simp
      then have "5 \<le> length rs - 1 - 5 * j" using bl(2) by simp
      then have "take 5 (drop (5 * j) rs) = take 5 (drop (5 * j) (butlast rs))"
        unfolding bl(1) by (simp add: drop_take min_absorb1)
      then have "seg rs j = seg (butlast rs) j" using 1 km by (simp add: seg_def del: length_butlast)
      then show ?thesis using 1 unfolding km by (simp add: layout_nth)
    next
      case 2
      have "seg (butlast rs) ?k = butlast (seg rs ?k)"
        using km by (simp add: seg_def butlast_drop del: length_butlast)
      then show ?thesis using 2 unfolding km by simp
    qed
  qed (use km in simp)
qed

lemma layout_butlast_fold:
  assumes "0 < nover (length rs)" "length (seg rs (nover (length rs))) = 2"
  shows "take (nover (length rs)) ((layout rs)[nover (length rs) - 1 :=
      mk_bkt (seg rs (nover (length rs) - 1) @ [hd (seg rs (nover (length rs)))]) False])
      = layout (butlast rs)" "nover (length rs - 1) = nover (length rs) - 1"
proof -
  let ?k = "nover (length rs)"
  have n: "length rs = 5 * ?k + 2"
    using assms length_seg(2) [of ?k rs] nover_range(1) [of "length rs"] by simp
  show k: "nover (length rs - 1) = ?k - 1"
    using n assms(1) by (intro nover_eqI) auto
  obtain m where m: "?k = Suc m" using assms(1) by (cases ?k) auto
  have hd: "hd (seg rs ?k) = rs ! (5 + 5 * m)"
    using n m by (simp add: seg_def hd_drop_conv_nth)
  have bl: "butlast rs = take (6 + 5 * m) rs"
    using n m by (simp add: butlast_conv_take)
  have "drop (5 * m) (butlast rs) = take (Suc 5) (drop (5 * m) rs)"
    unfolding bl by (simp add: drop_take)
  also have "\<dots> = take 5 (drop (5 * m) rs) @ [drop (5 * m) rs ! 5]"
    using n m by (intro take_Suc_conv_app_nth) simp
  finally have s: "seg rs m @ [hd (seg rs ?k)] = drop (5 * m) (butlast rs)"
    using m hd n by (simp add: seg_def add.commute)
  show "take ?k ((layout rs)[?k - 1 := mk_bkt (seg rs (?k - 1) @ [hd (seg rs ?k)]) False])
      = layout (butlast rs)"
  proof (rule layout_eqI)
    have km: "nover (length (butlast rs)) = m" using k m by simp
    show "length (take ?k ((layout rs)[?k - 1 := mk_bkt (seg rs (?k - 1) @ [hd (seg rs ?k)]) False])) =
        Suc (nover (length (butlast rs)))" unfolding km using m by simp
    fix j assume "j \<le> nover (length (butlast rs))"
    then consider "j < m" | "j = m" unfolding km by linarith
    then show "take ?k ((layout rs)[?k - 1 := mk_bkt (seg rs (?k - 1) @ [hd (seg rs ?k)]) False]) ! j =
        mk_bkt (seg (butlast rs) j) (j < nover (length (butlast rs)))"
    proof cases
      case 1
      then have "take 5 (drop (5 * j) rs) = take 5 (drop (5 * j) (butlast rs))"
        unfolding bl by (simp add: drop_take min_def)
      then have "seg rs j = seg (butlast rs) j" using 1 m km by (simp add: seg_def del: length_butlast)
      then show ?thesis using 1 m unfolding km by (simp add: layout_nth)
    next
      case 2
      then have "seg (butlast rs) j = drop (5 * m) (butlast rs)" using km by (simp add: seg_def del: length_butlast)
      then show ?thesis using 2 m s unfolding km by simp
    qed
  qed
qed

lemma chain_remove_layout:
  assumes "w \<le> nover (length rs)" "i < length (seg rs w)"
  shows "chain_remove_at (layout rs) w i =
    (layout (swap_remove rs (5 * w + i)),
     nover (length rs - 1) \<noteq> nover (length rs),
     chained_of (length rs - 1) - chained_of (length rs))"
proof -
  let ?k = "nover (length rs)" and ?p = "5 * w + i"
  let ?rs = "rs[5 * w + i := last rs]"
  let ?t = "seg ?rs ?k" and ?tu = "length (seg rs ?k) - 1"
  have p: "?p < length rs" using assms by (rule pos_bound)
  then have ne: "rs \<noteq> []" "?rs \<noteq> []" by auto
  note last = tail_last [OF ne(1)] and last' = tail_last [OF ne(2), unfolded length_list_update]
  have used: "bkt_used (layout rs ! ?k) = length (seg rs ?k)"
    by (simp add: layout_nth length_seg_le)
  have len: "length ?t = length (seg rs ?k)" by (simp add: seg_def)
  have fill: "(if ?k \<noteq> w \<or> ?tu \<noteq> i
      then (layout rs)[w := (layout rs ! w)\<lparr>slots := (slots (layout rs ! w))[i := slots (layout rs ! ?k) ! ?tu],
             tags := (tags (layout rs ! w))[i := tags (layout rs ! ?k) ! ?tu]\<rparr>]
      else layout rs) = layout ?rs"
  proof (cases "?k \<noteq> w \<or> ?tu \<noteq> i")
    case True
    then show ?thesis using layout_replace [OF assms, of "last rs"] last(3,4) by simp
  next
    case False
    then have "rs ! ?p = last rs"
      using nth_seg [OF assms] last(1,2) by (metis last_conv_nth)
    then show ?thesis using False by (metis list_update_id)
  qed
  have drop_last: "bkt_set_used ((layout ?rs ! ?k)\<lparr>slots := (slots (layout ?rs ! ?k))[?tu := None],
      tags := (tags (layout ?rs ! ?k))[?tu := 0]\<rparr>) ?tu = mk_bkt (butlast ?t) False"
    using mk_bkt_butlast [of ?t False] last'(1) len length_seg_le [of ?rs ?k]
    by (simp add: layout_nth del: mk_bkt_sel)
  show ?thesis
  proof (cases "?k = 0 \<or> ?tu \<noteq> 1")
    case True
    then have c: "nover (length ?rs) = 0 \<or> length (seg ?rs (nover (length ?rs))) \<noteq> 2"
      using len by auto
    show ?thesis
      unfolding chain_remove_at_def chain_tail_layout prod.case Let_def used fill drop_last
      using True layout_butlast_keep [OF ne(2) c] by (simp add: swap_remove_def)
  next
    case False
    then have c: "0 < nover (length ?rs)" "length (seg ?rs (nover (length ?rs))) = 2"
      using len by auto
    then obtain x y where xy: "?t = [x, y]" by (auto simp: length_Suc_conv numeral_2_eq_2)
    let ?ch = "(layout ?rs)[?k := mk_bkt (butlast ?t) False]"
    have prev: "?ch ! (?k - 1) = mk_bkt (seg ?rs (?k - 1)) True"
      using False by (auto simp: layout_nth nth_list_update)
    have five: "length (seg ?rs (?k - 1)) = 5"
      using False by (simp add: length_seg)
    have tl: "tags (?ch ! ?k) ! 0 = tag_of (r_hash x)" "slots (?ch ! ?k) ! 0 = Some x"
      using xy by simp_all
    have fold: "bkt_set_used ((?ch ! (?k - 1))\<lparr>tags := (tags (?ch ! (?k - 1)))[PCACHE_SLOTS - 1 := tags (?ch ! ?k) ! 0],
        slots := (slots (?ch ! (?k - 1)))[PCACHE_SLOTS - 1 := slots (?ch ! ?k) ! 0],
        meta := meta (?ch ! (?k - 1)) AND NOT PCACHE_BKT_LINK\<rparr>) PCACHE_SLOTS =
        mk_bkt (seg ?rs (?k - 1) @ [hd ?t]) False"
      using mk_bkt_fold [OF five, of x] xy unfolding prev tl by (simp add: PCACHE_SLOTS_def del: mk_bkt_sel)
    have cut: "take ?k (?ch[?k - 1 := b]) = take ?k ((layout ?rs)[?k - 1 := b])" for b
      by (simp add: take_update_swap list_update_beyond)
    show ?thesis
      unfolding chain_remove_at_def chain_tail_layout prod.case Let_def used fill drop_last fold cut
      using False layout_butlast_fold [OF c] by (auto simp: swap_remove_def)
  qed
qed

end
