(* ===== verification/Htable.thy ===== *)
theory Htable
  imports Chain Keyhash Lamport
begin

text \<open>
  The hash table, \<open>src/src/core/pcache_htable.c\<close> with the overflow pool of
  \<open>src/src/core/pcache_opool.c\<close>: routing by linear hashing, and the operations on one key.
  Every operation runs under its home bucket's lock and is one step here; the
  seqlock window of lock-free readers, the owner bits, the re-route retry and a
  pool bucket taken but not needed exist only between concurrent threads.
  The arena is the environment: \<open>e_cell\<close> gives the size of the cell carved for a
  record of a given size, or refuses; \<open>e_carve\<close> says whether a region for the pool
  can be carved; \<open>e_now\<close> is the clock \<open>get_ticks()\<close>.  The per-thread stat lines are
  their sum.
\<close>

section \<open>State\<close>

record opool =
  op_free :: nat
  op_in_use :: nat
  op_carved :: nat
  op_nregions :: nat

record htab =
  route :: u64
  nbuckets :: nat
  chains :: "bkt list list"
  hints :: "u32 list"
  chained :: int
  pool :: opool
  st_hits :: nat
  st_misses :: nat
  st_stores :: nat
  st_immortal :: nat
  st_removes :: nat
  st_created :: nat
  st_destroyed :: nat
  st_expired :: nat

record env =
  e_now :: u32
  e_cell :: "nat \<Rightarrow> nat option"
  e_carve :: bool

text \<open>What the operations share beside the table: the clock, the thread's last versions, the
  two counters of a full arena.\<close>

record sys =
  clk :: lclock
  last_ver :: u64
  last_del_ver :: u64
  nomem_inplace :: nat
  nomem_dropped :: nat

definition PCACHE_OPOOL_PER :: nat where "PCACHE_OPOOL_PER = 4096"
definition PCACHE_REC_HDR :: nat where "PCACHE_REC_HDR = 28"
definition PCACHE_CELL_MAX :: nat where "PCACHE_CELL_MAX = 262080"
definition PCACHE_MAX_SIZE_LOG2 :: nat where "PCACHE_MAX_SIZE_LOG2 = 24"
definition PCACHE_E_OLDER :: int where "PCACHE_E_OLDER = -4"
definition PCACHE_E_TOOSMALL :: int where "PCACHE_E_TOOSMALL = -3"
definition PCACHE_EXP_PRESERVE :: u32 where "PCACHE_EXP_PRESERVE = 0xFFFFFFFF"
definition PCACHE_F_INT :: u8 where "PCACHE_F_INT = 0x01"
definition PCACHE_F_PASSIVE :: u8 where "PCACHE_F_PASSIVE = 0x02"
definition PCACHE_F_TYPES :: u8 where "PCACHE_F_TYPES = 0x3C"
definition PCACHE_F_SHORTENED :: u8 where "PCACHE_F_SHORTENED = 0x80"
definition PCACHE_F_CARRY :: u8 where "PCACHE_F_CARRY = PCACHE_F_TYPES OR PCACHE_F_SHORTENED"

definition rec_size :: "bytes \<Rightarrow> bytes \<Rightarrow> nat" where
  "rec_size key val = PCACHE_REC_HDR + length key + length val"

section \<open>The overflow pool\<close>

definition pcache_opool_init :: opool where
  "pcache_opool_init = \<lparr>op_free = 0, op_in_use = 0, op_carved = 0, op_nregions = 0\<rparr>"

definition opool_carve :: "bool \<Rightarrow> opool \<Rightarrow> opool option" where
  "opool_carve room p =
    (if \<not> room then None
     else Some (p\<lparr>op_nregions := op_nregions p + 1, op_free := op_free p + PCACHE_OPOOL_PER,
                  op_carved := op_carved p + PCACHE_OPOOL_PER\<rparr>))"

text \<open>The bucket handed out is zeroed (\<open>zero_bkt\<close>).\<close>

definition pcache_opool_get :: "bool \<Rightarrow> opool \<Rightarrow> opool option" where
  "pcache_opool_get room p =
    (case (if op_free p = 0 then opool_carve room p else Some p) of
       None \<Rightarrow> None
     | Some p \<Rightarrow> Some (p\<lparr>op_free := op_free p - 1, op_in_use := op_in_use p + 1\<rparr>))"

definition pcache_opool_put :: "opool \<Rightarrow> opool" where
  "pcache_opool_put p = p\<lparr>op_free := op_free p + 1, op_in_use := op_in_use p - 1\<rparr>"

section \<open>Routing and hints\<close>

definition route_level :: "u64 \<Rightarrow> nat" where
  "route_level r = unat (drop_bit 32 r)"

definition route_split :: "u64 \<Rightarrow> u32" where
  "route_split r = ucast r"

definition route_idx :: "u64 \<Rightarrow> u32 \<Rightarrow> u32" where
  "route_idx r h =
    (let level = route_level r; split = route_split r;
         idx = h AND (push_bit level 1 - 1)
     in if idx < split then h AND (push_bit (level + 1) 1 - 1) else idx)"

definition key_idx :: "htab \<Rightarrow> bytes \<Rightarrow> nat" where
  "key_idx ht key = unat (route_idx (route ht) (pcache_key_hash key))"

definition hint_update :: "nat \<Rightarrow> u32 \<Rightarrow> htab \<Rightarrow> htab" where
  "hint_update idx ex ht =
    (if ex \<noteq> 0 \<and> (hints ht ! idx = 0 \<or> ex < hints ht ! idx)
     then ht\<lparr>hints := (hints ht)[idx := ex]\<rparr> else ht)"

definition put_chain :: "nat \<Rightarrow> bkt list \<Rightarrow> htab \<Rightarrow> htab" where
  "put_chain idx ch ht = ht\<lparr>chains := (chains ht)[idx := ch]\<rparr>"

section \<open>Versions and flags\<close>

definition shortened_fl :: "u32 \<Rightarrow> hrec \<Rightarrow> u32 \<Rightarrow> u8" where
  "shortened_fl now old ex =
    (let oe = r_expires old in
     if oe \<noteq> 0 \<and> oe \<le> now then 0
     else if r_flags old AND PCACHE_F_SHORTENED \<noteq> 0 then PCACHE_F_SHORTENED
     else if ex \<noteq> 0 \<and> (oe = 0 \<or> ex < oe) then PCACHE_F_SHORTENED else 0)"

definition ver_local :: "hrec option \<Rightarrow> sys \<Rightarrow> sys \<times> u64" where
  "ver_local old s =
    (case pc_lamport_tick (clk s) of (c, v) \<Rightarrow>
       (s\<lparr>clk := c\<rparr>,
        case old of None \<Rightarrow> v | Some r \<Rightarrow> if v \<le> r_ver r then r_ver r + 1 else v))"

section \<open>Store\<close>

definition store_build :: "env \<Rightarrow> bytes \<Rightarrow> bytes \<Rightarrow> u32 \<Rightarrow> u8 \<Rightarrow> u64 \<Rightarrow> bool \<Rightarrow> bool \<Rightarrow> u32 \<Rightarrow>
    sys \<Rightarrow> hrec option \<times> sys" where
  "store_build e key val ex fl inver use_ver keep_wt inwtick s =
    (case e_cell e (rec_size key val) of
       None \<Rightarrow> (None, s)
     | Some cell \<Rightarrow>
         (Some \<lparr>r_flags = fl, r_key = key, r_val = val, r_expires = ex,
                r_hash = pcache_key_hash key, r_ver = (if use_ver then inver else 0),
                r_wtick = (if keep_wt then inwtick else e_now e), r_cell = cell\<rparr>,
          if use_ver then s\<lparr>last_ver := inver\<rparr> else s))"

definition count_store :: "u32 \<Rightarrow> bool \<Rightarrow> htab \<Rightarrow> htab" where
  "count_store ex inserted ht =
    (let ht = ht\<lparr>st_stores := st_stores ht + 1\<rparr>;
         ht = (if ex = 0 then ht\<lparr>st_immortal := st_immortal ht + 1\<rparr> else ht)
     in if inserted then ht\<lparr>st_created := st_created ht + 1\<rparr> else ht)"

definition note_inplace :: "hrec option \<Rightarrow> sys \<Rightarrow> sys" where
  "note_inplace nr s = (if nr = None then s\<lparr>nomem_inplace := nomem_inplace s + 1\<rparr> else s)"

text \<open>The key is in the chain, in slot \<open>i\<close> of bucket \<open>w\<close>.\<close>

definition store_over :: "env \<Rightarrow> bytes \<Rightarrow> bytes \<Rightarrow> u32 \<Rightarrow> u8 \<Rightarrow> u64 \<Rightarrow> bool \<Rightarrow> bool \<Rightarrow> u32 \<Rightarrow>
    hrec option \<Rightarrow> nat \<Rightarrow> nat \<Rightarrow> nat \<Rightarrow> hrec \<Rightarrow> sys \<Rightarrow> htab \<Rightarrow> int \<times> sys \<times> htab" where
  "store_over e key val ex fl inver use_ver keep_wt inwtick nr idx w i old s ht =
    (let install = (\<lambda>r. count_store ex False (hint_update idx ex
           (put_chain idx (chain_set (chains ht ! idx) w i r) ht)))
     in
     if use_ver \<and> r_ver old \<ge> inver then (PCACHE_E_OLDER, s, ht)
     else if length (r_val old) = length val \<and> val_eq (r_val old) val (length val) then
       (case (if use_ver then (s, inver) else ver_local (Some old) s) of (s, v) \<Rightarrow>
         let r = old\<lparr>r_expires := ex, r_wtick := e_now e,
                     r_flags := fl OR shortened_fl (e_now e) old ex, r_ver := v\<rparr>
         in (0, note_inplace nr (s\<lparr>last_ver := v\<rparr>), install r))
     else if rec_size key val \<le> r_cell old then
       (case (if use_ver then (s, inver) else ver_local (Some old) s) of (s, v) \<Rightarrow>
         let r = old\<lparr>r_flags := fl OR shortened_fl (e_now e) old ex, r_val := val,
                     r_expires := ex, r_wtick := (if keep_wt then inwtick else e_now e),
                     r_ver := v\<rparr>
         in (0, note_inplace nr (s\<lparr>last_ver := v\<rparr>), install r))
     else case nr of
       None \<Rightarrow> (-2, s, ht)
     | Some nr \<Rightarrow>
         let nr = nr\<lparr>r_flags := r_flags nr OR shortened_fl (e_now e) old ex\<rparr> in
         if use_ver then (0, s, install nr)
         else (case ver_local (Some old) s of (s, v) \<Rightarrow>
           (0, s\<lparr>last_ver := v\<rparr>, install (nr\<lparr>r_ver := v\<rparr>))))"

text \<open>The key is nowhere in the chain: append, with a bucket of the pool when the tail is full.\<close>

definition store_new :: "env \<Rightarrow> u32 \<Rightarrow> bool \<Rightarrow> hrec option \<Rightarrow> nat \<Rightarrow> sys \<Rightarrow> htab \<Rightarrow>
    int \<times> sys \<times> htab" where
  "store_new e ex use_ver nr idx s ht =
    (case nr of None \<Rightarrow> (-2, s, ht)
     | Some nr \<Rightarrow>
       (case chain_tail (chains ht ! idx) of (t, n) \<Rightarrow>
         (case (if bkt_used (chains ht ! idx ! t) = PCACHE_SLOTS
               then pcache_opool_get (e_carve e) (pool ht) else Some (pool ht)) of
           None \<Rightarrow> (-2, s, ht)
         | Some p \<Rightarrow>
             (case (if use_ver then (s, nr)
                    else (case ver_local None s of (s, v) \<Rightarrow> (s\<lparr>last_ver := v\<rparr>, nr\<lparr>r_ver := v\<rparr>)))
              of (s, nr) \<Rightarrow>
                let ch = fst (chain_put (chains ht ! idx) nr (tag_of (r_hash nr)) zero_bkt);
                    ht = ht\<lparr>pool := p\<rparr>;
                    ht = hint_update idx ex (put_chain idx ch ht);
                    ht = (if n \<ge> PCACHE_SLOTS
                          then ht\<lparr>chained := chained ht + (chained_of (n + 1) - chained_of n)\<rparr>
                          else ht)
                in (0, s, count_store ex True ht)))))"

text \<open>\<open>store_body\<close> past the drain hand-over.\<close>

definition store_here :: "env \<Rightarrow> bytes \<Rightarrow> bytes \<Rightarrow> u32 \<Rightarrow> u8 \<Rightarrow> u64 \<Rightarrow> bool \<Rightarrow> bool \<Rightarrow> u32 \<Rightarrow>
    sys \<Rightarrow> htab \<Rightarrow> int \<times> sys \<times> htab" where
  "store_here e key val ex fl inver use_ver keep_wt inwtick s ht =
    (if length key > 0xFFFF \<or> rec_size key val > PCACHE_CELL_MAX then (-1, s, ht)
     else
       let s = (if use_ver then s\<lparr>clk := pc_lamport_observe inver (clk s)\<rparr> else s);
           hash = pcache_key_hash key; tag = tag_of hash
       in case store_build e key val ex fl inver use_ver keep_wt inwtick s of (nr, s) \<Rightarrow>
         let idx = key_idx ht key in
         (case chain_find (chains ht ! idx) key hash tag of
           Some (w, i) \<Rightarrow>
             store_over e key val ex fl inver use_ver keep_wt inwtick nr idx w i
               (the (slots (chains ht ! idx ! w) ! i)) s ht
         | None \<Rightarrow> store_new e ex use_ver nr idx s ht))"

section \<open>Remove\<close>

definition remove_impl :: "bytes \<Rightarrow> u64 \<Rightarrow> bool \<Rightarrow> sys \<Rightarrow> htab \<Rightarrow> int \<times> sys \<times> htab" where
  "remove_impl key below dropping s ht =
    (let hash = pcache_key_hash key; idx = key_idx ht key; ch = chains ht ! idx;
         found = (case chain_find ch key hash (tag_of hash) of
                    None \<Rightarrow> None
                  | Some (w, i) \<Rightarrow>
                      let r = the (slots (ch ! w) ! i) in
                      if below \<noteq> 0 \<and> r_ver r \<ge> below then None else Some (w, i, r));
         dead = map_option (\<lambda>(w, i, r). r) found;
         ht' = (case found of None \<Rightarrow> ht
                | Some (w, i, r) \<Rightarrow>
                    (case chain_remove_at ch w i of (ch', gone, dc) \<Rightarrow>
                      let ht = put_chain idx ch' ht;
                          ht = (if dc \<noteq> 0 then ht\<lparr>chained := chained ht + dc\<rparr> else ht);
                          ht = (if dropping then ht else ht\<lparr>st_removes := st_removes ht + 1\<rparr>);
                          ht = ht\<lparr>st_destroyed := st_destroyed ht + 1\<rparr>
                      in if gone then ht\<lparr>pool := pcache_opool_put (pool ht)\<rparr> else ht));
         s' = (if dropping then s
               else case ver_local dead s of (s, v) \<Rightarrow>
                 s\<lparr>last_del_ver := v, clk := pc_lamport_publish v (clk s)\<rparr>)
     in (if dead = None then 0 else 1, s', ht'))"

definition pcache_ht_remove :: "bytes \<Rightarrow> sys \<Rightarrow> htab \<Rightarrow> int \<times> sys \<times> htab" where
  "pcache_ht_remove key s ht = remove_impl key 0 False s ht"

definition pcache_ht_remove_ver :: "bytes \<Rightarrow> sys \<Rightarrow> htab \<Rightarrow> int \<times> u64 \<times> sys \<times> htab" where
  "pcache_ht_remove_ver key s ht =
    (case remove_impl key 0 False s ht of (rc, s, ht) \<Rightarrow> (rc, last_del_ver s, s, ht))"

definition pcache_ht_remove_below :: "bytes \<Rightarrow> u64 \<Rightarrow> sys \<Rightarrow> htab \<Rightarrow> int \<times> sys \<times> htab" where
  "pcache_ht_remove_below key below s ht =
    (if below \<noteq> 0 then remove_impl key below True s ht else (0, s, ht))"

definition pcache_ht_remove_upto :: "bytes \<Rightarrow> u64 \<Rightarrow> sys \<Rightarrow> htab \<Rightarrow> int \<times> sys \<times> htab" where
  "pcache_ht_remove_upto key ver s ht =
    (if ver \<noteq> 0 then remove_impl key (ver + 1) False s ht else (0, s, ht))"

definition pcache_ht_drop_older :: "bytes \<Rightarrow> u64 \<Rightarrow> sys \<Rightarrow> htab \<Rightarrow> int \<times> sys \<times> htab" where
  "pcache_ht_drop_older key ver s ht =
    (if ver = 0 then (0, s, ht)
     else case remove_impl key ver True s ht of (r, s, ht) \<Rightarrow>
       (r, if r \<noteq> 0 then s\<lparr>nomem_dropped := nomem_dropped s + 1\<rparr> else s, ht))"

section \<open>Reads\<close>

text \<open>One 8-byte load of the six tags and \<open>meta\<close>, and the byte-parallel comparison: bit
  \<open>8 * i + 7\<close> of the result marks slot \<open>i\<close> as a candidate.\<close>

definition tag_word :: "bkt \<Rightarrow> u64" where
  "tag_word b = pc_g64 (tags b @ le16 (meta b)) 0"

definition tag_matches :: "bkt \<Rightarrow> u8 \<Rightarrow> u64" where
  "tag_matches b tag =
    (let x = tag_word b XOR (0x0101010101010101 * ucast tag)
     in (x - 0x0101010101010101) AND NOT x AND 0x0000808080808080)"

text \<open>What a lookup copies out: the value, its true length, expiry, flags, version.\<close>

record hit =
  h_val :: bytes
  h_vlen :: nat
  h_exp :: u32
  h_fl :: u8
  h_ver :: u64

definition copy_out :: "hrec \<Rightarrow> hit" where
  "copy_out r =
    (let avail = r_cell r - PCACHE_REC_HDR - length (r_key r);
         vlen = min (length (r_val r)) avail
     in \<lparr>h_val = take vlen (r_val r), h_vlen = vlen, h_exp = r_expires r, h_fl = r_flags r,
         h_ver = r_ver r\<rparr>)"

definition scan_candidate :: "bytes \<Rightarrow> u32 \<Rightarrow> hrec \<Rightarrow> bool" where
  "scan_candidate key hash r \<longleftrightarrow>
     r_hash r = hash \<and> length (r_key r) = length key \<and>
     PCACHE_REC_HDR + length (r_key r) \<le> r_cell r \<and> r_key r = key"

fun scan_slots :: "bkt \<Rightarrow> bytes \<Rightarrow> u32 \<Rightarrow> nat list \<Rightarrow> hit option" where
  "scan_slots b key hash [] = None"
| "scan_slots b key hash (i # is) =
     (case slots b ! i of None \<Rightarrow> scan_slots b key hash is
      | Some r \<Rightarrow> if scan_candidate key hash r then Some (copy_out r)
                  else scan_slots b key hash is)"

text \<open>The loop \<open>for (m = tag_matches(b, tag); m; m &= m - 1)\<close> visits the marked slots in
  ascending order.\<close>

definition scan_bucket :: "bkt \<Rightarrow> bytes \<Rightarrow> u32 \<Rightarrow> u8 \<Rightarrow> hit option" where
  "scan_bucket b key hash tag =
    (let m = tag_matches b tag in
     scan_slots b key hash (filter (\<lambda>i. bit m (8 * i + 7)) [0 ..< 6]))"

fun scan_chain :: "bkt list \<Rightarrow> bytes \<Rightarrow> u32 \<Rightarrow> u8 \<Rightarrow> hit option" where
  "scan_chain [] key hash tag = None"
| "scan_chain (b # bs) key hash tag =
     (case scan_bucket b key hash tag of
        Some h \<Rightarrow> Some h
      | None \<Rightarrow> if bkt_linked b then scan_chain bs key hash tag else None)"

datatype fetched =
    Miss
  | Hit hit
  | Counter hit u64
  | TooSmall hit

text \<open>The read path with a destination of \<open>cap\<close> bytes (\<open>None\<close> for the probe, which
  copies nothing).  The hit and miss counters move with it.\<close>

definition fetch_core :: "u32 \<Rightarrow> bytes \<Rightarrow> nat option \<Rightarrow> htab \<Rightarrow> fetched \<times> htab" where
  "fetch_core now key cap ht =
    (let hash = pcache_key_hash key in
     case scan_chain (chains ht ! key_idx ht key) key hash (tag_of hash) of
       None \<Rightarrow> (Miss, ht\<lparr>st_misses := st_misses ht + 1\<rparr>)
     | Some h \<Rightarrow>
         if h_exp h \<noteq> 0 \<and> h_exp h \<le> now then (Miss, ht\<lparr>st_misses := st_misses ht + 1\<rparr>)
         else
           let ht = ht\<lparr>st_hits := st_hits ht + 1\<rparr> in
           if (case cap of None \<Rightarrow> False | Some n \<Rightarrow> h_vlen h > n) then (TooSmall h, ht)
           else if h_fl h AND PCACHE_F_INT \<noteq> 0 \<and> h_vlen h = 8 then
             (Counter h (if cap = None then 0 else pc_g64 (h_val h) 0), ht)
           else (Hit h, ht))"

definition getver_one :: "u32 \<Rightarrow> bytes \<Rightarrow> htab \<Rightarrow> (u64 \<times> u32) option" where
  "getver_one now key ht =
    (let hash = pcache_key_hash key; ch = chains ht ! key_idx ht key in
     case chain_find ch key hash (tag_of hash) of
       None \<Rightarrow> None
     | Some (w, i) \<Rightarrow>
         let r = the (slots (ch ! w) ! i) in
         if r_expires r = 0 \<or> r_expires r > now then Some (r_ver r, r_wtick r) else None)"

section \<open>Changes to a record in place\<close>

definition setver_here :: "bytes \<Rightarrow> u64 \<Rightarrow> htab \<Rightarrow> int \<times> htab" where
  "setver_here key ver ht =
    (let hash = pcache_key_hash key; idx = key_idx ht key; ch = chains ht ! idx in
     case chain_find ch key hash (tag_of hash) of
       None \<Rightarrow> (0, ht)
     | Some (w, i) \<Rightarrow>
         (1, put_chain idx (chain_set ch w i ((the (slots (ch ! w) ! i))\<lparr>r_ver := ver\<rparr>)) ht))"

definition touch_here :: "env \<Rightarrow> bytes \<Rightarrow> u32 \<Rightarrow> bool \<Rightarrow> sys \<Rightarrow> htab \<Rightarrow> int \<times> bool \<times> sys \<times> htab" where
  "touch_here e key ex adopt s ht =
    (let hash = pcache_key_hash key; idx = key_idx ht key; ch = chains ht ! idx in
     case chain_find ch key hash (tag_of hash) of
       None \<Rightarrow> (0, False, s, ht)
     | Some (w, i) \<Rightarrow>
         let r = the (slots (ch ! w) ! i);
             r = r\<lparr>r_flags := r_flags r OR shortened_fl (e_now e) r ex\<rparr>;
             r = r\<lparr>r_expires := ex\<rparr>;
             was = (adopt \<and> r_flags r AND PCACHE_F_PASSIVE \<noteq> 0);
             r = (if was then r\<lparr>r_flags := r_flags r AND NOT PCACHE_F_PASSIVE\<rparr> else r);
             r = r\<lparr>r_wtick := e_now e\<rparr>
         in case ver_local (Some r) s of (s, v) \<Rightarrow>
           (1, was, s\<lparr>last_ver := v\<rparr>,
            hint_update idx ex (put_chain idx (chain_set ch w i (r\<lparr>r_ver := v\<rparr>)) ht)))"

text \<open>The strict decimal parse of a string record; the accumulator is a 64-bit word.\<close>

definition is_digit :: "u8 \<Rightarrow> bool" where
  "is_digit c \<longleftrightarrow> 48 \<le> c \<and> c \<le> 57"

fun str2ll_digits :: "bytes \<Rightarrow> u64 \<Rightarrow> u64 option" where
  "str2ll_digits [] v = Some v"
| "str2ll_digits (c # cs) v =
     (if \<not> is_digit c then None else str2ll_digits cs (v * 10 + ucast (c - 48)))"

definition pcache_str2ll :: "bytes \<Rightarrow> u64 option" where
  "pcache_str2ll p =
    (case p of [] \<Rightarrow> None
     | c # cs \<Rightarrow>
         if c = 45 \<or> c = 43 then
           (if cs = [] then None
            else map_option (\<lambda>v. if c = 45 then - v else v) (str2ll_digits cs 0))
         else str2ll_digits p 0)"

text \<open>An absent key: the prebuilt counter is appended.\<close>

definition add_new :: "env \<Rightarrow> u64 \<Rightarrow> u32 \<Rightarrow> hrec \<Rightarrow> nat \<Rightarrow> sys \<Rightarrow> htab \<Rightarrow>
    (u64 \<times> u32) option \<times> sys \<times> htab" where
  "add_new e delta ex nr idx s ht =
    (case chain_tail (chains ht ! idx) of (t, n) \<Rightarrow>
       (case (if bkt_used (chains ht ! idx ! t) = PCACHE_SLOTS
             then pcache_opool_get (e_carve e) (pool ht) else Some (pool ht)) of
         None \<Rightarrow> (None, s, ht)
       | Some p \<Rightarrow>
           (case ver_local None s of (s, v) \<Rightarrow>
              let nr = nr\<lparr>r_ver := v\<rparr>;
                  ch = fst (chain_put (chains ht ! idx) nr (tag_of (r_hash nr)) zero_bkt);
                  ht = ht\<lparr>pool := p\<rparr>;
                  ht = hint_update idx ex (put_chain idx ch ht);
                  ht = (if n \<ge> PCACHE_SLOTS
                        then ht\<lparr>chained := chained ht + (chained_of (n + 1) - chained_of n)\<rparr>
                        else ht)
              in (Some (delta, ex), s\<lparr>last_ver := v\<rparr>, count_store ex True ht))))"

text \<open>A present key: accumulate in a native counter, or convert a numeric string.\<close>

definition add_over :: "env \<Rightarrow> u64 \<Rightarrow> u32 \<Rightarrow> bool \<Rightarrow> hrec \<Rightarrow> nat \<Rightarrow> nat \<Rightarrow> nat \<Rightarrow> hrec \<Rightarrow> sys \<Rightarrow> htab \<Rightarrow>
    (u64 \<times> u32) option \<times> sys \<times> htab" where
  "add_over e delta ex keep nr idx w i r s ht =
    (let install = (\<lambda>x eff. count_store eff False (hint_update idx eff
           (put_chain idx (chain_set (chains ht ! idx) w i x) ht)))
     in
     if r_flags r AND PCACHE_F_INT \<noteq> 0 then
       let cur = pc_g64 (r_val r) 0 + delta;
           x = r\<lparr>r_val := blit (r_val r) 0 (le64 cur)\<rparr>;
           x = (if keep then x
                else x\<lparr>r_flags := r_flags x OR shortened_fl (e_now e) x ex, r_expires := ex\<rparr>);
           eff = r_expires x
       in (case ver_local (Some r) s of (s, v) \<Rightarrow>
            let x = x\<lparr>r_wtick := e_now e, r_ver := v,
                      r_flags := r_flags x AND NOT PCACHE_F_PASSIVE\<rparr>
            in (Some (cur, eff), s\<lparr>last_ver := v\<rparr>, install x eff))
     else
       case pcache_str2ll (r_val r) of
         None \<Rightarrow> (None, s, ht)
       | Some n \<Rightarrow>
           let cur = n + delta;
               x = nr\<lparr>r_val := le64 cur\<rparr>;
               x = (if keep then x\<lparr>r_expires := r_expires r\<rparr> else x);
               x = x\<lparr>r_flags := r_flags x OR shortened_fl (e_now e) r (r_expires x)\<rparr>;
               eff = r_expires x
           in (case ver_local (Some r) s of (s, v) \<Rightarrow>
                (Some (cur, eff), s\<lparr>last_ver := v\<rparr>, install (x\<lparr>r_ver := v\<rparr>) eff)))"

text \<open>\<open>add_ex_body\<close> past the drain hand-over; the result is the new value and the
  effective expiry, or \<open>None\<close> for \<open>-1\<close>.\<close>

definition add_here :: "env \<Rightarrow> bytes \<Rightarrow> u64 \<Rightarrow> u32 \<Rightarrow> sys \<Rightarrow> htab \<Rightarrow>
    (u64 \<times> u32) option \<times> sys \<times> htab" where
  "add_here e key delta ex s ht =
    (let keep = (ex = PCACHE_EXP_PRESERVE);
         ex = (if keep then 0 else ex)
     in if length key > 0xFFFF then (None, s, ht)
        else
          let hash = pcache_key_hash key in
          case e_cell e (PCACHE_REC_HDR + length key + 8) of
            None \<Rightarrow> (None, s, ht)
          | Some cell \<Rightarrow>
              let nr = \<lparr>r_flags = PCACHE_F_INT, r_key = key, r_val = le64 delta, r_expires = ex,
                        r_hash = hash, r_ver = 0, r_wtick = e_now e, r_cell = cell\<rparr>;
                  idx = key_idx ht key; ch = chains ht ! idx
              in (case chain_find ch key hash (tag_of hash) of
                   Some (w, i) \<Rightarrow> add_over e delta ex keep nr idx w i (the (slots (ch ! w) ! i)) s ht
                 | None \<Rightarrow> add_new e delta ex nr idx s ht))"

section \<open>The table as a map\<close>

fun chain_recs :: "bkt list \<Rightarrow> hrec list" where
  "chain_recs [] = []"
| "chain_recs (b # bs) =
     map the (take (bkt_used b) (slots b)) @ (if bkt_linked b then chain_recs bs else [])"

definition kmap :: "hrec list \<Rightarrow> bytes \<Rightarrow> hrec option" where
  "kmap rs key = find (\<lambda>r. r_key r = key) rs"

definition ht_lookup :: "htab \<Rightarrow> bytes \<Rightarrow> hrec option" where
  "ht_lookup ht key = kmap (chain_recs (chains ht ! key_idx ht key)) key"

section \<open>The invariant\<close>

definition hrec_ok :: "hrec \<Rightarrow> bool" where
  "hrec_ok r \<longleftrightarrow> r_hash r = pcache_key_hash (r_key r) \<and> length (r_key r) \<le> 0xFFFF \<and>
     rec_size (r_key r) (r_val r) \<le> r_cell r \<and> rec_size (r_key r) (r_val r) \<le> PCACHE_CELL_MAX"

definition route_ok :: "u64 \<Rightarrow> nat \<Rightarrow> bool" where
  "route_ok r n \<longleftrightarrow> route_level r \<le> 24 \<and> unat (route_split r) < 2 ^ route_level r \<and>
     n = 2 ^ route_level r + unat (route_split r) \<and> n \<le> 2 ^ 24"

text \<open>The records of one home bucket: distinct keys, each routed here, and the expiry hint a
  lower bound of their expiries.\<close>

definition bucket_ok :: "u64 \<Rightarrow> u32 \<Rightarrow> nat \<Rightarrow> hrec list \<Rightarrow> bool" where
  "bucket_ok rt hint idx rs \<longleftrightarrow> distinct (map r_key rs) \<and>
     (\<forall>r \<in> set rs. hrec_ok r \<and> unat (route_idx rt (r_hash r)) = idx \<and>
        (r_expires r \<noteq> 0 \<longrightarrow> hint \<noteq> 0 \<and> hint \<le> r_expires r))"

definition pool_ok :: "opool \<Rightarrow> bool" where
  "pool_ok p \<longleftrightarrow> op_free p + op_in_use p = op_carved p \<and>
     op_carved p = PCACHE_OPOOL_PER * op_nregions p"

definition tot :: "(hrec list \<Rightarrow> int) \<Rightarrow> hrec list list \<Rightarrow> int" where
  "tot f R = sum_list (map f R)"

text \<open>\<open>R\<close> lists the records of every home bucket.\<close>

definition ht_rep :: "htab \<Rightarrow> hrec list list \<Rightarrow> bool" where
  "ht_rep ht R \<longleftrightarrow>
     route_ok (route ht) (nbuckets ht) \<and> length R = nbuckets ht \<and>
     chains ht = map layout R \<and> length (hints ht) = nbuckets ht \<and>
     (\<forall>idx < nbuckets ht. bucket_ok (route ht) (hints ht ! idx) idx (R ! idx)) \<and>
     chained ht = tot (\<lambda>rs. chained_of (length rs)) R \<and>
     pool_ok (pool ht) \<and> int (op_in_use (pool ht)) = tot (\<lambda>rs. int (nover (length rs))) R \<and>
     int (st_created ht) - int (st_destroyed ht) = tot (\<lambda>rs. int (length rs)) R"

definition ht_inv :: "htab \<Rightarrow> bool" where
  "ht_inv ht \<longleftrightarrow> (\<exists>R. ht_rep ht R)"

text \<open>What the table relies on from the arena: a cell is at least as large as what was asked
  for.\<close>

definition env_ok :: "env \<Rightarrow> bool" where
  "env_ok e \<longleftrightarrow> (\<forall>n c. e_cell e n = Some c \<longrightarrow> n \<le> c)"

end
