(* ===== verification/Htable_Inv.thy ===== *)
theory Htable_Inv
  imports Htable "HOL-Library.Multiset"
begin

text \<open>
  The invariant of the table under the single-key operations, and what they do to
  the map the table stands for.  Three changes cover them all: a record is
  replaced, appended or removed; each is a lemma over the list of records a
  chain lays out.
\<close>

section \<open>Keyed lists\<close>

lemma kmap_iff:
  "distinct (map r_key rs) \<Longrightarrow> kmap rs k = Some r \<longleftrightarrow> r \<in> set rs \<and> r_key r = k"
  unfolding kmap_def by (induction rs) auto

lemma kmap_None: "kmap rs k = None \<longleftrightarrow> (\<forall>r \<in> set rs. r_key r \<noteq> k)"
  by (auto simp: kmap_def find_None_iff)

lemma kmap_cong:
  assumes "distinct (map r_key rs)" "distinct (map r_key rs')" "set rs = set rs'"
  shows "kmap rs k = kmap rs' k"
proof (cases "kmap rs' k")
  case None
  then show ?thesis using assms(3) kmap_None by metis
next
  case (Some r)
  then have "kmap rs k = Some r"
    unfolding kmap_iff [OF assms(2)] kmap_iff [OF assms(1)] using assms(3) by simp
  with Some show ?thesis by simp
qed

lemma kmap_nth:
  "distinct (map r_key rs) \<Longrightarrow> p < length rs \<Longrightarrow> kmap rs (r_key (rs ! p)) = Some (rs ! p)"
  by (simp add: kmap_iff)

lemma distinct_keys_update:
  "\<lbrakk>distinct (map r_key rs); p < length rs; r_key r = r_key (rs ! p)\<rbrakk> \<Longrightarrow>
   distinct (map r_key (rs[p := r]))"
  by (metis list_update_id map_update)

lemma kmap_update:
  assumes "distinct (map r_key rs)" "p < length rs" "r_key r = r_key (rs ! p)"
  shows "kmap (rs[p := r]) = (kmap rs)(r_key r := Some r)"
proof
  fix k
  have d: "distinct (map r_key (rs[p := r]))" using assms by (rule distinct_keys_update)
  show "kmap (rs[p := r]) k = ((kmap rs)(r_key r := Some r)) k"
  proof (cases "k = r_key r")
    case True
    then show ?thesis using d assms(2) kmap_nth [of "rs[p := r]" p] by simp
  next
    case False
    show ?thesis
    proof (cases "kmap rs k")
      case None
      have "\<forall>x \<in> set (rs[p := r]). r_key x \<noteq> k"
        using None False set_update_subset_insert [of rs p r] by (auto simp: kmap_None)
      then show ?thesis using None False kmap_None [of "rs[p := r]" k] by simp
    next
      case (Some x)
      then obtain j where j: "j < length rs" "rs ! j = x" "r_key x = k"
        using assms(1) by (auto simp: kmap_iff in_set_conv_nth)
      then have "j \<noteq> p" using False assms(3) by auto
      then have "x \<in> set (rs[p := r])" using j by (metis length_list_update nth_list_update_neq nth_mem)
      then show ?thesis using Some False d j(3) by (simp add: kmap_iff)
    qed
  qed
qed

lemma kmap_append:
  assumes "\<forall>x \<in> set rs. r_key x \<noteq> r_key r"
  shows "kmap (rs @ [r]) = (kmap rs)(r_key r := Some r)"
proof
  fix k
  have "find P (rs @ [r]) = (case find P rs of None \<Rightarrow> if P r then Some r else None | Some x \<Rightarrow> Some x)" for P
    by (induction rs) auto
  then show "kmap (rs @ [r]) k = ((kmap rs)(r_key r := Some r)) k"
    using assms kmap_None [of rs "r_key r"] by (auto simp: kmap_def split: option.splits)
qed

lemma mset_swap_remove:
  assumes "p < length xs"
  shows "mset xs = add_mset (xs ! p) (mset (swap_remove xs p))"
proof (cases "p = length xs - 1")
  case True
  then have "xs[p := last xs] = xs" using assms by (metis last_conv_nth length_0_conv list_update_id not_less_zero)
  moreover have "mset xs = mset (butlast xs @ [last xs])" using assms by (metis append_butlast_last_id list.size(3) not_less_zero)
  moreover have "last xs = xs ! p" using True assms by (intro trans [OF last_conv_nth]) auto
  ultimately show ?thesis by (simp add: swap_remove_def)
next
  case False
  obtain ys y where xs: "xs = ys @ [y]" using assms by (metis list.size(3) not_less_zero rev_exhaust)
  with False assms have p: "p < length ys" by simp
  then have "mset ys = add_mset (ys ! p) (mset ys - {# ys ! p #})" by simp
  then show ?thesis
    using xs p by (simp add: swap_remove_def list_update_append mset_update nth_append)
qed

lemma swap_remove_facts:
  assumes "distinct (map r_key rs)" "p < length rs"
  shows "distinct (map r_key (swap_remove rs p))" "set (swap_remove rs p) = set rs - {rs ! p}"
    "kmap (swap_remove rs p) = (kmap rs)(r_key (rs ! p) := None)"
proof -
  have m: "mset rs = add_mset (rs ! p) (mset (swap_remove rs p))" using assms(2) by (rule mset_swap_remove)
  have "mset (map r_key rs) = add_mset (r_key (rs ! p)) (mset (map r_key (swap_remove rs p)))"
    using m by simp
  then have "distinct (r_key (rs ! p) # map r_key (swap_remove rs p))"
    using assms(1) by (metis mset.simps(2) mset_eq_imp_distinct_iff)
  then show d: "distinct (map r_key (swap_remove rs p))" by simp
  have nin: "r_key (rs ! p) \<notin> r_key ` set (swap_remove rs p)"
    using \<open>distinct (r_key (rs ! p) # map r_key (swap_remove rs p))\<close> by simp
  have "set rs = insert (rs ! p) (set (swap_remove rs p))"
    using m by (metis set_mset_add_mset_insert set_mset_mset)
  then show s: "set (swap_remove rs p) = set rs - {rs ! p}" using nin by auto
  show "kmap (swap_remove rs p) = (kmap rs)(r_key (rs ! p) := None)"
  proof
    fix k
    show "kmap (swap_remove rs p) k = ((kmap rs)(r_key (rs ! p) := None)) k"
    proof (cases "k = r_key (rs ! p)")
      case True
      then show ?thesis using nin by (simp add: kmap_None) (metis image_eqI)
    next
      case False
      then show ?thesis
        using s d assms(1) kmap_iff [of rs k] kmap_iff [of "swap_remove rs p" k]
        by (metis Diff_iff fun_upd_apply not_Some_eq singletonD)
    qed
  qed
qed

section \<open>Routing\<close>

lemma low_bits: "l < 32 \<Longrightarrow> unat (h AND (push_bit l 1 - 1) :: u32) = unat h mod 2 ^ l"
  using unat_and_mask [of h l] by (simp add: mask_eq_exp_minus_1)

lemma route_idx_unat:
  assumes "route_ok r n"
  shows "unat (route_idx r h) =
    (if unat h mod 2 ^ route_level r < unat (route_split r)
     then unat h mod 2 ^ (route_level r + 1) else unat h mod 2 ^ route_level r)"
proof -
  have l: "route_level r < 32" "route_level r + 1 < 32" using assms by (auto simp: route_ok_def)
  show ?thesis
    unfolding route_idx_def Let_def word_less_nat_alt low_bits [OF l(1)]
    using low_bits [OF l(1)] low_bits [OF l(2)] by simp
qed

lemma mod_double: "(x::nat) mod (2 * m) = x mod m \<or> x mod (2 * m) = x mod m + m"
proof -
  have "x mod (m * 2) = m * (x div m mod 2) + x mod m" by (rule mod_mult2_eq)
  moreover have "x div m mod 2 = 0 \<or> x div m mod 2 = 1" by auto
  ultimately show ?thesis by (auto simp: mult.commute)
qed

lemma route_idx_less:
  assumes "route_ok r n"
  shows "unat (route_idx r h) < n"
proof -
  let ?l = "route_level r" and ?s = "unat (route_split r)"
  have n: "n = 2 ^ ?l + ?s" using assms by (simp add: route_ok_def)
  have "unat h mod 2 ^ ?l < 2 ^ ?l" by simp
  then show ?thesis
    using mod_double [of "unat h" "2 ^ ?l"] unfolding route_idx_unat [OF assms] n power_add power_one_right
    by (auto simp: mult.commute simp del: mod_less_divisor)
qed

section \<open>Sums over the buckets\<close>

lemma tot_update:
  "i < length R \<Longrightarrow> tot f (R[i := x]) = tot f R + f x - f (R ! i)"
proof (induction R arbitrary: i)
  case (Cons a R)
  then show ?case by (cases i) (auto simp: tot_def)
qed (simp add: tot_def)

lemma tot_append [simp]: "tot f (R @ [x]) = tot f R + f x"
  by (simp add: tot_def)

lemma tot_replicate_Nil: "f [] = 0 \<Longrightarrow> tot f (replicate n []) = 0"
  by (simp add: tot_def map_replicate_const sum_list_replicate)

section \<open>Field updates\<close>

lemma put_chain_sel [simp]:
  "route (put_chain i c ht) = route ht" "nbuckets (put_chain i c ht) = nbuckets ht"
  "chains (put_chain i c ht) = (chains ht)[i := c]" "hints (put_chain i c ht) = hints ht"
  "chained (put_chain i c ht) = chained ht" "pool (put_chain i c ht) = pool ht"
  "st_created (put_chain i c ht) = st_created ht" "st_destroyed (put_chain i c ht) = st_destroyed ht"
  by (simp_all add: put_chain_def)

lemma hint_update_sel [simp]:
  "route (hint_update i x ht) = route ht" "nbuckets (hint_update i x ht) = nbuckets ht"
  "chains (hint_update i x ht) = chains ht" "length (hints (hint_update i x ht)) = length (hints ht)"
  "chained (hint_update i x ht) = chained ht" "pool (hint_update i x ht) = pool ht"
  "st_created (hint_update i x ht) = st_created ht" "st_destroyed (hint_update i x ht) = st_destroyed ht"
  by (simp_all add: hint_update_def)

lemma hint_update_other [simp]: "j \<noteq> i \<Longrightarrow> hints (hint_update i x ht) ! j = hints ht ! j"
  by (simp add: hint_update_def)

lemma hint_update_lower:
  assumes "i < length (hints ht)"
  shows "x \<noteq> 0 \<Longrightarrow> hints (hint_update i x ht) ! i \<noteq> 0 \<and> hints (hint_update i x ht) ! i \<le> x"
    "hints ht ! i \<noteq> 0 \<Longrightarrow> hints (hint_update i x ht) ! i \<noteq> 0 \<and> hints (hint_update i x ht) ! i \<le> hints ht ! i"
  using assms by (auto simp: hint_update_def)

lemma count_store_sel [simp]:
  "route (count_store x b ht) = route ht" "nbuckets (count_store x b ht) = nbuckets ht"
  "chains (count_store x b ht) = chains ht" "hints (count_store x b ht) = hints ht"
  "chained (count_store x b ht) = chained ht" "pool (count_store x b ht) = pool ht"
  "st_destroyed (count_store x b ht) = st_destroyed ht"
  "st_created (count_store x b ht) = st_created ht + (if b then 1 else 0)"
  by (simp_all add: count_store_def Let_def)

lemma key_idx_cong: "route ht' = route ht \<Longrightarrow> key_idx ht' key = key_idx ht key"
  by (simp add: key_idx_def)

section \<open>Changing one chain\<close>

lemma concat_segs:
  "5 * k \<le> length rs \<Longrightarrow> concat (map (\<lambda>j. take 5 (drop (5 * j) rs)) [0 ..< k]) = take (5 * k) rs"
proof (induction k)
  case (Suc k)
  have "take (5 * Suc k) rs = take (5 * k + 5) rs" by (simp add: add.commute)
  then show ?case using Suc by (simp only: take_add) simp
qed simp

lemma chain_recs_split:
  "\<lbrakk>\<forall>b \<in> set bs. bkt_linked b; \<not> bkt_linked t\<rbrakk> \<Longrightarrow>
   chain_recs (bs @ [t]) =
     concat (map (\<lambda>b. map the (take (bkt_used b) (slots b))) bs) @ map the (take (bkt_used t) (slots t))"
  by (induction bs) auto

lemma mk_bkt_recs: "length rs \<le> 6 \<Longrightarrow> map the (take (bkt_used (mk_bkt rs lk)) (slots (mk_bkt rs lk))) = rs"
  by (simp add: o_def)

lemma chain_recs_layout [simp]: "chain_recs (layout rs) = rs"
proof -
  let ?k = "nover (length rs)"
  note rg = nover_range [of "length rs"]
  have five: "map the (take (bkt_used (mk_bkt (take 5 (drop (5 * j) rs)) True))
      (slots (mk_bkt (take 5 (drop (5 * j) rs)) True))) = take 5 (drop (5 * j) rs)" for j
    by (rule mk_bkt_recs) simp
  have "chain_recs (layout rs) =
      concat (map (\<lambda>j. take 5 (drop (5 * j) rs)) [0 ..< ?k]) @ drop (5 * ?k) rs"
    unfolding layout_def using rg
    by (subst chain_recs_split) (auto simp: five o_def mk_bkt_recs simp del: mk_bkt_sel mk_bkt_used)
  also have "\<dots> = rs" using concat_segs [OF rg(1)] by simp
  finally show ?thesis .
qed

lemma rep_idx: "ht_rep ht R \<Longrightarrow> key_idx ht key < length R"
  using route_idx_less by (auto simp: ht_rep_def key_idx_def)

lemma rep_chain: "ht_rep ht R \<Longrightarrow> idx < length R \<Longrightarrow> chains ht ! idx = layout (R ! idx)"
  by (simp add: ht_rep_def)

lemma rep_bucket: "ht_rep ht R \<Longrightarrow> idx < length R \<Longrightarrow> bucket_ok (route ht) (hints ht ! idx) idx (R ! idx)"
  by (simp add: ht_rep_def)

lemma rep_lookup: "ht_rep ht R \<Longrightarrow> ht_lookup ht key = kmap (R ! key_idx ht key) key"
  by (simp add: ht_lookup_def rep_chain rep_idx)

lemma rep_change:
  assumes "ht_rep ht R" "idx < length R"
    "route ht' = route ht" "nbuckets ht' = nbuckets ht"
    "chains ht' = (chains ht)[idx := layout rs]"
    "length (hints ht') = length (hints ht)" "\<And>j. j \<noteq> idx \<Longrightarrow> hints ht' ! j = hints ht ! j"
    "bucket_ok (route ht) (hints ht' ! idx) idx rs"
    "chained ht' = chained ht + chained_of (length rs) - chained_of (length (R ! idx))"
    "pool_ok (pool ht')"
    "int (op_in_use (pool ht')) = int (op_in_use (pool ht)) + int (nover (length rs)) - int (nover (length (R ! idx)))"
    "int (st_created ht') - int (st_destroyed ht') =
       int (st_created ht) - int (st_destroyed ht) + int (length rs) - int (length (R ! idx))"
  shows "ht_rep ht' (R[idx := rs])"
proof -
  have "bucket_ok (route ht') (hints ht' ! j) j (R[idx := rs] ! j)" if "j < nbuckets ht'" for j
    using assms that by (cases "j = idx") (auto simp: ht_rep_def)
  then show ?thesis
    using assms by (simp add: ht_rep_def tot_update map_update)
qed

lemma lookup_change:
  assumes "ht_rep ht R" "ht_rep ht' (R[key_idx ht key := rs])" "route ht' = route ht"
    "kmap rs = (kmap (R ! key_idx ht key))(key := v)"
  shows "ht_lookup ht' = (ht_lookup ht)(key := v)"
proof
  fix k
  have i: "key_idx ht' k = key_idx ht k" using assms(3) by (rule key_idx_cong)
  show "ht_lookup ht' k = ((ht_lookup ht)(key := v)) k"
    using assms rep_lookup [OF assms(1), of k] rep_lookup [OF assms(2), of k] i rep_idx [OF assms(1), of key]
    by (cases "key_idx ht k = key_idx ht key") (auto simp: nth_list_update)
qed

lemma bucket_keys: "bucket_ok rt h idx rs \<Longrightarrow> distinct (map r_key rs)"
  by (simp add: bucket_ok_def)

text \<open>A successful find: the position in the record list behind the slot.\<close>

lemma rep_find_Some:
  assumes "ht_rep ht R"
    "chain_find (chains ht ! key_idx ht key) key (pcache_key_hash key) (tag_of (pcache_key_hash key)) = Some (w, i)"
  obtains p where "p < length (R ! key_idx ht key)"
    "the (slots (chains ht ! key_idx ht key ! w) ! i) = R ! key_idx ht key ! p"
    "r_key (R ! key_idx ht key ! p) = key"
    "ht_lookup ht key = Some (R ! key_idx ht key ! p)"
    "\<And>r. r_hash r = pcache_key_hash key \<Longrightarrow>
       chain_set (chains ht ! key_idx ht key) w i r = layout ((R ! key_idx ht key)[p := r])"
    "chain_remove_at (chains ht ! key_idx ht key) w i =
       (layout (swap_remove (R ! key_idx ht key) p),
        nover (length (R ! key_idx ht key) - 1) \<noteq> nover (length (R ! key_idx ht key)),
        chained_of (length (R ! key_idx ht key) - 1) - chained_of (length (R ! key_idx ht key)))"
proof -
  let ?idx = "key_idx ht key"
  let ?rs = "R ! ?idx" and ?p = "5 * w + i"
  have idx: "?idx < length R" using assms(1) by (rule rep_idx)
  note ch = rep_chain [OF assms(1) idx]
  note f = chain_find_Some [OF assms(2) [unfolded ch]]
  have b: "bucket_ok (route ht) (hints ht ! ?idx) ?idx ?rs" using assms(1) idx by (rule rep_bucket)
  have lk: "ht_lookup ht key = Some (?rs ! ?p)"
    using kmap_nth [OF bucket_keys [OF b] f(5)] f(4) by (simp add: rep_lookup [OF assms(1)])
  have "slots (layout ?rs ! w) ! i = Some (?rs ! ?p)"
    using f(1,2) nth_seg [OF f(1,2)] by (simp add: layout_nth nth_append)
  then show ?thesis
    using that [of ?p] f lk ch chain_set_layout [OF f(1,2)] chain_remove_layout [OF f(1,2)] by simp
qed

lemma rep_find_None:
  assumes "ht_rep ht R"
    "chain_find (chains ht ! key_idx ht key) key (pcache_key_hash key) (tag_of (pcache_key_hash key)) = None"
  shows "\<forall>r \<in> set (R ! key_idx ht key). r_key r \<noteq> key" "ht_lookup ht key = None"
proof -
  let ?idx = "key_idx ht key"
  have idx: "?idx < length R" using assms(1) by (rule rep_idx)
  have b: "bucket_ok (route ht) (hints ht ! ?idx) ?idx (R ! ?idx)" using assms(1) idx by (rule rep_bucket)
  show n: "\<forall>r \<in> set (R ! ?idx). r_key r \<noteq> key"
  proof (intro ballI notI)
    fix r assume r: "r \<in> set (R ! ?idx)" "r_key r = key"
    then have "r_hash r = pcache_key_hash key" using b by (auto simp: bucket_ok_def hrec_ok_def)
    then show False
      using chain_find_None [OF assms(2) [unfolded rep_chain [OF assms(1) idx]] r(1)] r(2) by simp
  qed
  then show "ht_lookup ht key = None" by (simp add: rep_lookup [OF assms(1)] kmap_None)
qed

section \<open>The three changes\<close>

text \<open>\<open>ht'\<close> is a table whose map differs from \<open>ht\<close>'s at one key at most.\<close>

definition becomes :: "htab \<Rightarrow> bytes \<Rightarrow> hrec option \<Rightarrow> htab \<Rightarrow> bool" where
  "becomes ht key v ht' \<longleftrightarrow> ht_inv ht' \<and> ht_lookup ht' = (ht_lookup ht)(key := v) \<and>
     route ht' = route ht"

lemma becomes_refl: "ht_inv ht \<Longrightarrow> ht_lookup ht key = v \<Longrightarrow> becomes ht key v ht"
  by (auto simp: becomes_def)

lemma rep_same:
  assumes "ht_rep ht R" "route ht' = route ht" "nbuckets ht' = nbuckets ht" "chains ht' = chains ht"
    "hints ht' = hints ht" "chained ht' = chained ht" "pool ht' = pool ht"
    "int (st_created ht') - int (st_destroyed ht') = int (st_created ht) - int (st_destroyed ht)"
  shows "ht_rep ht' R"
  using assms by (simp add: ht_rep_def)

lemma lookup_cong: "route ht' = route ht \<Longrightarrow> chains ht' = chains ht \<Longrightarrow> ht_lookup ht' = ht_lookup ht"
  by (auto simp: ht_lookup_def key_idx_def)

lemma becomes_same:
  assumes "becomes ht key v h" "route ht' = route h" "nbuckets ht' = nbuckets h" "chains ht' = chains h"
    "hints ht' = hints h" "chained ht' = chained h" "pool ht' = pool h"
    "int (st_created ht') - int (st_destroyed ht') = int (st_created h) - int (st_destroyed h)"
  shows "becomes ht key v ht'"
proof -
  obtain R where "ht_rep h R" using assms(1) by (auto simp: becomes_def ht_inv_def)
  then have "ht_rep ht' R" using assms(2-) by (rule rep_same)
  then show ?thesis using assms(1,2,4) lookup_cong [of ht' h] by (auto simp: becomes_def ht_inv_def)
qed

lemma bucket_ok_hint:
  assumes "bucket_ok rt (hints ht ! idx) idx rs" "idx < length (hints ht)"
    "\<And>r. r \<in> set rs' \<Longrightarrow> r \<in> set rs \<or> hrec_ok r \<and> unat (route_idx rt (r_hash r)) = idx \<and>
       (r_expires r = 0 \<or> r_expires r = x \<or> (\<exists>q \<in> set rs. r_expires r = r_expires q))"
    "distinct (map r_key rs')"
  shows "bucket_ok rt (hints (hint_update idx x ht) ! idx) idx rs'"
proof -
  let ?h = "hints (hint_update idx x ht) ! idx"
  have q: "?h \<noteq> 0 \<and> ?h \<le> r_expires r" if "r \<in> set rs" "r_expires r \<noteq> 0" for r
    using that assms(1) hint_update_lower(2) [OF assms(2), of x] by (auto simp: bucket_ok_def)
  have x: "x \<noteq> 0 \<Longrightarrow> ?h \<noteq> 0 \<and> ?h \<le> x" using hint_update_lower(1) [OF assms(2)] .
  show ?thesis
    unfolding bucket_ok_def
  proof (intro conjI ballI impI)
    fix r assume r: "r \<in> set rs'"
    show "hrec_ok r" "unat (route_idx rt (r_hash r)) = idx"
      using assms(3) [OF r] assms(1) by (auto simp: bucket_ok_def)
    assume e: "r_expires r \<noteq> 0"
    show "?h \<noteq> 0" "?h \<le> r_expires r" using assms(3) [OF r] q x e by auto metis+
  qed (rule assms(4))
qed

lemma step_replace:
  assumes "ht_rep ht R" "p < length (R ! key_idx ht key)" "r_key (R ! key_idx ht key ! p) = key"
    "r_key r = key" "hrec_ok r"
    "r_expires r = 0 \<or> r_expires r = x \<or> r_expires r = r_expires (R ! key_idx ht key ! p)"
  shows "becomes ht key (Some r)
    (hint_update (key_idx ht key) x
      (put_chain (key_idx ht key) (layout ((R ! key_idx ht key)[p := r])) ht))"
    (is "becomes ht key (Some r) ?ht")
proof -
  let ?idx = "key_idx ht key"
  let ?rs = "R ! ?idx"
  have idx: "?idx < length R" using assms(1) by (rule rep_idx)
  have hl: "?idx < length (hints ht)" using idx assms(1) by (simp add: ht_rep_def)
  note b = rep_bucket [OF assms(1) idx]
  note d = bucket_keys [OF b]
  have "?rs ! p \<in> set ?rs" using assms(2) by simp
  then have rt: "unat (route_idx (route ht) (r_hash r)) = ?idx"
    using b assms(3,4,5) by (auto simp: bucket_ok_def hrec_ok_def)
  have bo: "bucket_ok (route ht) (hints ?ht ! ?idx) ?idx (?rs[p := r])"
  proof (rule bucket_ok_hint [of _ "put_chain ?idx (layout (?rs[p := r])) ht" _ ?rs])
    fix q assume "q \<in> set (?rs[p := r])"
    then have "q \<in> set ?rs \<or> q = r" using set_update_subset_insert by fastforce
    then show "q \<in> set ?rs \<or> hrec_ok q \<and> unat (route_idx (route ht) (r_hash q)) = ?idx \<and>
        (r_expires q = 0 \<or> r_expires q = x \<or> (\<exists>q' \<in> set ?rs. r_expires q = r_expires q'))"
      using assms(5,6) rt \<open>?rs ! p \<in> set ?rs\<close> by auto
  next
    show "distinct (map r_key (?rs[p := r]))"
      using d assms(2) by (rule distinct_keys_update) (simp add: assms(3,4))
  qed (use b hl in auto)
  have rep: "ht_rep ?ht (R[?idx := ?rs[p := r]])"
    by (rule rep_change [OF assms(1) idx]) (use bo assms(1) in \<open>auto simp: ht_rep_def\<close>)
  moreover have "ht_lookup ?ht = (ht_lookup ht)(key := Some r)"
    using assms(4) kmap_update [OF d assms(2), of r] assms(3)
    by (intro lookup_change [OF assms(1) rep]) auto
  ultimately show ?thesis by (auto simp: becomes_def ht_inv_def)
qed

lemma pool_get_ok:
  assumes "pool_ok p" "pcache_opool_get room p = Some p'"
  shows "pool_ok p'" "op_in_use p' = op_in_use p + 1"
  using assms
  by (auto simp: pcache_opool_get_def opool_carve_def pool_ok_def PCACHE_OPOOL_PER_def
      split: if_splits option.splits)

lemma pool_put_ok:
  assumes "pool_ok p" "0 < op_in_use p"
  shows "pool_ok (pcache_opool_put p)" "op_in_use (pcache_opool_put p) = op_in_use p - 1"
  using assms by (auto simp: pcache_opool_put_def pool_ok_def)

lemma tail_full:
  "bkt_used (layout rs ! nover (length rs)) = PCACHE_SLOTS \<longleftrightarrow> nover (Suc (length rs)) \<noteq> nover (length rs)"
proof -
  note rg = nover_range [of "length rs"]
  have "bkt_used (layout rs ! nover (length rs)) = length rs - 5 * nover (length rs)"
    using length_seg(2) [of "nover (length rs)" rs] by (simp add: layout_nth mk_bkt_used [OF length_seg_le])
  moreover have "length rs - 5 * nover (length rs) = 6 \<longleftrightarrow> nover (Suc (length rs)) \<noteq> nover (length rs)"
  proof
    assume "length rs - 5 * nover (length rs) = 6"
    then have "nover (Suc (length rs)) = Suc (nover (length rs))" using rg(1) by (intro nover_eqI) auto
    then show "nover (Suc (length rs)) \<noteq> nover (length rs)" by simp
  next
    assume "nover (Suc (length rs)) \<noteq> nover (length rs)"
    moreover have "nover (Suc (length rs)) = nover (length rs)" if "length rs - 5 * nover (length rs) < 6"
      using that rg by (intro nover_eqI) auto
    ultimately show "length rs - 5 * nover (length rs) = 6" using rg(2) by linarith
  qed
  ultimately show ?thesis by (simp add: PCACHE_SLOTS_def)
qed

lemma nover_Suc: "nover (Suc n) = nover n \<or> nover (Suc n) = Suc (nover n)"
proof (cases "n - 5 * nover n = 6")
  case True
  then show ?thesis using nover_range(1) [of n] nover_eqI [of "Suc n" "Suc (nover n)"] by auto
next
  case False
  then show ?thesis using nover_range [of n] nover_eqI [of "Suc n" "nover n"] by auto
qed

lemma step_append:
  assumes "ht_rep ht R" "\<forall>q \<in> set (R ! key_idx ht key). r_key q \<noteq> key" "r_key r = key" "hrec_ok r"
    "r_expires r = 0 \<or> r_expires r = x" "pool_ok p"
    "int (op_in_use p) = int (op_in_use (pool ht)) + int (nover (Suc (length (R ! key_idx ht key))))
       - int (nover (length (R ! key_idx ht key)))"
    "route ht' = route ht" "nbuckets ht' = nbuckets ht"
    "chains ht' = (chains ht)[key_idx ht key := layout (R ! key_idx ht key @ [r])]"
    "hints ht' = hints (hint_update (key_idx ht key) x ht)" "pool ht' = p"
    "chained ht' = chained ht + chained_of (Suc (length (R ! key_idx ht key)))
       - chained_of (length (R ! key_idx ht key))"
    "st_created ht' = st_created ht + 1" "st_destroyed ht' = st_destroyed ht"
  shows "becomes ht key (Some r) ht'"
proof -
  let ?idx = "key_idx ht key"
  let ?rs = "R ! ?idx"
  have idx: "?idx < length R" using assms(1) by (rule rep_idx)
  have hl: "?idx < length (hints ht)" using idx assms(1) by (simp add: ht_rep_def)
  note b = rep_bucket [OF assms(1) idx]
  note d = bucket_keys [OF b]
  have rt: "unat (route_idx (route ht) (r_hash r)) = ?idx"
    using assms(3,4) by (simp add: hrec_ok_def key_idx_def)
  have "bucket_ok (route ht) (hints (hint_update ?idx x ht) ! ?idx) ?idx (?rs @ [r])"
    using assms(2-5) d rt by (intro bucket_ok_hint [OF b hl]) auto
  then have rep: "ht_rep ht' (R[?idx := ?rs @ [r]])"
    by (intro rep_change [OF assms(1) idx]) (use assms in \<open>auto simp: ht_rep_def\<close>)
  moreover have "ht_lookup ht' = (ht_lookup ht)(key := Some r)"
    using kmap_append [of ?rs r] assms(2,3,8) by (intro lookup_change [OF assms(1) rep]) auto
  ultimately show ?thesis using assms(8) by (auto simp: becomes_def ht_inv_def)
qed

lemma tot_nonneg: "(\<And>rs. 0 \<le> f rs) \<Longrightarrow> 0 \<le> tot f R"
  by (induction R) (auto simp: tot_def)

lemma tot_ge:
  assumes "i < length R" "\<And>rs. 0 \<le> f rs"
  shows "f (R ! i) \<le> tot f R"
  using assms
proof (induction R arbitrary: i)
  case (Cons a R)
  have "0 \<le> tot f R" using Cons.prems(2) by (rule tot_nonneg)
  with Cons show ?case by (cases i) (auto simp: tot_def intro: add_increasing)
qed simp

lemma step_remove:
  assumes "ht_rep ht R" "p < length (R ! key_idx ht key)" "r_key (R ! key_idx ht key ! p) = key"
    "gone \<longleftrightarrow> nover (length (R ! key_idx ht key) - 1) \<noteq> nover (length (R ! key_idx ht key))"
    "route ht' = route ht" "nbuckets ht' = nbuckets ht"
    "chains ht' = (chains ht)[key_idx ht key := layout (swap_remove (R ! key_idx ht key) p)]"
    "hints ht' = hints ht" "pool ht' = (if gone then pcache_opool_put (pool ht) else pool ht)"
    "chained ht' = chained ht + (chained_of (length (R ! key_idx ht key) - 1)
       - chained_of (length (R ! key_idx ht key)))"
    "st_created ht' = st_created ht" "st_destroyed ht' = st_destroyed ht + 1"
  shows "becomes ht key None ht'"
proof -
  let ?idx = "key_idx ht key"
  let ?rs = "R ! ?idx"
  obtain n where n: "length ?rs = Suc n" using assms(2) by (cases "length ?rs") auto
  have idx: "?idx < length R" using assms(1) by (rule rep_idx)
  note b = rep_bucket [OF assms(1) idx]
  note d = bucket_keys [OF b]
  note sr = swap_remove_facts [OF d assms(2)]
  have bo: "bucket_ok (route ht) (hints ht' ! ?idx) ?idx (swap_remove ?rs p)"
    using b sr assms(8) by (auto simp: bucket_ok_def)
  have pk: "pool_ok (pool ht)" "int (op_in_use (pool ht)) = tot (\<lambda>rs. int (nover (length rs))) R"
    using assms(1) by (auto simp: ht_rep_def)
  have "int (nover (length ?rs)) \<le> int (op_in_use (pool ht))"
    unfolding pk(2) using tot_ge [OF idx, of "\<lambda>rs. int (nover (length rs))"] by simp
  then have use: "gone \<Longrightarrow> 0 < op_in_use (pool ht)" "gone \<Longrightarrow> nover (Suc n) = Suc (nover n)"
    using nover_Suc [of n] assms(4) n by auto
  have pool: "pool_ok (pool ht') \<and>
    int (op_in_use (pool ht')) = int (op_in_use (pool ht)) + int (nover n) - int (nover (Suc n))"
  proof (cases gone)
    case True
    then show ?thesis using use pool_put_ok [OF pk(1)] assms(9) by simp
  next
    case False
    then have "nover (Suc n) = nover n" using assms(4) n by simp
    with False show ?thesis using pk(1) assms(9) by simp
  qed
  have rep: "ht_rep ht' (R[?idx := swap_remove ?rs p])"
    by (rule rep_change [OF assms(1) idx]) (use bo pool n assms(5-) in \<open>simp_all\<close>)
  moreover have "ht_lookup ht' = (ht_lookup ht)(key := None)"
    using sr(3) assms(3,5) by (intro lookup_change [OF assms(1) rep]) auto
  ultimately show ?thesis using assms(5) by (auto simp: becomes_def ht_inv_def)
qed

section \<open>Remove\<close>

lemma remove_impl_spec:
  assumes "ht_inv ht" "remove_impl key below dropping s ht = (rc, s', ht')"
  shows "(rc = 1 \<longleftrightarrow> (\<exists>r. ht_lookup ht key = Some r \<and> (below = 0 \<or> r_ver r < below))) \<and>
    (rc = 1 \<longrightarrow> becomes ht key None ht') \<and> (rc \<noteq> 1 \<longrightarrow> rc = 0 \<and> ht' = ht) \<and>
    (dropping \<longrightarrow> s' = s) \<and>
    (\<not> dropping \<longrightarrow> last_del_ver s' = snd (ver_local (if rc = 1 then ht_lookup ht key else None) s) \<and>
       clk s' = clk (fst (ver_local None s)) \<and> last_ver s' = last_ver s)"
proof -
  obtain R where R: "ht_rep ht R" using assms(1) by (auto simp: ht_inv_def)
  let ?idx = "key_idx ht key" and ?h = "pcache_key_hash key"
  show ?thesis
  proof (cases "chain_find (chains ht ! ?idx) key ?h (tag_of ?h)")
    case None
    then show ?thesis
      using assms(2) rep_find_None [OF R None]
      by (auto simp: remove_impl_def Let_def ver_local_def pc_lamport_publish_def split: prod.splits if_splits)
  next
    case (Some wi)
    obtain w i where wi: "wi = (w, i)" by (cases wi)
    from Some wi obtain p where p: "p < length (R ! ?idx)"
      "the (slots (chains ht ! ?idx ! w) ! i) = R ! ?idx ! p"
      "r_key (R ! ?idx ! p) = key" "ht_lookup ht key = Some (R ! ?idx ! p)"
      "chain_remove_at (chains ht ! ?idx) w i =
         (layout (swap_remove (R ! ?idx) p), nover (length (R ! ?idx) - 1) \<noteq> nover (length (R ! ?idx)),
          chained_of (length (R ! ?idx) - 1) - chained_of (length (R ! ?idx)))"
      using rep_find_Some [OF R] by metis
    let ?r = "R ! ?idx ! p"
    show ?thesis
    proof (cases "below \<noteq> 0 \<and> r_ver ?r \<ge> below")
      case True
      then show ?thesis
        using assms(2) Some wi p
        by (auto simp: remove_impl_def Let_def ver_local_def pc_lamport_publish_def split: prod.splits if_splits)
    next
      case False
      have "becomes ht key None ht'"
        by (rule step_remove [OF R p(1,3) refl])
          (use assms(2) Some wi p False in \<open>auto simp: remove_impl_def Let_def split: prod.splits if_splits\<close>)
      moreover have "rc = 1" using assms(2) Some wi p False by (auto simp: remove_impl_def Let_def)
      moreover have "s' = (if dropping then s else case ver_local (Some ?r) s of (s, v) \<Rightarrow>
                 s\<lparr>last_del_ver := v, clk := pc_lamport_publish v (clk s)\<rparr>)"
        using assms(2) Some wi p False by (auto simp: remove_impl_def Let_def)
      ultimately show ?thesis
        using False p(4) by (auto simp: ver_local_def pc_lamport_publish_def split: prod.splits)
    qed
  qed
qed

end
