(* ===== verification/Htable_Ops.thy ===== *)
theory Htable_Ops
  imports Htable_Inv
begin

text \<open>
  What each write operation of the table does, on every branch: the result code, the
  record it leaves, the version it stamps; and that the invariant is kept.
\<close>

section \<open>Versions\<close>

lemma ver_local_sel:
  "clk (fst (ver_local old s)) = fst (pc_lamport_tick (clk s))"
  "last_ver (fst (ver_local old s)) = last_ver s"
  "nomem_inplace (fst (ver_local old s)) = nomem_inplace s"
  by (simp_all add: ver_local_def pc_lamport_tick_def)

lemma ver_local_above:
  assumes "r_ver r \<noteq> - 1"
  shows "r_ver r < snd (ver_local (Some r) s)"
  using assms word_less_Suc [of "r_ver r" "r_ver r"]
  by (auto simp: ver_local_def pc_lamport_tick_def)

lemma ver_local_cong: "r_ver r = r_ver q \<Longrightarrow> ver_local (Some r) s = ver_local (Some q) s"
  by (simp add: ver_local_def cong: if_cong)

section \<open>Store\<close>

definition size_ok :: "bytes \<Rightarrow> bytes \<Rightarrow> bool" where
  "size_ok key val \<longleftrightarrow> length key \<le> 0xFFFF \<and> rec_size key val \<le> PCACHE_CELL_MAX"

text \<open>What a store that returns 0 leaves in the table for its key.\<close>

definition stored :: "env \<Rightarrow> bytes \<Rightarrow> bytes \<Rightarrow> u32 \<Rightarrow> u8 \<Rightarrow> hrec option \<Rightarrow> u64 \<Rightarrow> hrec \<Rightarrow> bool" where
  "stored e key val ex fl old v r \<longleftrightarrow> r_key r = key \<and> r_val r = val \<and> r_expires r = ex \<and> r_ver r = v \<and>
     r_flags r = fl OR (case old of None \<Rightarrow> 0 | Some q \<Rightarrow> shortened_fl (e_now e) q ex)"

lemma install_becomes:
  assumes "ht_rep ht R"
    "p < length (R ! key_idx ht key)" "r_key (R ! key_idx ht key ! p) = key"
    "\<And>r. r_hash r = pcache_key_hash key \<Longrightarrow>
       chain_set (chains ht ! key_idx ht key) w i r = layout ((R ! key_idx ht key)[p := r])"
    "r_key r = key" "hrec_ok r"
    "r_expires r = 0 \<or> r_expires r = x \<or> r_expires r = r_expires (R ! key_idx ht key ! p)"
  shows "becomes ht key (Some r) (count_store c False (hint_update (key_idx ht key) x
    (put_chain (key_idx ht key) (chain_set (chains ht ! key_idx ht key) w i r) ht)))"
proof -
  have "r_hash r = pcache_key_hash key" using assms(5,6) by (simp add: hrec_ok_def)
  then show ?thesis
    using becomes_same [OF step_replace [OF assms(1-3,5-7)]] assms(4) by simp
qed

lemma store_over_spec:
  assumes "ht_rep ht R" "size_ok key val"
    "p < length (R ! key_idx ht key)" "r_key (R ! key_idx ht key ! p) = key"
    "\<And>r. r_hash r = pcache_key_hash key \<Longrightarrow>
       chain_set (chains ht ! key_idx ht key) w i r = layout ((R ! key_idx ht key)[p := r])"
    "old = R ! key_idx ht key ! p"
    "case nr of None \<Rightarrow> True | Some q \<Rightarrow> hrec_ok q \<and> r_key q = key \<and> r_val q = val \<and> r_expires q = ex \<and>
       r_flags q = fl \<and> (uv \<longrightarrow> r_ver q = inver \<and> last_ver s = inver)"
    "store_over e key val ex fl inver uv kw wt nr (key_idx ht key) w i old s ht = (rc, s', ht')"
  shows "(rc = 0 \<longrightarrow> (\<exists>r. becomes ht key (Some r) ht' \<and>
        stored e key val ex fl (Some old) (last_ver s') r \<and>
        last_ver s' = (if uv then inver else snd (ver_local (Some old) s)))) \<and>
      (rc \<noteq> 0 \<longrightarrow> ht' = ht) \<and>
      (rc = PCACHE_E_OLDER \<longleftrightarrow> uv \<and> inver \<le> r_ver old) \<and>
      rc \<in> {0, -2, PCACHE_E_OLDER} \<and> (rc = -2 \<longrightarrow> nr = None)"
proof -
  have ok: "hrec_ok old"
    using rep_bucket [OF assms(1) rep_idx [OF assms(1), of key]] nth_mem [OF assms(3)] assms(6)
    by (simp add: bucket_ok_def)
  have key: "r_key old = key" using assms(4,6) by simp
  note inst = install_becomes [OF assms(1,3,4,5)]
  show ?thesis
  proof (cases "uv \<and> inver \<le> r_ver old")
    case True
    then show ?thesis using assms(8) by (auto simp: store_over_def PCACHE_E_OLDER_def)
  next
    case older: False
    show ?thesis
    proof (cases "r_val old = val")
      case True
      let ?sv = "if uv then (s, inver) else ver_local (Some old) s"
      let ?r = "old\<lparr>r_expires := ex, r_wtick := e_now e,
         r_flags := fl OR shortened_fl (e_now e) old ex, r_ver := snd ?sv\<rparr>"
      have "val_eq (r_val old) val (length val)" using True by (simp add: val_eq_iff)
      then have res: "rc = 0" "s' = note_inplace nr ((fst ?sv)\<lparr>last_ver := snd ?sv\<rparr>)"
        "ht' = count_store ex False (hint_update (key_idx ht key) ex
          (put_chain (key_idx ht key) (chain_set (chains ht ! key_idx ht key) w i ?r) ht))"
        using assms(8) older True
        by (auto simp: store_over_def Let_def not_le split: prod.splits if_splits)
      have "hrec_ok ?r" using ok by (simp add: hrec_ok_def)
      then have "becomes ht key (Some ?r) ht'"
        unfolding res(3) using key by (intro inst) auto
      moreover have "stored e key val ex fl (Some old) (snd ?sv) ?r" using key True by (simp add: stored_def)
      moreover have "last_ver s' = snd ?sv" unfolding res(2) by (simp add: note_inplace_def)
      ultimately show ?thesis using res(1) older by (auto simp: PCACHE_E_OLDER_def)
    next
      case ne: False
      then have neq: "\<not> (length (r_val old) = length val \<and> val_eq (r_val old) val (length val))"
        using val_eq_iff [of "r_val old" "length val" val] by auto
      show ?thesis
      proof (cases "rec_size key val \<le> r_cell old")
        case True
        let ?sv = "if uv then (s, inver) else ver_local (Some old) s"
        let ?r = "old\<lparr>r_flags := fl OR shortened_fl (e_now e) old ex, r_val := val,
           r_expires := ex, r_wtick := (if kw then wt else e_now e), r_ver := snd ?sv\<rparr>"
        have res: "rc = 0" "s' = note_inplace nr ((fst ?sv)\<lparr>last_ver := snd ?sv\<rparr>)"
          "ht' = count_store ex False (hint_update (key_idx ht key) ex
            (put_chain (key_idx ht key) (chain_set (chains ht ! key_idx ht key) w i ?r) ht))"
          using assms(8) older neq True
          by (auto simp: store_over_def Let_def not_le split: prod.splits if_splits)
        have "hrec_ok ?r" using ok key True assms(2) by (simp add: hrec_ok_def size_ok_def)
        then have "becomes ht key (Some ?r) ht'"
          unfolding res(3) using key by (intro inst) auto
        moreover have "stored e key val ex fl (Some old) (snd ?sv) ?r" using key by (simp add: stored_def)
        moreover have "last_ver s' = snd ?sv" unfolding res(2) by (simp add: note_inplace_def)
        ultimately show ?thesis using res(1) older by (auto simp: PCACHE_E_OLDER_def)
      next
        case False
        show ?thesis
        proof (cases nr)
          case None
          then show ?thesis
            using assms(8) older neq False
            by (auto simp: store_over_def Let_def PCACHE_E_OLDER_def split: if_splits)
        next
          case (Some q)
          let ?q = "q\<lparr>r_flags := r_flags q OR shortened_fl (e_now e) old ex\<rparr>"
          let ?r = "if uv then ?q else ?q\<lparr>r_ver := snd (ver_local (Some old) s)\<rparr>"
          have res: "rc = 0"
            "s' = (if uv then s else (fst (ver_local (Some old) s))\<lparr>last_ver := snd (ver_local (Some old) s)\<rparr>)"
            "ht' = count_store ex False (hint_update (key_idx ht key) ex
              (put_chain (key_idx ht key) (chain_set (chains ht ! key_idx ht key) w i ?r) ht))"
            using assms(8) older neq False Some
            by (auto simp: store_over_def Let_def not_le split: prod.splits if_splits)
          have q: "hrec_ok q" "r_key q = key" "r_val q = val" "r_expires q = ex" "r_flags q = fl"
            "uv \<longrightarrow> r_ver q = inver \<and> last_ver s = inver"
            using assms(7) Some by auto
          have "hrec_ok ?r" using q(1) by (simp add: hrec_ok_def)
          then have "becomes ht key (Some ?r) ht'"
            unfolding res(3) using q by (intro inst) auto
          moreover have "stored e key val ex fl (Some old) (last_ver s') ?r"
            using q unfolding res(2) by (auto simp: stored_def)
          moreover have "last_ver s' = (if uv then inver else snd (ver_local (Some old) s))"
            using q unfolding res(2) by auto
          ultimately show ?thesis using res(1) older Some by (auto simp: PCACHE_E_OLDER_def)
        qed
      qed
    qed
  qed
qed

lemma link_becomes:
  assumes "ht_rep ht R" "\<forall>q \<in> set (R ! key_idx ht key). r_key q \<noteq> key" "r_key r = key" "hrec_ok r"
    "r_expires r = 0 \<or> r_expires r = x"
    "chain_tail (chains ht ! key_idx ht key) = (t, n)"
    "(if bkt_used (chains ht ! key_idx ht key ! t) = PCACHE_SLOTS
      then pcache_opool_get room (pool ht) else Some (pool ht)) = Some p"
    "ht1 = hint_update (key_idx ht key) x (put_chain (key_idx ht key)
       (fst (chain_put (chains ht ! key_idx ht key) r (tag_of (r_hash r)) zero_bkt)) (ht\<lparr>pool := p\<rparr>))"
    "ht' = count_store x True (if n \<ge> PCACHE_SLOTS
       then ht1\<lparr>chained := chained ht1 + (chained_of (n + 1) - chained_of n)\<rparr> else ht1)"
  shows "becomes ht key (Some r) ht'"
proof -
  let ?idx = "key_idx ht key"
  let ?rs = "R ! ?idx"
  have idx: "?idx < length R" using assms(1) by (rule rep_idx)
  have ch: "chains ht ! ?idx = layout ?rs" using rep_chain [OF assms(1) idx] .
  have t: "t = nover (length ?rs)" "n = length ?rs" using assms(6) by (auto simp: ch)
  have pk: "pool_ok (pool ht)" using assms(1) by (simp add: ht_rep_def)
  have p: "pool_ok p \<and> int (op_in_use p) = int (op_in_use (pool ht)) + int (nover (Suc (length ?rs))) - int (nover (length ?rs))"
  proof (cases "bkt_used (layout ?rs ! nover (length ?rs)) = PCACHE_SLOTS")
    case True
    then have "nover (Suc (length ?rs)) = Suc (nover (length ?rs))"
      using tail_full nover_Suc by metis
    then show ?thesis using True pool_get_ok [OF pk] assms(7) by (simp add: ch t)
  next
    case False
    then have "nover (Suc (length ?rs)) = nover (length ?rs)" using tail_full by blast
    then show ?thesis using False pk assms(7) by (simp add: ch t)
  qed
  have hc: "chained_of (Suc (length ?rs)) = chained_of (length ?rs)" if "\<not> PCACHE_SLOTS \<le> length ?rs"
    using that by (simp add: chained_of_def PCACHE_SLOTS_def)
  show ?thesis
    by (rule step_append [OF assms(1-5) conjunct1 [OF p] conjunct2 [OF p]])
      (use hc in \<open>auto simp: assms(8,9) ch t chain_put_layout count_store_def Let_def hint_update_def put_chain_def\<close>)
qed

lemma store_new_spec:
  assumes "ht_rep ht R" "\<forall>q \<in> set (R ! key_idx ht key). r_key q \<noteq> key"
    "case nr of None \<Rightarrow> True | Some q \<Rightarrow> hrec_ok q \<and> r_key q = key \<and> r_val q = val \<and> r_expires q = ex \<and>
       r_flags q = fl \<and> (uv \<longrightarrow> r_ver q = inver \<and> last_ver s = inver)"
    "store_new e ex uv nr (key_idx ht key) s ht = (rc, s', ht')"
  shows "(rc = 0 \<longrightarrow> (\<exists>r. becomes ht key (Some r) ht' \<and> stored e key val ex fl None (last_ver s') r \<and>
        last_ver s' = (if uv then inver else snd (ver_local None s)))) \<and>
      (rc \<noteq> 0 \<longrightarrow> ht' = ht) \<and> rc \<in> {0, -2} \<and> (rc = -2 \<longrightarrow> nr = None \<or> \<not> e_carve e)"
proof (cases nr)
  case None
  then show ?thesis using assms(4) by (auto simp: store_new_def)
next
  case (Some q)
  have q: "hrec_ok q" "r_key q = key" "r_val q = val" "r_expires q = ex" "r_flags q = fl"
    "uv \<longrightarrow> r_ver q = inver \<and> last_ver s = inver"
    using assms(3) Some by auto
  let ?idx = "key_idx ht key"
  obtain t n where t: "chain_tail (chains ht ! ?idx) = (t, n)" by fastforce
  let ?get = "if bkt_used (chains ht ! ?idx ! t) = PCACHE_SLOTS
    then pcache_opool_get (e_carve e) (pool ht) else Some (pool ht)"
  show ?thesis
  proof (cases ?get)
    case None
    then have "\<not> e_carve e"
      by (auto simp: pcache_opool_get_def opool_carve_def split: if_splits option.splits)
    then show ?thesis using assms(4) Some None t by (auto simp: store_new_def split: if_splits)
  next
    case g: (Some p)
    let ?r = "if uv then q else q\<lparr>r_ver := snd (ver_local None s)\<rparr>"
    let ?ht1 = "hint_update ?idx ex (put_chain ?idx
      (fst (chain_put (chains ht ! ?idx) ?r (tag_of (r_hash ?r)) zero_bkt)) (ht\<lparr>pool := p\<rparr>))"
    have res: "rc = 0" "ht' = count_store ex True (if n \<ge> PCACHE_SLOTS
        then ?ht1\<lparr>chained := chained ?ht1 + (chained_of (n + 1) - chained_of n)\<rparr> else ?ht1)"
      "last_ver s' = (if uv then inver else snd (ver_local None s))"
      using assms(4) Some g t q(6)
      by (auto simp: store_new_def Let_def split: prod.splits if_splits)
    have "hrec_ok ?r" using q(1) by (simp add: hrec_ok_def)
    then have "becomes ht key (Some ?r) ht'"
      using q by (intro link_becomes [OF assms(1,2) _ _ _ t g refl res(2)]) auto
    moreover have "stored e key val ex fl None (last_ver s') ?r"
      using q by (auto simp: stored_def res(3))
    ultimately show ?thesis using res by auto
  qed
qed

text \<open>The version a store stamps.\<close>

definition store_ver :: "u64 \<Rightarrow> bool \<Rightarrow> hrec option \<Rightarrow> sys \<Rightarrow> u64" where
  "store_ver inver uv old s = (if uv then inver else snd (ver_local old s))"

lemma store_build_ok:
  assumes "env_ok e" "size_ok key val" "store_build e key val ex fl inver uv kw wt s = (nr, s')"
  shows "case nr of None \<Rightarrow> s' = s \<and> e_cell e (rec_size key val) = None
    | Some q \<Rightarrow> hrec_ok q \<and> r_key q = key \<and> r_val q = val \<and> r_expires q = ex \<and>
       r_flags q = fl \<and> (uv \<longrightarrow> r_ver q = inver \<and> last_ver s' = inver)"
    "clk s' = clk s"
  using assms
  by (auto simp: store_build_def hrec_ok_def env_ok_def size_ok_def split: option.splits if_splits)

lemma store_here_spec:
  assumes "ht_inv ht" "env_ok e" "store_here e key val ex fl inver uv kw wt s ht = (rc, s', ht')"
  shows "(rc = 0 \<longrightarrow> (\<exists>r. becomes ht key (Some r) ht' \<and>
        stored e key val ex fl (ht_lookup ht key) (last_ver s') r \<and>
        last_ver s' = store_ver inver uv (ht_lookup ht key) s)) \<and>
      (rc \<noteq> 0 \<longrightarrow> ht' = ht) \<and>
      (rc = -1 \<longleftrightarrow> \<not> size_ok key val) \<and>
      (rc = PCACHE_E_OLDER \<longleftrightarrow> size_ok key val \<and> uv \<and> (\<exists>r. ht_lookup ht key = Some r \<and> inver \<le> r_ver r)) \<and>
      rc \<in> {0, -1, -2, PCACHE_E_OLDER} \<and>
      (rc = -2 \<longrightarrow> e_cell e (rec_size key val) = None \<or> ht_lookup ht key = None \<and> \<not> e_carve e)"
proof (cases "size_ok key val")
  case False
  then show ?thesis using assms(3) by (auto simp: store_here_def size_ok_def PCACHE_E_OLDER_def)
next
  case ok: True
  obtain R where R: "ht_rep ht R" using assms(1) by (auto simp: ht_inv_def)
  let ?idx = "key_idx ht key" and ?h = "pcache_key_hash key"
  define s1 where "s1 = (if uv then s\<lparr>clk := pc_lamport_observe inver (clk s)\<rparr> else s)"
  obtain nr s2 where b: "store_build e key val ex fl inver uv kw wt s1 = (nr, s2)" by fastforce
  note bo = store_build_ok [OF assms(2) ok b]
  have nr: "case nr of None \<Rightarrow> True | Some q \<Rightarrow> hrec_ok q \<and> r_key q = key \<and> r_val q = val \<and> r_expires q = ex \<and>
       r_flags q = fl \<and> (uv \<longrightarrow> r_ver q = inver \<and> last_ver s2 = inver)"
    using bo(1) by (auto split: option.splits)
  have none: "nr = None \<Longrightarrow> e_cell e (rec_size key val) = None" using bo(1) by simp
  have v: "\<not> uv \<Longrightarrow> snd (ver_local old s2) = snd (ver_local old s)" for old
    using bo(2) by (simp add: ver_local_def s1_def split: prod.splits)
  have body: "(case chain_find (chains ht ! ?idx) key ?h (tag_of ?h) of
           Some (w, i) \<Rightarrow>
             store_over e key val ex fl inver uv kw wt nr ?idx w i
               (the (slots (chains ht ! ?idx ! w) ! i)) s2 ht
         | None \<Rightarrow> store_new e ex uv nr ?idx s2 ht) = (rc, s', ht')"
    using assms(3) ok b unfolding store_here_def Let_def s1_def size_ok_def by (auto simp: not_le)
  show ?thesis
  proof (cases "chain_find (chains ht ! ?idx) key ?h (tag_of ?h)")
    case None
    note f = rep_find_None [OF R None]
    have "store_new e ex uv nr ?idx s2 ht = (rc, s', ht')" using body None by simp
    from store_new_spec [OF R f(1) nr this] show ?thesis
      using ok f(2) none v by (auto simp: store_ver_def PCACHE_E_OLDER_def)
  next
    case (Some wi)
    obtain w i where wi: "wi = (w, i)" by (cases wi)
    from rep_find_Some [OF R Some [unfolded wi]] obtain p where p: "p < length (R ! ?idx)"
      "the (slots (chains ht ! ?idx ! w) ! i) = R ! ?idx ! p"
      "r_key (R ! ?idx ! p) = key" "ht_lookup ht key = Some (R ! ?idx ! p)"
      "\<And>r. r_hash r = ?h \<Longrightarrow> chain_set (chains ht ! ?idx) w i r = layout ((R ! ?idx)[p := r])"
      by metis
    have "store_over e key val ex fl inver uv kw wt nr ?idx w i (R ! ?idx ! p) s2 ht = (rc, s', ht')"
      using body Some wi p(2) by simp
    from store_over_spec [OF R ok p(1,3,5) refl nr this] show ?thesis
      using ok p(4) none v by (auto simp: store_ver_def PCACHE_E_OLDER_def)
  qed
qed

section \<open>Touch, setver, getver\<close>

lemma rep_record_ok:
  assumes "ht_rep ht R" "p < length (R ! key_idx ht key)"
  shows "hrec_ok (R ! key_idx ht key ! p)"
  using rep_bucket [OF assms(1) rep_idx [OF assms(1), of key]] nth_mem [OF assms(2)]
  by (simp add: bucket_ok_def)

lemma lookup_ok:
  assumes "ht_inv ht" "ht_lookup ht key = Some r"
  shows "hrec_ok r" "r_key r = key"
proof -
  obtain R where R: "ht_rep ht R" using assms(1) by (auto simp: ht_inv_def)
  have b: "bucket_ok (route ht) (hints ht ! key_idx ht key) (key_idx ht key) (R ! key_idx ht key)"
    using R rep_idx [OF R] by (rule rep_bucket)
  have "kmap (R ! key_idx ht key) key = Some r" using assms(2) by (simp add: rep_lookup [OF R])
  then have "r \<in> set (R ! key_idx ht key) \<and> r_key r = key"
    by (simp add: kmap_iff [OF bucket_keys [OF b]])
  then show "hrec_ok r" "r_key r = key" using b by (auto simp: bucket_ok_def)
qed

text \<open>The find and the map agree, for operations that replace the record they find.\<close>

lemma found_cases:
  assumes "ht_inv ht"
  obtains (absent) R where "ht_rep ht R"
      "chain_find (chains ht ! key_idx ht key) key (pcache_key_hash key) (tag_of (pcache_key_hash key)) = None"
      "ht_lookup ht key = None" "\<forall>r \<in> set (R ! key_idx ht key). r_key r \<noteq> key"
  | (found) w i old where
      "chain_find (chains ht ! key_idx ht key) key (pcache_key_hash key) (tag_of (pcache_key_hash key)) = Some (w, i)"
      "the (slots (chains ht ! key_idx ht key ! w) ! i) = old" "ht_lookup ht key = Some old"
      "hrec_ok old" "r_key old = key"
      "\<And>r x. r_key r = key \<Longrightarrow> hrec_ok r \<Longrightarrow> r_expires r \<in> {0, x, r_expires old} \<Longrightarrow>
         becomes ht key (Some r) (hint_update (key_idx ht key) x
           (put_chain (key_idx ht key) (chain_set (chains ht ! key_idx ht key) w i r) ht))"
proof -
  obtain R where R: "ht_rep ht R" using assms by (auto simp: ht_inv_def)
  let ?idx = "key_idx ht key" and ?h = "pcache_key_hash key"
  show thesis
  proof (cases "chain_find (chains ht ! ?idx) key ?h (tag_of ?h)")
    case None
    then show ?thesis using rep_find_None [OF R None] R absent by blast
  next
    case (Some wi)
    obtain w i where wi: "wi = (w, i)" by (cases wi)
    from rep_find_Some [OF R Some [unfolded wi]] obtain p where p: "p < length (R ! ?idx)"
      "the (slots (chains ht ! ?idx ! w) ! i) = R ! ?idx ! p"
      "r_key (R ! ?idx ! p) = key" "ht_lookup ht key = Some (R ! ?idx ! p)"
      "\<And>r. r_hash r = ?h \<Longrightarrow> chain_set (chains ht ! ?idx) w i r = layout ((R ! ?idx)[p := r])"
      by metis
    show ?thesis
    proof (rule found [OF Some [unfolded wi] p(2,4) rep_record_ok [OF R p(1)] p(3)])
      fix r x
      assume a: "r_key r = key" "hrec_ok r" "r_expires r \<in> {0, x, r_expires (R ! ?idx ! p)}"
      have "r_hash r = ?h" using a by (simp add: hrec_ok_def)
      then show "becomes ht key (Some r) (hint_update ?idx x (put_chain ?idx (chain_set (chains ht ! ?idx) w i r) ht))"
        using step_replace [OF R p(1,3) a(1,2), of x] a(3) p(5) by auto
    qed
  qed
qed

lemma setver_here_spec:
  assumes "ht_inv ht" "setver_here key ver ht = (rc, ht')"
  shows "becomes ht key (map_option (\<lambda>r. r\<lparr>r_ver := ver\<rparr>) (ht_lookup ht key)) ht'"
    "rc = (if ht_lookup ht key = None then 0 else 1)"
proof -
  have "becomes ht key (map_option (\<lambda>r. r\<lparr>r_ver := ver\<rparr>) (ht_lookup ht key)) ht' \<and>
    rc = (if ht_lookup ht key = None then 0 else 1)"
  proof (cases rule: found_cases [OF assms(1), of key])
    case (1 R)
    then show ?thesis using assms by (auto simp: setver_here_def intro: becomes_refl)
  next
    case (2 w i old)
    have "hint_update (key_idx ht key) 0 h = h" for h by (simp add: hint_update_def)
    moreover have "hrec_ok (old\<lparr>r_ver := ver\<rparr>)" using 2(4) by (simp add: hrec_ok_def)
    ultimately show ?thesis using assms(2) 2(1-3,5) 2(6) [of "old\<lparr>r_ver := ver\<rparr>" 0]
      by (auto simp: setver_here_def Let_def)
  qed
  then show "becomes ht key (map_option (\<lambda>r. r\<lparr>r_ver := ver\<rparr>) (ht_lookup ht key)) ht'"
    "rc = (if ht_lookup ht key = None then 0 else 1)" by auto
qed

text \<open>What a touch makes of a record: a new deadline, the shortened mark, perhaps the passive
  mark off, and a version of its own.\<close>

definition touched :: "env \<Rightarrow> u32 \<Rightarrow> bool \<Rightarrow> u64 \<Rightarrow> hrec \<Rightarrow> hrec" where
  "touched e ex adopt v r =
    (let fl = r_flags r OR shortened_fl (e_now e) r ex
     in r\<lparr>r_flags := (if adopt then fl AND NOT PCACHE_F_PASSIVE else fl),
          r_expires := ex, r_wtick := e_now e, r_ver := v\<rparr>)"

lemma and_not_idem: "(f :: u8) AND m = 0 \<Longrightarrow> f AND NOT m = f"
  by (metis bit.conj_disj_distrib bit.conj_one_right bit.disj_cancel_right or.left_neutral)

lemma touch_here_spec:
  assumes "ht_inv ht" "touch_here e key ex adopt s ht = (rc, was, s', ht')"
  shows "case ht_lookup ht key of
      None \<Rightarrow> rc = 0 \<and> \<not> was \<and> s' = s \<and> ht' = ht
    | Some r \<Rightarrow> rc = 1 \<and> (was \<longleftrightarrow> adopt \<and> (r_flags r OR shortened_fl (e_now e) r ex) AND PCACHE_F_PASSIVE \<noteq> 0) \<and>
        last_ver s' = snd (ver_local (Some r) s) \<and>
        becomes ht key (Some (touched e ex adopt (last_ver s') r)) ht'"
proof (cases rule: found_cases [OF assms(1), of key])
  case (1 R)
  then show ?thesis using assms by (auto simp: touch_here_def)
next
  case (2 w i old)
  let ?v = "snd (ver_local (Some old) s)"
  let ?r = "touched e ex adopt ?v old"
  define x where "x = old\<lparr>r_flags := r_flags old OR shortened_fl (e_now e) old ex, r_expires := ex\<rparr>"
  let ?was = "adopt \<and> r_flags x AND PCACHE_F_PASSIVE \<noteq> 0"
  define y where "y = (if ?was then x\<lparr>r_flags := r_flags x AND NOT PCACHE_F_PASSIVE\<rparr> else x)\<lparr>r_wtick := e_now e\<rparr>"
  have vl: "ver_local (Some y) s = ver_local (Some old) s" by (rule ver_local_cong) (simp add: y_def x_def)
  have y: "y\<lparr>r_ver := ?v\<rparr> = ?r" by (simp add: y_def x_def touched_def Let_def and_not_idem)
  have run: "touch_here e key ex adopt s ht = (case ver_local (Some y) s of (s, v) \<Rightarrow>
     (1, ?was, s\<lparr>last_ver := v\<rparr>, hint_update (key_idx ht key) ex
        (put_chain (key_idx ht key) (chain_set (chains ht ! key_idx ht key) w i (y\<lparr>r_ver := v\<rparr>)) ht)))"
    using 2(1,2) unfolding touch_here_def Let_def y_def x_def by simp
  have "hrec_ok ?r" "r_key ?r = key" using 2(4,5) by (simp_all add: touched_def hrec_ok_def Let_def)
  then have b: "becomes ht key (Some ?r) (hint_update (key_idx ht key) ex
      (put_chain (key_idx ht key) (chain_set (chains ht ! key_idx ht key) w i ?r) ht))"
    by (intro 2(6)) (simp_all add: touched_def Let_def)
  have "rc = 1" "was \<longleftrightarrow> ?was" "last_ver s' = ?v" "becomes ht key (Some ?r) ht'"
    using assms(2) b y unfolding run vl by (auto split: prod.splits)
  then show ?thesis using 2(3) by (simp add: x_def)
qed

lemma getver_one_spec:
  assumes "ht_inv ht"
  shows "getver_one now key ht =
    (case ht_lookup ht key of None \<Rightarrow> None
     | Some r \<Rightarrow> if r_expires r = 0 \<or> now < r_expires r then Some (r_ver r, r_wtick r) else None)"
proof (cases rule: found_cases [OF assms(1), of key])
  case (1 R)
  then show ?thesis by (simp add: getver_one_def)
next
  case (2 w i old)
  then show ?thesis by (simp add: getver_one_def Let_def)
qed

section \<open>Accumulate\<close>

text \<open>The number a record stands for: the native counter, or the strict decimal of a string.\<close>

definition counter_of :: "hrec \<Rightarrow> u64 option" where
  "counter_of r = (if r_flags r AND PCACHE_F_INT \<noteq> 0 then Some (pc_g64 (r_val r) 0)
     else pcache_str2ll (r_val r))"

text \<open>The deadline an accumulate leaves.\<close>

definition add_expires :: "u32 \<Rightarrow> hrec option \<Rightarrow> u32" where
  "add_expires ex old = (if ex = PCACHE_EXP_PRESERVE then (case old of None \<Rightarrow> 0 | Some r \<Rightarrow> r_expires r) else ex)"

lemma or_and_keep: "(f :: u8) AND m \<noteq> 0 \<Longrightarrow> (f OR g) AND m \<noteq> 0"
  by (metis bit.conj_disj_distrib2 or_eq_0_iff)

lemma int_not_passive: "(f :: u8) AND PCACHE_F_INT \<noteq> 0 \<Longrightarrow> (f AND NOT PCACHE_F_PASSIVE) AND PCACHE_F_INT \<noteq> 0"
proof -
  have "NOT PCACHE_F_PASSIVE AND PCACHE_F_INT = PCACHE_F_INT"
    by (simp add: PCACHE_F_PASSIVE_def PCACHE_F_INT_def)
  then show "f AND PCACHE_F_INT \<noteq> 0 \<Longrightarrow> (f AND NOT PCACHE_F_PASSIVE) AND PCACHE_F_INT \<noteq> 0"
    by (simp add: and.assoc)
qed

lemma becomes_count:
  "becomes ht key v h \<Longrightarrow> becomes ht key v (count_store c False h)"
  by (erule becomes_same) simp_all

lemma add_over_spec:
  assumes "hrec_ok r" "r_key r = key" "hrec_ok nr" "r_key nr = key" "r_flags nr = PCACHE_F_INT"
    "length (r_val nr) = 8" "r_expires nr = (if keep then 0 else ex)"
    "r_flags r AND PCACHE_F_INT \<noteq> 0 \<longrightarrow> length (r_val r) = 8"
    "\<And>q x. r_key q = key \<Longrightarrow> hrec_ok q \<Longrightarrow> r_expires q \<in> {0, x, r_expires r} \<Longrightarrow>
         becomes ht key (Some q) (hint_update idx x (put_chain idx (chain_set (chains ht ! idx) w i q) ht))"
    "add_over e delta (if keep then 0 else ex) keep nr idx w i r s ht = (res, s', ht')"
  shows "case counter_of r of
      None \<Rightarrow> res = None \<and> s' = s \<and> ht' = ht
    | Some n \<Rightarrow> res = Some (n + delta, if keep then r_expires r else ex) \<and>
        last_ver s' = snd (ver_local (Some r) s) \<and>
        (\<exists>q. becomes ht key (Some q) ht' \<and> r_val q = le64 (n + delta) \<and> r_flags q AND PCACHE_F_INT \<noteq> 0 \<and>
           r_expires q = (if keep then r_expires r else ex) \<and> r_ver q = last_ver s')"
proof (cases "r_flags r AND PCACHE_F_INT \<noteq> 0")
  case True
  let ?n = "pc_g64 (r_val r) 0" and ?v = "snd (ver_local (Some r) s)"
  let ?eff = "if keep then r_expires r else ex"
  define x where "x = r\<lparr>r_val := blit (r_val r) 0 (le64 (?n + delta))\<rparr>"
  define y where "y = (if keep then x
     else x\<lparr>r_flags := r_flags x OR shortened_fl (e_now e) x ex, r_expires := ex\<rparr>)"
  define q where "q = y\<lparr>r_wtick := e_now e, r_ver := ?v, r_flags := r_flags y AND NOT PCACHE_F_PASSIVE\<rparr>"
  have val: "blit (r_val r) 0 (le64 (?n + delta)) = le64 (?n + delta)"
    using True assms(8) by (simp add: blit_whole)
  have len: "length (r_val r) = 8" using True assms(8) by simp
  have q: "r_key q = key" "r_val q = le64 (?n + delta)" "r_expires q = ?eff" "r_ver q = ?v"
    using assms(2) val by (simp_all add: q_def y_def x_def)
  have "hrec_ok q" using assms(1,2) val len by (simp add: q_def y_def x_def hrec_ok_def rec_size_def)
  have fl: "r_flags q AND PCACHE_F_INT \<noteq> 0"
    using True by (auto simp: q_def y_def x_def intro!: int_not_passive or_and_keep)
  have res: "res = Some (?n + delta, ?eff)" "last_ver s' = ?v"
    "ht' = count_store ?eff False (hint_update idx ?eff (put_chain idx (chain_set (chains ht ! idx) w i q) ht))"
    using assms(10) True
    by (auto simp: add_over_def Let_def q_def y_def x_def split: prod.splits)
  have "becomes ht key (Some q) ht'"
    unfolding res(3) using q \<open>hrec_ok q\<close> by (intro becomes_count assms(9)) auto
  then show ?thesis using True res q fl by (auto simp: counter_of_def)
next
  case False
  show ?thesis
  proof (cases "pcache_str2ll (r_val r)")
    case None
    then show ?thesis using assms(10) False by (auto simp: add_over_def Let_def counter_of_def)
  next
    case (Some n)
    let ?v = "snd (ver_local (Some r) s)" and ?eff = "if keep then r_expires r else ex"
    define q where "q = nr\<lparr>r_val := le64 (n + delta), r_expires := ?eff,
      r_flags := r_flags nr OR shortened_fl (e_now e) r ?eff, r_ver := ?v\<rparr>"
    have res: "res = Some (n + delta, ?eff)" "last_ver s' = ?v"
      "ht' = count_store ?eff False (hint_update idx ?eff (put_chain idx (chain_set (chains ht ! idx) w i q) ht))"
      using assms(7,10) False Some
      by (auto simp: add_over_def Let_def q_def split: prod.splits if_splits)
    have q: "r_key q = key" "r_val q = le64 (n + delta)" "r_expires q = ?eff" "r_ver q = ?v"
      using assms(4) by (simp_all add: q_def)
    have ok: "hrec_ok q" using assms(3,4,6) by (simp add: q_def hrec_ok_def rec_size_def)
    have fl: "r_flags q AND PCACHE_F_INT \<noteq> 0"
      using assms(5) by (auto simp: q_def PCACHE_F_INT_def intro!: or_and_keep)
    have "becomes ht key (Some q) ht'"
      unfolding res(3) using q ok by (intro becomes_count assms(9)) auto
    then show ?thesis using False Some res q fl by (auto simp: counter_of_def)
  qed
qed

lemma add_new_spec:
  assumes "ht_rep ht R" "\<forall>q \<in> set (R ! key_idx ht key). r_key q \<noteq> key" "hrec_ok nr" "r_key nr = key"
    "r_expires nr = ex" "add_new e delta ex nr (key_idx ht key) s ht = (res, s', ht')"
  shows "(case res of None \<Rightarrow> s' = s \<and> ht' = ht \<and> \<not> e_carve e
    | Some x \<Rightarrow> x = (delta, ex) \<and> last_ver s' = snd (ver_local None s) \<and>
        becomes ht key (Some (nr\<lparr>r_ver := last_ver s'\<rparr>)) ht')"
proof -
  let ?idx = "key_idx ht key"
  obtain t n where t: "chain_tail (chains ht ! ?idx) = (t, n)" by fastforce
  let ?get = "if bkt_used (chains ht ! ?idx ! t) = PCACHE_SLOTS
    then pcache_opool_get (e_carve e) (pool ht) else Some (pool ht)"
  show ?thesis
  proof (cases ?get)
    case None
    then have "\<not> e_carve e"
      by (auto simp: pcache_opool_get_def opool_carve_def split: if_splits option.splits)
    then show ?thesis using assms(6) None t by (auto simp: add_new_def split: if_splits)
  next
    case g: (Some p)
    let ?r = "nr\<lparr>r_ver := snd (ver_local None s)\<rparr>"
    let ?ht1 = "hint_update ?idx ex (put_chain ?idx
      (fst (chain_put (chains ht ! ?idx) ?r (tag_of (r_hash ?r)) zero_bkt)) (ht\<lparr>pool := p\<rparr>))"
    have res: "res = Some (delta, ex)" "ht' = count_store ex True (if n \<ge> PCACHE_SLOTS
        then ?ht1\<lparr>chained := chained ?ht1 + (chained_of (n + 1) - chained_of n)\<rparr> else ?ht1)"
      "last_ver s' = snd (ver_local None s)"
      using assms(6) g t
      by (auto simp: add_new_def Let_def split: prod.splits if_splits)
    have "hrec_ok ?r" using assms(3) by (simp add: hrec_ok_def)
    then have "becomes ht key (Some ?r) ht'"
      using assms(4,5) by (intro link_becomes [OF assms(1,2) _ _ _ t g refl res(2)]) auto
    then show ?thesis using res by auto
  qed
qed

lemma add_here_spec:
  assumes "ht_inv ht" "env_ok e" "add_here e key delta ex s ht = (res, s', ht')"
    "\<And>r. ht_lookup ht key = Some r \<Longrightarrow> r_flags r AND PCACHE_F_INT \<noteq> 0 \<Longrightarrow> length (r_val r) = 8"
  shows "case res of
      None \<Rightarrow> s' = s \<and> ht' = ht \<and> (\<not> length key \<le> 0xFFFF \<or> e_cell e (PCACHE_REC_HDR + length key + 8) = None \<or>
        (case ht_lookup ht key of None \<Rightarrow> \<not> e_carve e | Some r \<Rightarrow> counter_of r = None))
    | Some (n, eff) \<Rightarrow>
        (case ht_lookup ht key of None \<Rightarrow> n = delta | Some r \<Rightarrow> (\<exists>m. counter_of r = Some m \<and> n = m + delta)) \<and>
        eff = add_expires ex (ht_lookup ht key) \<and>
        last_ver s' = snd (ver_local (ht_lookup ht key) s) \<and>
        (\<exists>q. becomes ht key (Some q) ht' \<and> r_val q = le64 n \<and> r_flags q AND PCACHE_F_INT \<noteq> 0 \<and>
           r_expires q = eff \<and> r_ver q = last_ver s')"
proof -
  let ?idx = "key_idx ht key" and ?h = "pcache_key_hash key" and ?keep = "ex = PCACHE_EXP_PRESERVE"
  let ?ex = "if ?keep then 0 else ex"
  show ?thesis
  proof (cases "length key \<le> 0xFFFF \<and> e_cell e (PCACHE_REC_HDR + length key + 8) \<noteq> None")
    case False
    then show ?thesis using assms(3) by (auto simp: add_here_def Let_def split: if_splits option.splits)
  next
    case True
    then obtain cell where cell: "e_cell e (PCACHE_REC_HDR + length key + 8) = Some cell" by blast
    define nr where "nr = \<lparr>r_flags = PCACHE_F_INT, r_key = key, r_val = le64 delta, r_expires = ?ex,
                        r_hash = ?h, r_ver = 0, r_wtick = e_now e, r_cell = cell\<rparr>"
    have nr: "hrec_ok nr" "r_key nr = key" "r_flags nr = PCACHE_F_INT" "length (r_val nr) = 8"
      "r_expires nr = ?ex" "r_val nr = le64 delta"
      using True cell assms(2)
      by (auto simp: nr_def hrec_ok_def rec_size_def env_ok_def PCACHE_REC_HDR_def PCACHE_CELL_MAX_def)
    have body: "(case chain_find (chains ht ! ?idx) key ?h (tag_of ?h) of
                   Some (w, i) \<Rightarrow> add_over e delta ?ex ?keep nr ?idx w i (the (slots (chains ht ! ?idx ! w) ! i)) s ht
                 | None \<Rightarrow> add_new e delta ?ex nr ?idx s ht) = (res, s', ht')"
      using assms(3) True cell unfolding add_here_def Let_def nr_def by (auto simp: not_less)
    show ?thesis
    proof (cases rule: found_cases [OF assms(1), of key])
      case (1 R)
      have "add_new e delta ?ex nr ?idx s ht = (res, s', ht')" using body 1(2) by simp
      from add_new_spec [OF 1(1,4) nr(1,2,5) this] show ?thesis
        using 1(3) nr(3,5,6)
        by (auto simp: add_expires_def PCACHE_F_INT_def split: option.splits intro!: exI [of _ "nr\<lparr>r_ver := last_ver s'\<rparr>"])
    next
      case (2 w i old)
      have "add_over e delta ?ex ?keep nr ?idx w i old s ht = (res, s', ht')" using body 2(1,2) by simp
      from add_over_spec [OF 2(4,5) nr(1-5) _ 2(6) this] assms(4) [OF 2(3)] show ?thesis
        using 2(3) by (auto simp: add_expires_def split: option.splits)
    qed
  qed
qed

end
