(* ===== verification/Htable_Read.thy ===== *)
theory Htable_Read
  imports Htable_Ops
begin

text \<open>
  The lock-free read path of the table.  The byte-parallel tag comparison never misses
  a slot whose tag is equal, whatever borrows the subtraction makes; so the scan of a chain
  finds exactly the record the writers' slot-by-slot search finds.
\<close>

section \<open>Bytes of a word\<close>

lemma byte_borrow:
  fixes X K :: int
  assumes "K div 2 ^ p mod 256 = 1" "X div 2 ^ p mod 256 = 0"
  shows "odd ((X - K) div 2 ^ (p + 7))"
proof -
  define H where "H = X div 2 ^ p div 256"
  define J where "J = K div 2 ^ p div 256"
  define m where "m = X mod 2 ^ p - K mod 2 ^ p - 2 ^ p"
  have "X div 2 ^ p = 256 * H" "K div 2 ^ p = 256 * J + 1"
    using assms mult_div_mod_eq [of 256 "X div 2 ^ p"] mult_div_mod_eq [of 256 "K div 2 ^ p"]
    unfolding H_def J_def by linarith+
  then have X: "X = 256 * H * 2 ^ p + X mod 2 ^ p" and K: "K = (256 * J + 1) * 2 ^ p + K mod 2 ^ p"
    using div_mult_mod_eq [of X "2 ^ p"] div_mult_mod_eq [of K "2 ^ p"] by simp_all
  have "(2 :: int) ^ (p + 7) = 128 * 2 ^ p" by (simp add: power_add)
  then have eq: "X - K = m + (2 * (H - J)) * 2 ^ (p + 7)"
    using X K unfolding m_def by (simp add: left_diff_distrib right_diff_distrib distrib_right)
  have "0 \<le> X mod 2 ^ p" "X mod 2 ^ p < 2 ^ p" "0 \<le> K mod 2 ^ p" "K mod 2 ^ p < 2 ^ p" by simp_all
  moreover have "(2 :: int) ^ (p + 7) = 128 * 2 ^ p" by (simp add: power_add)
  ultimately have "- (2 ^ (p + 7)) \<le> m" "m < 0" unfolding m_def by linarith+
  then have "(m + 2 ^ (p + 7)) div 2 ^ (p + 7) = 0" by (intro div_pos_pos_trivial) linarith+
  then have "m div 2 ^ (p + 7) = -1" unfolding div_add_self2 [OF power_not_zero [OF zero_neq_numeral [symmetric]]] by linarith
  then have "(X - K) div 2 ^ (p + 7) = 2 * (H - J) - 1" unfolding eq by simp
  then show ?thesis by simp
qed

definition byte_at :: "u64 \<Rightarrow> nat \<Rightarrow> u8" where
  "byte_at w i = ucast (drop_bit (8 * i) w)"

lemma byte_at_xor: "byte_at (v XOR w) i = byte_at v i XOR byte_at w i"
  by (rule bit_word_eqI) (auto simp: byte_at_def bit_simps)

lemma unat_byte_at: "unat (byte_at w i) = unat w div 2 ^ (8 * i) mod 256"
  by (simp add: byte_at_def unsigned_ucast_eq take_bit_eq_mod unat_shiftr)

lemma uint_byte_at: "uint (byte_at w i) = uint w div 2 ^ (8 * i) mod 256"
  using arg_cong [OF unat_byte_at [of w i], of int] by (simp add: zdiv_int zmod_int)

lemma byte_at_le64: "map (byte_at v) [0, 1, 2, 3, 4, 5, 6, 7] = le64 v"
  by (simp add: byte_at_def le64_def le32_def le16_def)
    (intro conjI bit_word_eqI; simp add: bit_simps)

lemma byte_at_nth: "i < 8 \<Longrightarrow> byte_at v i = le64 v ! i"
proof -
  assume i: "i < 8"
  then have "[0, 1, 2, 3, 4, 5, 6, 7] ! i = i"
    by (cases i rule: nat.exhaust) (auto simp: nth_Cons' numeral_eq_Suc split: nat.splits)
  then show ?thesis unfolding byte_at_le64 [symmetric] using i by (subst nth_map) simp_all
qed

lemma less_6_cases: "i < 6 \<Longrightarrow> i = 0 \<or> i = 1 \<or> i = 2 \<or> i = 3 \<or> i = 4 \<or> i = (5 :: nat)"
  by arith

section \<open>The byte-parallel comparison\<close>

lemma spread_byte:
  fixes K L J t P :: nat
  assumes "K = 256 * J * P + P + L" "255 * L < P" "t < 256"
  shows "K * t div P mod 256 = t"
proof -
  have "L * t \<le> L * 255" using assms(3) by (intro mult_le_mono) auto
  then have lt: "L * t < P" using assms(2) by linarith
  have "K * t = L * t + (256 * J * t + t) * P" using assms(1) by (simp add: algebra_simps)
  then have "K * t div P = 256 * (J * t) + t" using lt by simp
  then show ?thesis using assms(3) by simp
qed

lemma byte_at_spread:
  assumes "i < 6"
  shows "byte_at (0x0101010101010101 * ucast tag) i = (tag :: u8)"
proof -
  have t: "unat tag < 256" using unsigned_less [of tag, where 'a = nat] by simp
  have u: "unat (0x0101010101010101 * ucast tag :: u64) = 0x0101010101010101 * unat tag"
    using t by (subst unat_mult_small) (simp_all add: unat_ucast_up)
  have "0x0101010101010101 * unat tag div 2 ^ (8 * i) mod 256 = unat tag"
    using less_6_cases [OF assms]
  proof (elim disjE)
    assume "i = 0" then show ?thesis using t by (intro spread_byte [where J = "0x01010101010101" and L = "0"]) simp_all
  next
    assume "i = 1" then show ?thesis using t by (intro spread_byte [where J = "0x010101010101" and L = "1"]) simp_all
  next
    assume "i = 2" then show ?thesis using t by (intro spread_byte [where J = "0x0101010101" and L = "0x0101"]) simp_all
  next
    assume "i = 3" then show ?thesis using t by (intro spread_byte [where J = "0x01010101" and L = "0x010101"]) simp_all
  next
    assume "i = 4" then show ?thesis using t by (intro spread_byte [where J = "0x010101" and L = "0x01010101"]) simp_all
  next
    assume "i = 5" then show ?thesis using t by (intro spread_byte [where J = "0x0101" and L = "0x0101010101"]) simp_all
  qed
  then have "unat (byte_at (0x0101010101010101 * ucast tag) i) = unat tag"
    unfolding unat_byte_at u .
  then show ?thesis by (simp add: word_unat_eq_iff)
qed

lemma ones_byte: "i < 6 \<Longrightarrow> (0x0101010101010101 :: int) div 2 ^ (8 * i) mod 256 = 1"
  by (drule less_6_cases) (elim disjE; simp)

lemma high_bits: "i < 6 \<Longrightarrow> bit (0x0000808080808080 :: u64) (8 * i + 7)"
  by (drule less_6_cases) (elim disjE; simp)

lemma sub_ones_bit:
  assumes "byte_at x i = 0" "i < 6"
  shows "bit (x - 0x0101010101010101) (8 * i + 7)"
proof -
  have "uint x div 2 ^ (8 * i) mod 256 = 0" using assms(1) uint_byte_at [of x i] by simp
  then have o: "odd ((uint x - 0x0101010101010101) div 2 ^ (8 * i + 7))"
    using ones_byte [OF assms(2)] by (rule byte_borrow [rotated])
  have "x - 0x0101010101010101 = word_of_int (uint x - 0x0101010101010101)" by simp
  then show ?thesis using o assms(2) by (simp only: bit_word_of_int_iff) (simp add: bit_iff_odd)
qed

lemma not_bit_of_zero_byte: "byte_at x i = 0 \<Longrightarrow> \<not> bit x (8 * i + 7)"
proof -
  assume "byte_at x i = 0"
  then have "\<not> bit (byte_at x i) 7" by simp
  then show ?thesis by (simp add: byte_at_def bit_simps)
qed

lemma tag_byte:
  assumes "length (tags b) = 6" "i < 6"
  shows "byte_at (tag_word b) i = tags b ! i"
proof -
  have "le64 (tag_word b) = window (tags b @ le16 (meta b)) 0 8"
    unfolding tag_word_def using assms(1) by (intro f64.enc_get) simp
  also have "\<dots> = tags b @ le16 (meta b)" using assms(1) by (simp add: window_def)
  finally show ?thesis using assms by (simp add: byte_at_nth nth_append)
qed

lemma tag_matches_hits:
  assumes "length (tags b) = 6" "i < 6" "tags b ! i = tag"
  shows "bit (tag_matches b tag) (8 * i + 7)"
proof -
  let ?x = "tag_word b XOR (0x0101010101010101 * ucast tag)"
  have "byte_at ?x i = 0"
    using assms by (simp add: byte_at_xor tag_byte byte_at_spread)
  then show ?thesis
    unfolding tag_matches_def Let_def bit_and_iff
    using sub_ones_bit [of ?x i] not_bit_of_zero_byte [of ?x i] high_bits [of i] assms(2)
    by (simp add: bit_not_iff)
qed

section \<open>The scan of a chain\<close>

lemma scan_slots_None:
  "(\<And>i r. i \<in> set is \<Longrightarrow> slots b ! i = Some r \<Longrightarrow> \<not> scan_candidate key hash r) \<Longrightarrow>
   scan_slots b key hash is = None"
  by (induction "is") (auto split: option.splits)

lemma scan_slots_Some:
  assumes "j \<in> set is" "slots b ! j = Some r" "scan_candidate key hash r"
    "\<And>i q. i \<in> set is \<Longrightarrow> slots b ! i = Some q \<Longrightarrow> scan_candidate key hash q \<Longrightarrow> q = r"
  shows "scan_slots b key hash is = Some (copy_out r)"
  using assms(1,4)
proof (induction "is")
  case (Cons i js)
  show ?case
  proof (cases "\<exists>q. slots b ! i = Some q \<and> scan_candidate key hash q")
    case True
    then obtain q where "slots b ! i = Some q" "scan_candidate key hash q" by blast
    moreover from this have "q = r" by (intro Cons.prems(2) [of i]) simp_all
    ultimately show ?thesis by simp
  next
    case False
    then have "j \<in> set js" using Cons.prems(1) assms(2,3) by auto
    then have "scan_slots b key hash js = Some (copy_out r)"
      using Cons.prems(2) by (intro Cons.IH) auto
    with False show ?thesis by (auto split: option.splits)
  qed
qed simp

definition recs_ok :: "hrec list \<Rightarrow> bool" where
  "recs_ok rs \<longleftrightarrow> distinct (map r_key rs) \<and> (\<forall>r \<in> set rs. hrec_ok r)"

lemma candidate_iff:
  "hrec_ok r \<Longrightarrow> scan_candidate key (pcache_key_hash key) r \<longleftrightarrow> r_key r = key"
  by (auto simp: scan_candidate_def hrec_ok_def rec_size_def)

lemma scan_bucket_mk:
  assumes "length rs \<le> 6" "recs_ok rs"
  shows "scan_bucket (mk_bkt rs lk) key (pcache_key_hash key) (tag_of (pcache_key_hash key)) =
    map_option copy_out (kmap rs key)"
proof -
  let ?b = "mk_bkt rs lk" and ?h = "pcache_key_hash key"
  let ?is = "filter (\<lambda>i. bit (tag_matches ?b (tag_of ?h)) (8 * i + 7)) [0 ..< 6]"
  have d: "distinct (map r_key rs)" and ok: "\<And>r. r \<in> set rs \<Longrightarrow> hrec_ok r"
    using assms(2) by (auto simp: recs_ok_def)
  have sl: "slots ?b ! i = Some r \<Longrightarrow> i < 6 \<Longrightarrow> r \<in> set rs" for i r
    using assms(1) by (auto simp: nth_append split: if_splits)
  show ?thesis
  proof (cases "kmap rs key")
    case None
    then have "\<forall>r \<in> set rs. r_key r \<noteq> key" by (simp add: kmap_None)
    then have "\<not> scan_candidate key ?h r" if "i \<in> set ?is" "slots ?b ! i = Some r" for i r
      using that(1) sl [OF that(2)] ok candidate_iff by simp
    then have "scan_slots ?b key ?h ?is = None" by (rule scan_slots_None)
    then show ?thesis by (simp only: scan_bucket_def Let_def None option.map)
  next
    case (Some r)
    then have r: "r \<in> set rs" "r_key r = key" by (simp_all add: kmap_iff [OF d])
    obtain j where j: "j < length rs" "rs ! j = r" using r(1) by (auto simp: in_set_conv_nth)
    have h: "r_hash r = ?h" using ok [OF r(1)] r(2) by (simp add: hrec_ok_def)
    have "bit (tag_matches ?b (tag_of ?h)) (8 * j + 7)"
      using j assms(1) h by (intro tag_matches_hits) (auto simp: nth_append)
    then have "j \<in> set ?is" using j assms(1) by simp
    moreover have "slots ?b ! j = Some r" using j by (simp add: nth_append)
    moreover have "scan_candidate key ?h r" using r ok by (simp add: candidate_iff)
    moreover have "q = r" if "i \<in> set ?is" "slots ?b ! i = Some q" "scan_candidate key ?h q" for i q
    proof -
      have q: "q \<in> set rs" using sl [OF that(2)] that(1) by simp
      then have "r_key q = key" using that(3) ok by (simp add: candidate_iff)
      then have "kmap rs key = Some q" using q by (simp add: kmap_iff [OF d])
      then show "q = r" using Some by simp
    qed
    ultimately have "scan_slots ?b key ?h ?is = Some (copy_out r)" by (rule scan_slots_Some)
    then show ?thesis by (simp only: scan_bucket_def Let_def Some option.map)
  qed
qed

lemma kmap_append_case: "kmap (xs @ ys) k = (case kmap xs k of None \<Rightarrow> kmap ys k | Some r \<Rightarrow> Some r)"
  by (induction xs) (auto simp: kmap_def)

lemma scan_chain_recs:
  assumes "\<forall>b \<in> set ch. \<exists>rs lk. b = mk_bkt rs lk \<and> length rs \<le> 6 \<and> recs_ok rs"
  shows "scan_chain ch key (pcache_key_hash key) (tag_of (pcache_key_hash key)) =
    map_option copy_out (kmap (chain_recs ch) key)"
  using assms
proof (induction ch)
  case Nil
  then show ?case by (simp add: kmap_def)
next
  case (Cons b bs)
  then obtain rs lk where b: "b = mk_bkt rs lk" "length rs \<le> 6" "recs_ok rs" by auto
  have "chain_recs (b # bs) = rs @ (if lk then chain_recs bs else [])" using b by (simp add: o_def)
  moreover have "kmap [] key = None" by (simp add: kmap_def)
  ultimately show ?case
    using Cons b by (auto simp: scan_bucket_mk kmap_append_case split: option.splits)
qed

lemma seg_sub: "set (seg rs j) \<subseteq> set rs" "distinct (map r_key rs) \<Longrightarrow> distinct (map r_key (seg rs j))"
  by (auto simp: seg_def take_map [symmetric] drop_map [symmetric] dest: in_set_takeD in_set_dropD)

lemma layout_buckets_ok:
  assumes "recs_ok rs"
  shows "\<forall>b \<in> set (layout rs). \<exists>rs lk. b = mk_bkt rs lk \<and> length rs \<le> 6 \<and> recs_ok rs"
proof
  fix b assume "b \<in> set (layout rs)"
  then obtain j where "j \<le> nover (length rs)" "b = layout rs ! j"
    by (auto simp: in_set_conv_nth less_Suc_eq_le)
  then have "b = mk_bkt (seg rs j) (j < nover (length rs))" by (simp add: layout_nth)
  moreover have "recs_ok (seg rs j)" using assms seg_sub [of rs j] by (auto simp: recs_ok_def)
  ultimately show "\<exists>rs lk. b = mk_bkt rs lk \<and> length rs \<le> 6 \<and> recs_ok rs" using length_seg_le by blast
qed

lemma scan_chain_lookup:
  assumes "ht_inv ht"
  shows "scan_chain (chains ht ! key_idx ht key) key (pcache_key_hash key) (tag_of (pcache_key_hash key)) =
    map_option copy_out (ht_lookup ht key)"
proof -
  obtain R where R: "ht_rep ht R" using assms by (auto simp: ht_inv_def)
  let ?idx = "key_idx ht key"
  have idx: "?idx < length R" using R by (rule rep_idx)
  have "recs_ok (R ! ?idx)"
    using rep_bucket [OF R idx] by (auto simp: bucket_ok_def recs_ok_def)
  then show ?thesis
    unfolding ht_lookup_def rep_chain [OF R idx] by (intro scan_chain_recs layout_buckets_ok)
qed

lemma copy_out_whole:
  "hrec_ok r \<Longrightarrow> copy_out r = \<lparr>h_val = r_val r, h_vlen = length (r_val r), h_exp = r_expires r,
     h_fl = r_flags r, h_ver = r_ver r\<rparr>"
proof -
  assume "hrec_ok r"
  then have "length (r_val r) \<le> r_cell r - PCACHE_REC_HDR - length (r_key r)"
    unfolding hrec_ok_def rec_size_def by linarith
  then show ?thesis by (simp add: copy_out_def Let_def)
qed

text \<open>A read as a function of the map alone.\<close>

definition live :: "u32 \<Rightarrow> hrec \<Rightarrow> bool" where
  "live now r \<longleftrightarrow> r_expires r = 0 \<or> now < r_expires r"

definition read_rec :: "hrec \<Rightarrow> hit" where
  "read_rec r = \<lparr>h_val = r_val r, h_vlen = length (r_val r), h_exp = r_expires r, h_fl = r_flags r, h_ver = r_ver r\<rparr>"

definition fetch_spec :: "u32 \<Rightarrow> nat option \<Rightarrow> hrec option \<Rightarrow> fetched" where
  "fetch_spec now cap old =
    (case old of None \<Rightarrow> Miss
     | Some r \<Rightarrow>
        if \<not> live now r then Miss
        else if (case cap of None \<Rightarrow> False | Some n \<Rightarrow> n < length (r_val r)) then TooSmall (read_rec r)
        else if r_flags r AND PCACHE_F_INT \<noteq> 0 \<and> length (r_val r) = 8
          then Counter (read_rec r) (if cap = None then 0 else pc_g64 (r_val r) 0)
        else Hit (read_rec r))"

lemma fetch_core_spec:
  assumes "ht_inv ht"
  shows "fetch_core now key cap ht =
    (fetch_spec now cap (ht_lookup ht key),
     if fetch_spec now cap (ht_lookup ht key) = Miss then ht\<lparr>st_misses := st_misses ht + 1\<rparr>
     else ht\<lparr>st_hits := st_hits ht + 1\<rparr>)"
proof (cases "ht_lookup ht key")
  case None
  then show ?thesis by (simp add: fetch_core_def fetch_spec_def scan_chain_lookup [OF assms] Let_def)
next
  case (Some r)
  note c = copy_out_whole [OF lookup_ok(1) [OF assms Some]]
  have l: "h_exp (copy_out r) \<noteq> 0 \<and> h_exp (copy_out r) \<le> now \<longleftrightarrow> \<not> live now r"
    by (auto simp: c live_def)
  show ?thesis
  proof (cases "live now r")
    case False
    then show ?thesis using l
      by (simp add: fetch_core_def fetch_spec_def scan_chain_lookup [OF assms] Let_def Some)
  next
    case True
    then show ?thesis using l
      by (cases cap)
        (simp_all add: fetch_core_def fetch_spec_def scan_chain_lookup [OF assms] Let_def Some c read_rec_def)
  qed
qed

end
