(* ===== verification/Htgrow.thy ===== *)
theory Htgrow
  imports Htable_Read
begin

text \<open>
  Growth and maintenance of the table, \<open>src/src/core/pcache_htable.c\<close>: the linear-hash split
  and the loops that call it, the expiry sweep, the constructor and the walk that checks the
  chains.  The split is built from the overflow buckets of the chain it splits; a run
  that would need one more is \<open>None\<close> in the model (a null pointer in the code), and the
  first result below is that it does not happen.  The arena is two predicates: \<open>seg_ok\<close>
  says that the segment of a bucket exists or can be carved, \<open>mem_ok\<close> that the
  scratch for that many records exists or can be allocated.
\<close>

section \<open>Split\<close>

definition min_exp :: "u32 \<Rightarrow> u32 \<Rightarrow> u32" where
  "min_exp m x = (if x \<noteq> 0 \<and> (m = 0 \<or> x < m) then x else m)"

fun take_out :: "bkt list \<Rightarrow> (hrec \<times> u8) list" where
  "take_out [] = []"
| "take_out (b # bs) =
     map (\<lambda>i. (the (slots b ! i), tags b ! i)) [0 ..< bkt_used b] @
     (if bkt_linked b then take_out bs else [])"

fun chain_hops :: "bkt list \<Rightarrow> nat" where
  "chain_hops [] = 0"
| "chain_hops (b # bs) = (if bkt_linked b then Suc (chain_hops bs) else 0)"

definition clear_home :: "bkt \<Rightarrow> bkt" where
  "clear_home b = b\<lparr>tags := replicate PCACHE_SLOTS 0, slots := replicate PCACHE_SLOTS None,
     meta := meta b AND NOT (PCACHE_BKT_USED OR PCACHE_BKT_LINK)\<rparr>"

record splitting =
  sp_S :: "bkt list"
  sp_P :: "bkt list"
  sp_spare :: nat
  sp_sn :: nat
  sp_pn :: nat
  sp_smin :: u32
  sp_pmin :: u32

text \<open>Append at the tail of one half, with a spare bucket when the tail is full.\<close>

definition split_append :: "bkt list \<Rightarrow> nat \<Rightarrow> hrec \<Rightarrow> u8 \<Rightarrow> (bkt list \<times> nat) option" where
  "split_append ch spare r tag =
    (if bkt_used (last ch) = PCACHE_SLOTS then
       (if spare = 0 then None
        else Some (butlast ch @ fst (chain_append (last ch) r tag zero_bkt), spare - 1))
     else Some (butlast ch @ fst (chain_append (last ch) r tag zero_bkt), spare))"

definition split_step :: "nat \<Rightarrow> hrec \<Rightarrow> u8 \<Rightarrow> splitting \<Rightarrow> splitting option" where
  "split_step level r tag st =
    (if bit (r_hash r) level then
       map_option (\<lambda>(ch, sp). st\<lparr>sp_P := ch, sp_spare := sp, sp_pn := sp_pn st + 1,
           sp_pmin := min_exp (sp_pmin st) (r_expires r)\<rparr>)
         (split_append (sp_P st) (sp_spare st) r tag)
     else
       map_option (\<lambda>(ch, sp). st\<lparr>sp_S := ch, sp_spare := sp, sp_sn := sp_sn st + 1,
           sp_smin := min_exp (sp_smin st) (r_expires r)\<rparr>)
         (split_append (sp_S st) (sp_spare st) r tag))"

fun split_all :: "nat \<Rightarrow> (hrec \<times> u8) list \<Rightarrow> splitting \<Rightarrow> splitting option" where
  "split_all level [] st = Some st"
| "split_all level ((r, tag) # xs) st =
     (case split_step level r tag st of None \<Rightarrow> None | Some st \<Rightarrow> split_all level xs st)"

definition next_route :: "nat \<Rightarrow> u32 \<Rightarrow> u64" where
  "next_route level split =
    (if split + 1 = push_bit level 1 then push_bit 32 (of_nat (level + 1))
     else push_bit 32 (of_nat level) OR ucast (split + 1))"

fun pool_puts :: "nat \<Rightarrow> opool \<Rightarrow> opool" where
  "pool_puts 0 p = p"
| "pool_puts (Suc n) p = pool_puts n (pcache_opool_put p)"

definition pcache_ht_split :: "(nat \<Rightarrow> bool) \<Rightarrow> (nat \<Rightarrow> bool) \<Rightarrow> htab \<Rightarrow> (int \<times> htab) option" where
  "pcache_ht_split seg_ok mem_ok ht =
    (let level = route_level (route ht); split = route_split (route ht);
         sidx = unat split; pidx = unat (split + push_bit level 1)
     in if pidx \<ge> 2 ^ PCACHE_MAX_SIZE_LOG2 then Some (0, ht)
        else if \<not> seg_ok pidx then Some (-1, ht)
        else
          let S = chains ht ! sidx; n = snd (chain_tail S) in
          if \<not> mem_ok n then Some (-1, ht)
          else
            (case split_all level (take_out S)
                \<lparr>sp_S = [clear_home (S ! 0)], sp_P = [zero_bkt], sp_spare = chain_hops S,
                 sp_sn = 0, sp_pn = 0, sp_smin = 0, sp_pmin = 0\<rparr> of
              None \<Rightarrow> None
            | Some st \<Rightarrow>
                let dc = chained_of (sp_sn st) + chained_of (sp_pn st) - chained_of n in
                Some (1, ht\<lparr>chains := (chains ht)[sidx := sp_S st] @ [sp_P st],
                            hints := (hints ht)[sidx := sp_smin st] @ [sp_pmin st],
                            chained := (if dc \<noteq> 0 then chained ht + dc else chained ht),
                            route := next_route level split,
                            nbuckets := nbuckets ht + 1,
                            pool := pool_puts (sp_spare st) (pool ht)\<rparr>)))"

section \<open>Growth\<close>

text \<open>The live entries: created less destroyed.\<close>

definition pcache_ht_entries :: "htab \<Rightarrow> nat" where
  "pcache_ht_entries ht = (if st_created ht > st_destroyed ht then st_created ht - st_destroyed ht else 0)"

text \<open>The same gauge as \<open>pcache_ht_totals\<close> fills it: an unsigned 64-bit difference.\<close>

definition totals_entries :: "htab \<Rightarrow> nat" where
  "totals_entries ht = unat (of_nat (st_created ht) - of_nat (st_destroyed ht) :: u64)"

fun grow_loop :: "(htab \<Rightarrow> (int \<times> htab) option) \<Rightarrow> (htab \<Rightarrow> bool) \<Rightarrow> nat \<Rightarrow> htab \<Rightarrow> (nat \<times> htab) option" where
  "grow_loop split want 0 ht = Some (0, ht)"
| "grow_loop split want (Suc b) ht =
     (if want ht then
        (case split ht of
           None \<Rightarrow> None
         | Some (rc, ht') \<Rightarrow>
             if rc \<le> 0 then Some (0, ht')
             else map_option (apfst Suc) (grow_loop split want b ht'))
      else Some (0, ht))"

definition pcache_ht_grow :: "(nat \<Rightarrow> bool) \<Rightarrow> (nat \<Rightarrow> bool) \<Rightarrow> nat \<Rightarrow> nat \<Rightarrow> htab \<Rightarrow> (nat \<times> htab) option" where
  "pcache_ht_grow seg_ok mem_ok target_lf budget ht =
    (if target_lf = 0 then Some (0, ht)
     else let entries = totals_entries ht in
       grow_loop (pcache_ht_split seg_ok mem_ok) (\<lambda>h. entries > target_lf * nbuckets h) budget ht)"

definition pcache_ht_grow_at :: "(nat \<Rightarrow> bool) \<Rightarrow> (nat \<Rightarrow> bool) \<Rightarrow> nat \<Rightarrow> nat \<Rightarrow> htab \<Rightarrow> (nat \<times> htab) option" where
  "pcache_ht_grow_at seg_ok mem_ok pct budget ht =
    (if pct = 0 then Some (0, ht)
     else
       let pct = (if pct > 100 then 100 else pct); entries = totals_entries ht in
       grow_loop (pcache_ht_split seg_ok mem_ok)
         (\<lambda>h. entries * 100 > pct * PCACHE_SLOTS * nbuckets h) budget ht)"

definition pcache_ht_overflow :: "htab \<Rightarrow> nat" where
  "pcache_ht_overflow ht = (if chained ht > 0 then nat (chained ht) else 0)"

text \<open>The result carries how much \<open>leg_splits\<close> grows.\<close>

definition pcache_ht_grow_at_leg :: "(nat \<Rightarrow> bool) \<Rightarrow> (nat \<Rightarrow> bool) \<Rightarrow> nat \<Rightarrow> nat \<Rightarrow> nat \<Rightarrow> nat \<Rightarrow> htab \<Rightarrow>
    (nat \<times> nat \<times> htab) option" where
  "pcache_ht_grow_at_leg seg_ok mem_ok pct floor_pct stuck_pct budget ht =
    (let stuck = pcache_ht_overflow ht;
         target = (if floor_pct \<noteq> 0 \<and> floor_pct < pct \<and> stuck \<noteq> 0 \<and>
                      stuck * 100 > stuck_pct * totals_entries ht
                   then floor_pct else pct)
     in map_option (\<lambda>(did, h). (did, if target \<noteq> pct then did else 0, h))
          (pcache_ht_grow_at seg_ok mem_ok target budget ht))"

section \<open>Sweep\<close>

definition PCACHE_SWEEP_BATCH :: nat where "PCACHE_SWEEP_BATCH = 64"

definition due :: "u32 \<Rightarrow> hrec \<Rightarrow> bool" where
  "due now r \<longleftrightarrow> r_expires r \<noteq> 0 \<and> r_expires r \<le> now"

record sweeping =
  sw_ch :: "bkt list"
  sw_dead :: "hrec list"
  sw_gone :: nat
  sw_min :: u32
  sw_top :: u64
  sw_dsum :: int

text \<open>The walk of one batch, at slot \<open>i\<close> of bucket \<open>w\<close>.\<close>

function sweep_walk :: "u32 \<Rightarrow> nat \<Rightarrow> nat \<Rightarrow> sweeping \<Rightarrow> sweeping" where
  "sweep_walk now w i st =
    (if w \<ge> length (sw_ch st) then st
     else
       let b = sw_ch st ! w in
       if i \<ge> bkt_used b then
         (if bkt_linked b then sweep_walk now (w + 1) 0 st else st)
       else
         let r = the (slots b ! i) in
         if due now r \<and> length (sw_dead st) < PCACHE_SWEEP_BATCH then
           (case chain_remove_at (sw_ch st) w i of (ch', gb, dc) \<Rightarrow>
             let st' = st\<lparr>sw_ch := ch', sw_dead := sw_dead st @ [r],
                         sw_top := (if r_ver r > sw_top st then r_ver r else sw_top st),
                         sw_dsum := sw_dsum st + dc\<rparr>
             in if gb then sweep_walk now 0 0 (st'\<lparr>sw_gone := sw_gone st' + 1, sw_min := 0\<rparr>)
                else sweep_walk now w i st')
         else sweep_walk now w (i + 1) (st\<lparr>sw_min := min_exp (sw_min st) (r_expires r)\<rparr>))"
  by pat_completeness auto
termination
  by (relation "inv_image (less_than <*lex*> less_than <*lex*> less_than)
      (\<lambda>(now, w, i, st). (PCACHE_SWEEP_BATCH - length (sw_dead st), length (sw_ch st) - w,
         bkt_used (sw_ch st ! w) - i))") auto

declare sweep_walk.simps [simp del]

text \<open>One hold of the bucket lock, and the loop that takes the next batch while the last
  was full.  \<open>fuel\<close> bounds the batches.\<close>

definition sweep_batch :: "u32 \<Rightarrow> nat \<Rightarrow> sys \<Rightarrow> htab \<Rightarrow> hrec list \<times> sys \<times> htab" where
  "sweep_batch now idx s ht =
    (let st = sweep_walk now 0 0 \<lparr>sw_ch = chains ht ! idx, sw_dead = [], sw_gone = 0, sw_min = 0,
                sw_top = 0, sw_dsum = 0\<rparr>;
         ht = put_chain idx (sw_ch st) ht;
         ht = ht\<lparr>hints := (hints ht)[idx := sw_min st]\<rparr>;
         s = (if sw_top st \<noteq> 0 then s\<lparr>clk := pc_lamport_publish (sw_top st) (clk s)\<rparr> else s);
         ht = (if sw_dsum st \<noteq> 0 then ht\<lparr>chained := chained ht + sw_dsum st\<rparr> else ht);
         ht = ht\<lparr>pool := pool_puts (sw_gone st) (pool ht)\<rparr>
     in (sw_dead st, s, ht))"

fun sweep_bucket :: "nat \<Rightarrow> u32 \<Rightarrow> nat \<Rightarrow> sys \<Rightarrow> htab \<Rightarrow> (hrec list \<times> sys \<times> htab) option" where
  "sweep_bucket 0 now idx s ht = None"
| "sweep_bucket (Suc fuel) now idx s ht =
     (case sweep_batch now idx s ht of (dead, s, ht) \<Rightarrow>
        if length dead = PCACHE_SWEEP_BATCH
        then map_option (apfst ((@) dead)) (sweep_bucket fuel now idx s ht)
        else Some (dead, s, ht))"

fun sweep_loop :: "u32 \<Rightarrow> nat list \<Rightarrow> sys \<Rightarrow> htab \<Rightarrow> (hrec list \<times> sys \<times> htab) option" where
  "sweep_loop now [] s ht = Some ([], s, ht)"
| "sweep_loop now (idx # is) s ht =
     (let hint = hints ht ! idx in
      if hint = 0 \<or> hint > now then sweep_loop now is s ht
      else
        (case sweep_bucket (snd (chain_tail (chains ht ! idx)) + 1) now idx s ht of
           None \<Rightarrow> None
         | Some (dead, s, ht) \<Rightarrow> map_option (apfst ((@) dead)) (sweep_loop now is s ht)))"

text \<open>The records reaped, in the order the callback is given them; their number is the
  result of the code's function.\<close>

definition pcache_ht_sweep :: "u32 \<Rightarrow> sys \<Rightarrow> htab \<Rightarrow> (hrec list \<times> sys \<times> htab) option" where
  "pcache_ht_sweep now s ht =
    map_option (\<lambda>(dead, s, h). (dead, s, h\<lparr>st_destroyed := st_destroyed h + length dead,
                                          st_expired := st_expired h + length dead\<rparr>))
      (sweep_loop now [0 ..< nbuckets ht] s ht)"

section \<open>Constructor and check\<close>

definition pcache_htable_new :: "(nat \<Rightarrow> bool) \<Rightarrow> nat \<Rightarrow> htab option" where
  "pcache_htable_new room size_log2 =
    (if size_log2 > PCACHE_MAX_SIZE_LOG2 then None
     else if \<not> room size_log2 then None
     else
       let n = 2 ^ size_log2 in
       Some \<lparr>route = push_bit 32 (of_nat size_log2), nbuckets = n,
             chains = replicate n [zero_bkt], hints = replicate n 0, chained = 0,
             pool = pcache_opool_init, st_hits = 0, st_misses = 0, st_stores = 0, st_immortal = 0,
             st_removes = 0, st_created = 0, st_destroyed = 0, st_expired = 0\<rparr>)"

definition PCACHE_CHAIN_HOPS :: nat where "PCACHE_CHAIN_HOPS = 2 ^ 20"

datatype chain_fault =
    Loops
  | Overfull
  | LinkedNotFull
  | TailTooSmall
  | LinkTagged
  | SlotBad
  | WrongBucket
  | FreeNotEmpty
  | CountOff

fun check_used :: "htab \<Rightarrow> nat \<Rightarrow> bkt \<Rightarrow> nat list \<Rightarrow> chain_fault option" where
  "check_used ht idx w [] = None"
| "check_used ht idx w (i # is) =
     (case slots w ! i of
        None \<Rightarrow> Some SlotBad
      | Some r \<Rightarrow>
          if tags w ! i \<noteq> tag_of (r_hash r) then Some SlotBad
          else if unat (route_idx (route ht) (r_hash r)) \<noteq> idx then Some WrongBucket
          else check_used ht idx w is)"

definition check_bucket :: "htab \<Rightarrow> nat \<Rightarrow> nat \<Rightarrow> bkt \<Rightarrow> chain_fault option" where
  "check_bucket ht idx k w =
    (let u = bkt_used w in
     if k > PCACHE_CHAIN_HOPS then Some Loops
     else if u > bkt_cap w then Some Overfull
     else if bkt_linked w \<and> u \<noteq> PCACHE_SLOTS - 1 then Some LinkedNotFull
     else if k \<noteq> 0 \<and> \<not> bkt_linked w \<and> u < 2 then Some TailTooSmall
     else if bkt_linked w \<and> tags w ! (PCACHE_SLOTS - 1) \<noteq> 0 then Some LinkTagged
     else
       (case check_used ht idx w [0 ..< u] of
          Some f \<Rightarrow> Some f
        | None \<Rightarrow> if list_ex (\<lambda>i. tags w ! i \<noteq> 0 \<or> slots w ! i \<noteq> None) [u ..< bkt_cap w]
                  then Some FreeNotEmpty else None))"

fun check_chain :: "htab \<Rightarrow> nat \<Rightarrow> nat \<Rightarrow> bkt list \<Rightarrow> nat \<Rightarrow> chain_fault + nat" where
  "check_chain ht idx k [] n = Inr n"
| "check_chain ht idx k (w # ws) n =
     (case check_bucket ht idx k w of
        Some f \<Rightarrow> Inl f
      | None \<Rightarrow> if bkt_linked w then check_chain ht idx (k + 1) ws (n + bkt_used w)
                else Inr (n + bkt_used w))"

fun check_chains :: "htab \<Rightarrow> nat list \<Rightarrow> int \<Rightarrow> chain_fault option" where
  "check_chains ht [] ch = (if ch \<noteq> int (pcache_ht_overflow ht) then Some CountOff else None)"
| "check_chains ht (idx # is) ch =
     (case check_chain ht idx 0 (chains ht ! idx) 0 of
        Inl f \<Rightarrow> Some f
      | Inr n \<Rightarrow> check_chains ht is (ch + chained_of n))"

definition pcache_ht_chain_check :: "htab \<Rightarrow> chain_fault option" where
  "pcache_ht_chain_check ht = check_chains ht [0 ..< nbuckets ht] 0"

end
