(* ===== verification/Htgrow_Inv.thy ===== *)
theory Htgrow_Inv
  imports Htgrow
begin

text \<open>
  Splitting never runs out of overflow buckets, keeps the invariant and every lookup; the
  sweep removes exactly the records that are due; the constructor establishes the invariant;
  the chain check accepts every table that satisfies it.
\<close>

section \<open>Split\<close>

lemma layout_last: "last (layout rs) = layout rs ! nover (length rs)"
proof -
  have "layout rs \<noteq> []" using length_layout [of rs] by (metis Zero_not_Suc list.size(3))
  then show ?thesis by (simp add: last_conv_nth)
qed

lemma split_append_layout:
  "split_append (layout rs) sp r (tag_of (r_hash r)) =
    (if nover (Suc (length rs)) \<noteq> nover (length rs) \<and> sp = 0 then None
     else Some (layout (rs @ [r]), sp + nover (length rs) - nover (Suc (length rs))))"
proof -
  have bl: "butlast (layout rs) = take (nover (length rs)) (layout rs)"
    by (simp add: butlast_conv_take)
  have "butlast (layout rs) @ fst (chain_append (last (layout rs)) r (tag_of (r_hash r)) zero_bkt) =
      fst (chain_put (layout rs) r (tag_of (r_hash r)) zero_bkt)"
    by (simp add: chain_put_def bl layout_last Let_def split: prod.splits)
  also have "\<dots> = layout (rs @ [r])" by (simp add: chain_put_layout)
  finally have "butlast (layout rs) @ fst (chain_append (last (layout rs)) r (tag_of (r_hash r)) zero_bkt) = layout (rs @ [r])" .
  then show ?thesis
    using tail_full [of rs] nover_Suc [of "length rs"]
    by (auto simp: split_append_def layout_last)
qed

lemma take_out_recs:
  assumes "\<forall>b \<in> set ch. \<exists>rs lk. b = mk_bkt rs lk \<and> length rs \<le> 6"
  shows "take_out ch = map (\<lambda>r. (r, tag_of (r_hash r))) (chain_recs ch)"
  using assms
proof (induction ch)
  case (Cons b bs)
  then obtain rs lk where b: "b = mk_bkt rs lk" "length rs \<le> 6" by auto
  have "map (\<lambda>i. (the (slots b ! i), tags b ! i)) [0 ..< length rs] = map (\<lambda>r. (r, tag_of (r_hash r))) rs"
    using b by (intro nth_equalityI) (auto simp: nth_append)
  then show ?case using Cons b by (simp add: o_def)
qed simp

lemma layout_buckets:
  "\<forall>b \<in> set (layout rs). \<exists>rs lk. b = mk_bkt rs lk \<and> length rs \<le> 6"
proof
  fix b assume "b \<in> set (layout rs)"
  then obtain j where "j \<le> nover (length rs)" "b = layout rs ! j"
    by (auto simp: in_set_conv_nth less_Suc_eq_le)
  then show "\<exists>rs lk. b = mk_bkt rs lk \<and> length rs \<le> 6" using layout_nth length_seg_le by metis
qed

lemma chain_hops_split:
  "\<forall>b \<in> set bs. bkt_linked b \<Longrightarrow> \<not> bkt_linked t \<Longrightarrow> chain_hops (bs @ [t]) = length bs"
  by (induction bs) auto

lemma chain_hops_layout [simp]: "chain_hops (layout rs) = nover (length rs)"
proof -
  have "length (drop (5 * nover (length rs)) rs) \<le> 6" using nover_range(2) [of "length rs"] by auto
  then show ?thesis unfolding layout_def by (subst chain_hops_split) auto
qed

lemma clear_home_layout [simp]: "clear_home (layout rs ! 0) = zero_bkt"
proof -
  have m: "u < 8 \<Longrightarrow> mk_meta u lk AND NOT PCACHE_BKT_USED AND NOT PCACHE_BKT_LINK = 0" for u lk
    by (cases lk; drule less_8_cases; elim disjE;
        simp add: mk_meta_def PCACHE_BKT_USED_def PCACHE_BKT_LINK_def)
  have "length (seg rs 0) < 8" using length_seg_le [of rs 0] by simp
  then show ?thesis
    by (intro bkt_eqI) (simp_all add: clear_home_def zero_bkt_def layout_nth m PCACHE_SLOTS_def)
qed

lemma layout_Nil: "layout [] = [zero_bkt]"
  by (simp add: layout_def nover_def zero_bkt_mk)

text \<open>What the halves take together is never more than what the whole took.\<close>

lemma nover_mono: "m \<le> n \<Longrightarrow> nover m \<le> nover n"
  by (auto simp: nover_def intro: div_le_mono)

lemma nover_super: "nover a + nover b \<le> nover (a + b)"
proof (cases "a \<le> 6 \<or> b \<le> 6")
  case True
  then show ?thesis using nover_mono [of a "a + b"] nover_mono [of b "a + b"] by (auto simp: nover_def)
next
  case False
  have "(a - 2) div 5 + (b - 2) div 5 \<le> (a - 2 + (b - 2)) div 5" by (simp add: div_add1_eq [of "a - 2"])
  also have "\<dots> \<le> (a + b - 2) div 5" by (intro div_le_mono) auto
  finally show ?thesis using False by (simp add: nover_def)
qed

text \<open>The two halves of a list of records, and the state of the split after some of them.\<close>

definition lo_half :: "nat \<Rightarrow> hrec list \<Rightarrow> hrec list" where
  "lo_half level rs = filter (\<lambda>r. \<not> bit (r_hash r) level) rs"

definition hi_half :: "nat \<Rightarrow> hrec list \<Rightarrow> hrec list" where
  "hi_half level rs = filter (\<lambda>r. bit (r_hash r) level) rs"

definition minexp :: "hrec list \<Rightarrow> u32" where
  "minexp rs = foldl (\<lambda>m r. min_exp m (r_expires r)) 0 rs"

definition half_state :: "nat \<Rightarrow> nat \<Rightarrow> hrec list \<Rightarrow> splitting" where
  "half_state level k xs =
    \<lparr>sp_S = layout (lo_half level xs), sp_P = layout (hi_half level xs),
     sp_spare = k - nover (length (lo_half level xs)) - nover (length (hi_half level xs)),
     sp_sn = length (lo_half level xs), sp_pn = length (hi_half level xs),
     sp_smin = minexp (lo_half level xs), sp_pmin = minexp (hi_half level xs)\<rparr>"

lemma minexp_simps [simp]: "minexp [] = 0" "minexp (rs @ [r]) = min_exp (minexp rs) (r_expires r)"
  by (simp_all add: minexp_def)

lemma minexp_lower: "r \<in> set rs \<Longrightarrow> r_expires r \<noteq> 0 \<Longrightarrow> minexp rs \<noteq> 0 \<and> minexp rs \<le> r_expires r"
proof (induction rs rule: rev_induct)
  case (snoc q rs)
  then show ?case by (cases "r = q") (auto simp: min_exp_def)
qed simp

lemma minexp_attained: "minexp rs = 0 \<or> (\<exists>r \<in> set rs. minexp rs = r_expires r)"
  by (induction rs rule: rev_induct) (auto simp: min_exp_def)

lemma halves_length: "length (lo_half l xs) + length (hi_half l xs) = length xs"
  by (induction xs) (auto simp: lo_half_def hi_half_def)

lemma halves_nover: "nover (length (lo_half l xs)) + nover (length (hi_half l xs)) \<le> nover (length xs)"
  using nover_super [of "length (lo_half l xs)" "length (hi_half l xs)"] by (simp add: halves_length)

lemma split_step_half:
  assumes "nover (Suc (length xs)) \<le> k"
  shows "split_step l r (tag_of (r_hash r)) (half_state l k xs) = Some (half_state l k (xs @ [r]))"
proof -
  let ?a = "length (lo_half l xs)" and ?b = "length (hi_half l xs)"
  note n = nover_Suc [of ?a] nover_Suc [of ?b]
  show ?thesis
  proof (cases "bit (r_hash r) l")
    case True
    then have h: "hi_half l (xs @ [r]) = hi_half l xs @ [r]" "lo_half l (xs @ [r]) = lo_half l xs"
      by (simp_all add: lo_half_def hi_half_def)
    have "nover ?a + nover (Suc ?b) \<le> k" using halves_nover [of l "xs @ [r]"] assms h by simp
    then show ?thesis
      using True h n(2) by (auto simp: split_step_def half_state_def split_append_layout)
  next
    case False
    then have h: "hi_half l (xs @ [r]) = hi_half l xs" "lo_half l (xs @ [r]) = lo_half l xs @ [r]"
      by (simp_all add: lo_half_def hi_half_def)
    have "nover (Suc ?a) + nover ?b \<le> k" using halves_nover [of l "xs @ [r]"] assms h by simp
    then show ?thesis
      using False h n(1) by (auto simp: split_step_def half_state_def split_append_layout)
  qed
qed

lemma split_all_halves:
  "nover (length xs + length ys) \<le> k \<Longrightarrow>
   split_all l (map (\<lambda>r. (r, tag_of (r_hash r))) ys) (half_state l k xs) = Some (half_state l k (xs @ ys))"
proof (induction ys arbitrary: xs)
  case (Cons y ys)
  have "nover (Suc (length xs)) \<le> k"
    using Cons.prems nover_mono [of "Suc (length xs)" "length xs + length (y # ys)"] by simp
  then show ?case using Cons.IH [of "xs @ [y]"] Cons.prems by (simp add: split_step_half)
qed simp

lemma split_all_layout:
  "split_all l (take_out (layout rs))
      \<lparr>sp_S = [clear_home (layout rs ! 0)], sp_P = [zero_bkt], sp_spare = chain_hops (layout rs),
       sp_sn = 0, sp_pn = 0, sp_smin = 0, sp_pmin = 0\<rparr> =
   Some (half_state l (nover (length rs)) rs)"
proof -
  have "half_state l (nover (length rs)) [] =
      \<lparr>sp_S = [clear_home (layout rs ! 0)], sp_P = [zero_bkt], sp_spare = chain_hops (layout rs),
       sp_sn = 0, sp_pn = 0, sp_smin = 0, sp_pmin = 0\<rparr>"
    by (simp add: half_state_def lo_half_def hi_half_def layout_Nil nover_def)
  moreover have "take_out (layout rs) = map (\<lambda>r. (r, tag_of (r_hash r))) rs"
    using take_out_recs [OF layout_buckets] by simp
  ultimately show ?thesis
    using split_all_halves [of "[]" rs "nover (length rs)" l] by simp
qed

section \<open>The route after a split\<close>

lemma route_parts:
  assumes "l < 2 ^ 32"
  shows "route_level (push_bit 32 (of_nat l) OR ucast (x :: u32)) = l"
    "route_split (push_bit 32 (of_nat l) OR ucast x) = x"
proof -
  have "drop_bit 32 (push_bit 32 (of_nat l) OR ucast x :: u64) = of_nat l"
  proof (rule bit_word_eqI)
    fix n assume "n < LENGTH(64)"
    have "\<not> bit (of_nat l :: u64) n" if "32 \<le> n"
    proof -
      have "(2 :: nat) ^ 32 \<le> 2 ^ n" using that by (rule power_increasing) simp
      then have "l div 2 ^ n = 0" using assms by (intro div_less) linarith
      moreover have "unat (of_nat l :: u64) = l" using assms by (intro unat_of_nat_small) simp
      ultimately show ?thesis by (simp only: bit_odd_unat) simp
    qed
    then show "bit (drop_bit 32 (push_bit 32 (of_nat l) OR ucast x :: u64)) n = bit (of_nat l :: u64) n"
      by (cases "32 \<le> n") (auto simp: bit_drop_bit_eq bit_or_iff bit_push_bit_iff bit_ucast_iff dest: bit_imp_le_length)
  qed
  moreover have "unat (of_nat l :: u64) = l" using assms by (intro unat_of_nat_small) simp
  ultimately show "route_level (push_bit 32 (of_nat l) OR ucast x) = l" by (simp add: route_level_def)
  show "route_split (push_bit 32 (of_nat l) OR ucast x) = x"
    unfolding route_split_def by (rule bit_word_eqI) (auto simp: bit_simps)
qed

lemma mod_double_bit:
  "(x :: nat) mod 2 ^ Suc l = x mod 2 ^ l + (if bit x l then 2 ^ l else 0)"
proof -
  have "x mod (2 ^ l * 2) = 2 ^ l * (x div 2 ^ l mod 2) + x mod 2 ^ l" by (rule mod_mult2_eq)
  then show ?thesis by (auto simp: bit_iff_odd mod_2_eq_odd mult.commute)
qed

lemma split_index:
  assumes "m < a" "s < (a :: nat)"
  shows "(if m < Suc s then m + (if B then a else 0) else m) =
    (if (if m < s then m + (if B then a else 0) else m) = s \<and> B then a + s
     else (if m < s then m + (if B then a else 0) else m))"
  using assms by auto

lemma next_route_ok:
  assumes "route_ok r n" "n < 2 ^ 24"
  defines "r' \<equiv> next_route (route_level r) (route_split r)"
  shows "route_ok r' (Suc n)"
    "unat (route_idx r' h) =
      (if unat (route_idx r h) = unat (route_split r) \<and> bit h (route_level r) then n
       else unat (route_idx r h))"
proof -
  let ?l = "route_level r" and ?s = "unat (route_split r)"
  have r: "?l \<le> 24" "?s < 2 ^ ?l" "n = 2 ^ ?l + ?s" using assms(1) by (auto simp: route_ok_def)
  have l24: "?l < 24"
  proof (rule ccontr)
    assume "\<not> ?l < 24"
    then have "?l = 24" using r(1) by simp
    then show False using r(3) assms(2) by simp
  qed
  have pw: "(2 :: nat) ^ ?l \<le> 2 ^ 23" using l24 by (intro power_increasing) simp_all
  have up: "unat (push_bit ?l 1 :: u32) = 2 ^ ?l"
    using unat_of_nat_small [of "2 ^ ?l", where 'a = 32] pw by (simp add: push_bit_eq_mult)
  have us: "unat (route_split r + 1) = Suc ?s"
  proof (rule unat_inc, rule notI)
    assume "route_split r = - 1"
    then have "?s = 2 ^ 32 - 1" by (simp add: unsigned_minus_1_eq_mask mask_eq_exp_minus_1)
    then show False using r(2) pw by simp
  qed
  have bh: "bit h k \<longleftrightarrow> bit (unat h) k" if "k < 32" for k
    using that by (simp add: bit_unsigned_iff)
  let ?m = "unat h mod 2 ^ ?l"
  have m: "?m < 2 ^ ?l" by simp
  have dbl: "unat h mod 2 ^ (?l + 1) = ?m + (if bit h ?l then 2 ^ ?l else 0)"
    using mod_double_bit [of "unat h" ?l] bh [of ?l] l24 by simp
  note idx = split_index [OF m r(2), of "bit h ?l"]
  have "route_ok r' (Suc n) \<and> unat (route_idx r' h) =
      (if unat (route_idx r h) = ?s \<and> bit h ?l then n else unat (route_idx r h))"
  proof (cases "Suc ?s = 2 ^ ?l")
    case True
    then have "route_split r + 1 = push_bit ?l 1" using up us by (simp add: word_unat_eq_iff)
    then have "r' = push_bit 32 (of_nat (Suc ?l)) OR ucast (0 :: u32)" by (simp add: r'_def next_route_def)
    then have p: "route_level r' = Suc ?l" "route_split r' = 0"
      using route_parts [of "Suc ?l" 0] l24 by simp_all
    have ok: "route_ok r' (Suc n)" using p r True l24 assms(2) by (auto simp: route_ok_def)
    have "unat (route_idx r' h) = (if ?m < Suc ?s then ?m + (if bit h ?l then 2 ^ ?l else 0) else ?m)"
      unfolding route_idx_unat [OF ok] p using dbl m True by simp
    then show ?thesis using ok unfolding idx route_idx_unat [OF assms(1)] dbl r(3) by simp
  next
    case False
    then have "route_split r + 1 \<noteq> push_bit ?l 1" using up us by (auto simp: word_unat_eq_iff)
    then have "r' = push_bit 32 (of_nat ?l) OR ucast (route_split r + 1)" by (simp add: r'_def next_route_def)
    then have p: "route_level r' = ?l" "route_split r' = route_split r + 1"
      using route_parts [of ?l "route_split r + 1"] l24 by simp_all
    have ok: "route_ok r' (Suc n)" using p r False l24 us assms(2) by (auto simp: route_ok_def)
    have "unat (route_idx r' h) = (if ?m < Suc ?s then ?m + (if bit h ?l then 2 ^ ?l else 0) else ?m)"
      unfolding route_idx_unat [OF ok] p dbl us ..
    then show ?thesis using ok unfolding idx route_idx_unat [OF assms(1)] dbl r(3) by simp
  qed
  then show "route_ok r' (Suc n)" "unat (route_idx r' h) =
      (if unat (route_idx r h) = ?s \<and> bit h ?l then n else unat (route_idx r h))" by auto
qed

section \<open>Split keeps the invariant and the map\<close>

lemma pool_puts_ok:
  "pool_ok p \<Longrightarrow> k \<le> op_in_use p \<Longrightarrow> pool_ok (pool_puts k p) \<and> op_in_use (pool_puts k p) = op_in_use p - k"
proof (induction k arbitrary: p)
  case (Suc k)
  have "pool_ok (pcache_opool_put p)" "op_in_use (pcache_opool_put p) = op_in_use p - 1"
    using Suc.prems pool_put_ok [of p] by simp_all
  then show ?case using Suc by simp
qed simp

lemma partner_index:
  assumes "route_ok r n"
  shows "unat (route_split r + push_bit (route_level r) 1) = n"
proof -
  let ?l = "route_level r"
  have r: "?l \<le> 24" "unat (route_split r) < 2 ^ ?l" "n = 2 ^ ?l + unat (route_split r)"
    using assms by (auto simp: route_ok_def)
  have pw: "(2 :: nat) ^ ?l \<le> 2 ^ 24" using r(1) by (rule power_increasing) simp
  have up: "unat (push_bit ?l 1 :: u32) = 2 ^ ?l"
    using unat_of_nat_small [of "2 ^ ?l", where 'a = 32] pw by (simp add: push_bit_eq_mult)
  have "unat (route_split r + push_bit ?l 1) = unat (route_split r) + unat (push_bit ?l 1 :: u32)"
    using r(2) pw unfolding up [symmetric] by (intro unat_add_small) simp
  then show ?thesis using up r(3) by simp
qed

lemma half_bucket_ok:
  assumes "bucket_ok r h s rs" "route_ok r n" "n < 2 ^ 24" "s = unat (route_split r)"
  defines "r' \<equiv> next_route (route_level r) (route_split r)"
  shows "bucket_ok r' (minexp (lo_half (route_level r) rs)) s (lo_half (route_level r) rs)"
    "bucket_ok r' (minexp (hi_half (route_level r) rs)) n (hi_half (route_level r) rs)"
proof -
  note nr = next_route_ok(2) [OF assms(2,3), folded r'_def]
  show "bucket_ok r' (minexp (lo_half (route_level r) rs)) s (lo_half (route_level r) rs)"
    using assms(1,4) nr minexp_lower [of _ "lo_half (route_level r) rs"]
    by (auto simp: bucket_ok_def lo_half_def distinct_map_filter)
  show "bucket_ok r' (minexp (hi_half (route_level r) rs)) n (hi_half (route_level r) rs)"
    using assms(1,4) nr minexp_lower [of _ "hi_half (route_level r) rs"]
    by (auto simp: bucket_ok_def hi_half_def distinct_map_filter)
qed

lemma other_bucket_ok:
  assumes "bucket_ok r h j rs" "route_ok r n" "n < 2 ^ 24" "j \<noteq> unat (route_split r)"
  shows "bucket_ok (next_route (route_level r) (route_split r)) h j rs"
  using assms(1,4) next_route_ok(2) [OF assms(2,3)] by (auto simp: bucket_ok_def)

lemma split_run:
  assumes "ht_rep ht R"
  shows "pcache_ht_split seg_ok mem_ok ht =
    (let s = unat (route_split (route ht)); l = route_level (route ht); rs = R ! s;
         lo = lo_half l rs; hi = hi_half l rs
     in if nbuckets ht \<ge> 2 ^ 24 then Some (0, ht)
        else if \<not> seg_ok (nbuckets ht) then Some (-1, ht)
        else if \<not> mem_ok (length rs) then Some (-1, ht)
        else Some (1, ht\<lparr>chains := (chains ht)[s := layout lo] @ [layout hi],
               hints := (hints ht)[s := minexp lo] @ [minexp hi],
               chained := chained ht + (chained_of (length lo) + chained_of (length hi) - chained_of (length rs)),
               route := next_route l (route_split (route ht)), nbuckets := nbuckets ht + 1,
               pool := pool_puts (nover (length rs) - nover (length lo) - nover (length hi)) (pool ht)\<rparr>))"
proof -
  let ?s = "unat (route_split (route ht))" and ?l = "route_level (route ht)"
  have ro: "route_ok (route ht) (nbuckets ht)" using assms by (simp add: ht_rep_def)
  then have "?s < nbuckets ht" by (auto simp: route_ok_def)
  then have "?s < length R" using assms by (simp add: ht_rep_def)
  then have S: "chains ht ! ?s = layout (R ! ?s)" by (rule rep_chain [OF assms])
  show ?thesis
    unfolding pcache_ht_split_def Let_def partner_index [OF ro] S split_all_layout
    by (simp add: half_state_def PCACHE_MAX_SIZE_LOG2_def)
qed

lemma split_rep:
  assumes "ht_rep ht R" "pcache_ht_split seg_ok mem_ok ht = Some (1, ht')"
  defines "s \<equiv> unat (route_split (route ht))" and "l \<equiv> route_level (route ht)"
  shows "ht_rep ht' (R[s := lo_half l (R ! s)] @ [hi_half l (R ! s)])"
    "route ht' = next_route l (route_split (route ht))" "nbuckets ht' = nbuckets ht + 1"
    "st_created ht' = st_created ht" "st_destroyed ht' = st_destroyed ht" "nbuckets ht < 2 ^ 24"
proof -
  let ?rs = "R ! s"
  let ?lo = "lo_half l ?rs" and ?hi = "hi_half l ?rs"
  let ?k = "nover (length ?rs) - nover (length ?lo) - nover (length ?hi)"
  have n24: "nbuckets ht < 2 ^ 24" and ht': "ht' = ht\<lparr>chains := (chains ht)[s := layout ?lo] @ [layout ?hi],
               hints := (hints ht)[s := minexp ?lo] @ [minexp ?hi],
               chained := chained ht + (chained_of (length ?lo) + chained_of (length ?hi) - chained_of (length ?rs)),
               route := next_route l (route_split (route ht)), nbuckets := nbuckets ht + 1,
               pool := pool_puts ?k (pool ht)\<rparr>"
    using assms(2) unfolding split_run [OF assms(1)] Let_def s_def [symmetric] l_def [symmetric]
    by (simp_all split: if_splits)
  have ro: "route_ok (route ht) (nbuckets ht)" and len: "length R = nbuckets ht" "length (hints ht) = nbuckets ht"
    and ch: "chains ht = map layout R"
    and st: "chained ht = tot (\<lambda>rs. chained_of (length rs)) R" "pool_ok (pool ht)"
      "int (op_in_use (pool ht)) = tot (\<lambda>rs. int (nover (length rs))) R"
      "int (st_created ht) - int (st_destroyed ht) = tot (\<lambda>rs. int (length rs)) R"
    using assms(1) by (simp_all add: ht_rep_def)
  have s: "s < nbuckets ht" using ro by (auto simp: route_ok_def s_def)
  then have sR: "s < length R" using len by simp
  have "int (nover (length ?rs)) \<le> int (op_in_use (pool ht))"
    unfolding st(3) using tot_ge [OF sR, of "\<lambda>rs. int (nover (length rs))"] by simp
  then have pl: "pool_ok (pool_puts ?k (pool ht)) \<and> op_in_use (pool_puts ?k (pool ht)) = op_in_use (pool ht) - ?k"
    using st(2) by (intro pool_puts_ok) auto
  have b: "bucket_ok (route ht) (hints ht ! s) s ?rs" using assms(1) sR by (rule rep_bucket)
  note half = half_bucket_ok [OF b ro n24 s_def [THEN meta_eq_to_obj_eq], folded l_def]
  have bk: "bucket_ok (route ht') (hints ht' ! j) j ((R[s := ?lo] @ [?hi]) ! j)" if "j < nbuckets ht'" for j
  proof (cases "j = s \<or> j = nbuckets ht")
    case True
    then show ?thesis using half s len by (auto simp: ht' nth_append)
  next
    case False
    then have j: "j < length R" "j \<noteq> s" using that len by (auto simp: ht')
    have "bucket_ok (route ht) (hints ht ! j) j (R ! j)" using assms(1) j(1) by (rule rep_bucket)
    then have "bucket_ok (next_route l (route_split (route ht))) (hints ht ! j) j (R ! j)"
      unfolding l_def using ro n24 j(2) by (intro other_bucket_ok) (simp_all add: s_def)
    then show ?thesis using j len by (simp add: ht' nth_append)
  qed
  have lens: "length ?lo + length ?hi = length ?rs" and nov: "nover (length ?lo) + nover (length ?hi) \<le> nover (length ?rs)"
    by (rule halves_length, rule halves_nover)
  have "int (op_in_use (pool ht')) = tot (\<lambda>rs. int (nover (length rs))) (R[s := ?lo] @ [?hi])"
    using pl nov \<open>int (nover (length ?rs)) \<le> int (op_in_use (pool ht))\<close> st(3)
    by (simp add: ht' tot_update [OF sR])
  moreover have "int (st_created ht) - int (st_destroyed ht) = tot (\<lambda>rs. int (length rs)) (R[s := ?lo] @ [?hi])"
    using st(4) lens by (simp add: tot_update [OF sR])
  moreover have "chained ht' = tot (\<lambda>rs. chained_of (length rs)) (R[s := ?lo] @ [?hi])"
    using st(1) by (simp add: ht' tot_update [OF sR])
  moreover have "route_ok (route ht') (nbuckets ht')"
    using next_route_ok(1) [OF ro n24] by (simp add: ht' l_def)
  ultimately show "ht_rep ht' (R[s := ?lo] @ [?hi])"
    using bk pl len ch unfolding ht_rep_def by (auto simp: ht' map_update)
  show "route ht' = next_route l (route_split (route ht))" "nbuckets ht' = nbuckets ht + 1"
    "st_created ht' = st_created ht" "st_destroyed ht' = st_destroyed ht" "nbuckets ht < 2 ^ 24"
    using n24 by (simp_all add: ht')
qed

lemma kmap_filter:
  assumes "distinct (map r_key rs)" "\<And>r. r \<in> set rs \<Longrightarrow> r_key r = k \<Longrightarrow> P r"
  shows "kmap (filter P rs) k = kmap rs k"
  using assms by (induction rs) (auto simp: kmap_def)

lemma split_lookup:
  assumes "ht_rep ht R" "pcache_ht_split seg_ok mem_ok ht = Some (1, ht')"
  shows "ht_lookup ht' key = ht_lookup ht key"
proof -
  let ?s = "unat (route_split (route ht))" and ?l = "route_level (route ht)" and ?h = "pcache_key_hash key"
  let ?i = "key_idx ht key"
  note sp = split_rep [OF assms]
  have ro: "route_ok (route ht) (nbuckets ht)" and len: "length R = nbuckets ht" using assms(1) by (simp_all add: ht_rep_def)
  have s: "?s < length R" using ro len by (auto simp: route_ok_def)
  have i: "?i < length R" using assms(1) by (rule rep_idx)
  have idx: "key_idx ht' key = (if ?i = ?s \<and> bit ?h ?l then length R else ?i)"
    using next_route_ok(2) [OF ro sp(6), of ?h] sp(2) len by (simp add: key_idx_def)
  note b = rep_bucket [OF assms(1) s]
  have d: "distinct (map r_key (R ! ?s))" using b by (rule bucket_keys)
  have h: "r_hash r = ?h" if "r \<in> set (R ! ?s)" "r_key r = key" for r
    using b that by (auto simp: bucket_ok_def hrec_ok_def)
  show ?thesis
    unfolding rep_lookup [OF sp(1)] rep_lookup [OF assms(1)] idx
    using s i h d by (auto simp: nth_append nth_list_update lo_half_def hi_half_def kmap_filter)
qed

text \<open>The same table as a map: what a growth step leaves.\<close>

definition same_map :: "htab \<Rightarrow> htab \<Rightarrow> bool" where
  "same_map ht ht' \<longleftrightarrow> ht_inv ht' \<and> ht_lookup ht' = ht_lookup ht \<and>
     st_created ht' = st_created ht \<and> st_destroyed ht' = st_destroyed ht"

lemma same_map_refl: "ht_inv ht \<Longrightarrow> same_map ht ht"
  by (simp add: same_map_def)

lemma same_map_trans: "same_map a b \<Longrightarrow> same_map b c \<Longrightarrow> same_map a c"
  by (simp add: same_map_def)

lemma split_cases:
  assumes "ht_inv ht"
  obtains (stay) rc where "pcache_ht_split seg_ok mem_ok ht = Some (rc, ht)" "rc \<le> 0"
      "2 ^ 24 \<le> nbuckets ht \<or> \<not> seg_ok (nbuckets ht) \<or> (\<exists>n. \<not> mem_ok n)"
  | (split) ht' where "pcache_ht_split seg_ok mem_ok ht = Some (1, ht')" "same_map ht ht'"
      "nbuckets ht' = nbuckets ht + 1" "nbuckets ht < 2 ^ 24"
proof -
  obtain R where R: "ht_rep ht R" using assms by (auto simp: ht_inv_def)
  note run = split_run [OF R, of seg_ok mem_ok]
  let ?rs = "R ! unat (route_split (route ht))"
  show thesis
  proof (cases "2 ^ 24 \<le> nbuckets ht \<or> \<not> seg_ok (nbuckets ht) \<or> \<not> mem_ok (length ?rs)")
    case True
    then have "\<exists>rc. pcache_ht_split seg_ok mem_ok ht = Some (rc, ht) \<and> rc \<le> 0"
      unfolding run Let_def by (auto simp del: One_nat_def)
    with True stay show ?thesis by blast
  next
    case False
    then have "\<exists>ht'. pcache_ht_split seg_ok mem_ok ht = Some (1, ht')"
      unfolding run Let_def by simp
    then obtain ht' where e: "pcache_ht_split seg_ok mem_ok ht = Some (1, ht')" by blast
    note sp = split_rep [OF R e]
    have "same_map ht ht'" using sp split_lookup [OF R e] by (auto simp: same_map_def ht_inv_def)
    then show ?thesis using e sp split by blast
  qed
qed

lemma grow_loop_spec:
  assumes "ht_inv ht"
  shows "\<exists>did ht'. grow_loop (pcache_ht_split seg_ok mem_ok) want budget ht = Some (did, ht') \<and>
    same_map ht ht' \<and> nbuckets ht' = nbuckets ht + did \<and> did \<le> budget \<and>
    (did = budget \<or> \<not> want ht' \<or>
     (2 ^ 24 \<le> nbuckets ht' \<or> \<not> seg_ok (nbuckets ht') \<or> (\<exists>n. \<not> mem_ok n)))"
  using assms
proof (induction budget arbitrary: ht)
  case 0
  then show ?case by (simp add: same_map_refl)
next
  case (Suc b)
  show ?case
  proof (cases "want ht")
    case False
    then show ?thesis using Suc.prems by (simp add: same_map_refl)
  next
    case w: True
    show ?thesis
    proof (cases rule: split_cases [OF Suc.prems, of seg_ok mem_ok])
      case (1 rc)
      then show ?thesis using w Suc.prems by (auto simp: same_map_refl)
    next
      case (2 h)
      have "ht_inv h" using 2(2) by (simp add: same_map_def)
      from Suc.IH [OF this] obtain did ht' where
        i: "grow_loop (pcache_ht_split seg_ok mem_ok) want b h = Some (did, ht')" "same_map h ht'"
          "nbuckets ht' = nbuckets h + did" "did \<le> b"
          "did = b \<or> \<not> want ht' \<or>
           (2 ^ 24 \<le> nbuckets ht' \<or> \<not> seg_ok (nbuckets ht') \<or> (\<exists>n. \<not> mem_ok n))" by blast
      have "grow_loop (pcache_ht_split seg_ok mem_ok) want (Suc b) ht = Some (Suc did, ht')"
        using w 2(1) i(1) by simp
      moreover have "same_map ht ht'" using 2(2) i(2) by (rule same_map_trans)
      ultimately show ?thesis using i(3-5) 2(3) by auto
    qed
  qed
qed

text \<open>The unsigned gauge the growth loop reads is the number of live entries.\<close>

lemma created_ge:
  assumes "ht_inv ht"
  shows "st_destroyed ht \<le> st_created ht"
proof -
  obtain R where R: "ht_rep ht R" using assms by (auto simp: ht_inv_def)
  have "0 \<le> tot (\<lambda>rs. int (length rs)) R" by (rule tot_nonneg) simp
  then show ?thesis using R by (simp add: ht_rep_def)
qed

lemma totals_entries_eq:
  assumes "ht_inv ht" "st_created ht < 2 ^ 64"
  shows "totals_entries ht = pcache_ht_entries ht"
proof -
  have "st_destroyed ht \<le> st_created ht" using assms(1) by (rule created_ge)
  then have "(of_nat (st_created ht) - of_nat (st_destroyed ht) :: u64) = of_nat (st_created ht - st_destroyed ht)"
    by (simp add: of_nat_diff)
  then show ?thesis
    using assms(2) by (auto simp: totals_entries_def pcache_ht_entries_def unat_of_nat_small)
qed

end
