(* ===== verification/Htsweep.thy ===== *)
theory Htsweep
  imports Htgrow_Inv
begin

text \<open>
  The expiry sweep against its specification: it reaps exactly the records that are due,
  keeps every other record, recomputes the expiry hints of the buckets it visits and
  passes over the others safely.
\<close>

section \<open>One batch\<close>

text \<open>The walk stands before position \<open>p\<close> of the records \<open>rs\<close>.\<close>

definition walk_at :: "u32 \<Rightarrow> hrec list \<Rightarrow> nat \<Rightarrow> sweeping \<Rightarrow> bool" where
  "walk_at now rs p st \<longleftrightarrow> sw_ch st = layout rs \<and> sw_min st = minexp (take p rs) \<and>
     length (sw_dead st) \<le> PCACHE_SWEEP_BATCH \<and>
     (length (sw_dead st) < PCACHE_SWEEP_BATCH \<longrightarrow> (\<forall>r \<in> set (take p rs). \<not> due now r))"

text \<open>What a finished walk has done to the records \<open>rs\<close>.\<close>

definition walk_done :: "u32 \<Rightarrow> hrec list \<Rightarrow> sweeping \<Rightarrow> hrec list \<Rightarrow> sweeping \<Rightarrow> bool" where
  "walk_done now rs st rs' st' \<longleftrightarrow> sw_ch st' = layout rs' \<and> sw_min st' = minexp rs' \<and>
     mset rs' + mset (sw_dead st') = mset rs + mset (sw_dead st) \<and>
     (\<exists>ds. sw_dead st' = sw_dead st @ ds \<and> (\<forall>r \<in> set ds. due now r)) \<and>
     length (sw_dead st') \<le> PCACHE_SWEEP_BATCH \<and>
     (length (sw_dead st') < PCACHE_SWEEP_BATCH \<longrightarrow> (\<forall>r \<in> set rs'. \<not> due now r)) \<and>
     sw_gone st' + nover (length rs') = sw_gone st + nover (length rs) \<and>
     sw_dsum st' = sw_dsum st + chained_of (length rs') - chained_of (length rs)"

lemma take_swap_remove: "p < length xs \<Longrightarrow> take p (swap_remove xs p) = take p xs"
  by (simp add: swap_remove_def take_butlast)

lemma seg_after_remove:
  assumes "w \<le> nover (length rs)" "i < length (seg rs w)" "nover (length rs - 1) = nover (length rs)"
  shows "i \<le> length (seg (swap_remove rs (5 * w + i)) w)"
  using assms length_seg [of w rs] length_seg [of w "swap_remove rs (5 * w + i)"]
  by (cases "w < nover (length rs)") auto

lemma walk_step_remove:
  assumes "walk_done now (swap_remove rs p) st1 rs' st'" "p < length rs" "due now (rs ! p)"
    "sw_dead st1 = sw_dead st @ [rs ! p]" "sw_gone st1 + nover (length rs - 1) = sw_gone st + nover (length rs)"
    "sw_dsum st1 = sw_dsum st + (chained_of (length rs - 1) - chained_of (length rs))"
  shows "walk_done now rs st rs' st'"
proof -
  have m: "mset rs = add_mset (rs ! p) (mset (swap_remove rs p))" using assms(2) by (rule mset_swap_remove)
  show ?thesis using assms by (auto simp: walk_done_def m)
qed

lemma sweep_walk_layout:
  "\<lbrakk>walk_at now rs (5 * w + i) st; w \<le> nover (length rs); i \<le> length (seg rs w)\<rbrakk> \<Longrightarrow>
   \<exists>rs'. walk_done now rs st rs' (sweep_walk now w i st)"
proof (induction now w i st arbitrary: rs rule: sweep_walk.induct)
  case (1 now w i st)
  let ?p = "5 * w + i" and ?n = "length rs"
  have ch: "sw_ch st = layout rs" using 1(5) by (simp add: walk_at_def)
  have w: "w < length (sw_ch st)" using 1(6) by (simp add: ch)
  have b: "sw_ch st ! w = mk_bkt (seg rs w) (w < nover ?n)" using 1(6) by (simp add: ch layout_nth)
  have used: "bkt_used (sw_ch st ! w) = length (seg rs w)" "bkt_linked (sw_ch st ! w) \<longleftrightarrow> w < nover ?n"
    using length_seg_le [of rs w] by (simp_all add: b)
  show ?case
  proof (cases "i < length (seg rs w)")
    case False
    then have i: "i = length (seg rs w)" using 1(7) by simp
    show ?thesis
    proof (cases "w < nover ?n")
      case True
      then have "?p = 5 * (w + 1) + 0" using i length_seg(1) [OF True] by simp
      then have "walk_at now rs (5 * (w + 1) + 0) st" using 1(5) by metis
      then have "\<exists>rs'. walk_done now rs st rs' (sweep_walk now (w + 1) 0 st)"
        using True w used i by (intro 1(1)) auto
      moreover have "sweep_walk now w i st = sweep_walk now (w + 1) 0 st"
        using True w used i by (subst sweep_walk.simps) simp
      ultimately show ?thesis by simp
    next
      case False
      have "?n \<le> ?p" using 1(6) False i length_seg(2) [OF False] by simp
      then have "walk_done now rs st rs st" using 1(5) by (auto simp: walk_at_def walk_done_def)
      moreover have "sweep_walk now w i st = st"
        using False w used i by (subst sweep_walk.simps) simp
      ultimately show ?thesis by auto
    qed
  next
    case i: True
    have p: "?p < ?n" using 1(6) i by (rule pos_bound)
    have r: "the (slots (sw_ch st ! w) ! i) = rs ! ?p"
      using 1(6) i by (simp add: b nth_append nth_seg)
    show ?thesis
    proof (cases "due now (rs ! ?p) \<and> length (sw_dead st) < PCACHE_SWEEP_BATCH")
      case False
      let ?st = "st\<lparr>sw_min := min_exp (sw_min st) (r_expires (rs ! ?p))\<rparr>"
      have tk: "take (5 * w + (i + 1)) rs = take ?p rs @ [rs ! ?p]"
        using p by (metis add.assoc Suc_eq_plus1 take_Suc_conv_app_nth)
      have "walk_at now rs (5 * w + (i + 1)) ?st"
        using 1(5) False unfolding walk_at_def tk by auto
      then have "\<exists>rs'. walk_done now rs ?st rs' (sweep_walk now w (i + 1) ?st)"
        using 1(4) [OF _ refl _ refl] w used i r False 1(6) by auto
      moreover have "sweep_walk now w i st = sweep_walk now w (i + 1) ?st"
        using w used i r False by (subst sweep_walk.simps) (auto simp: Let_def)
      ultimately show ?thesis by (simp add: walk_done_def)
    next
      case True
      let ?rs = "swap_remove rs ?p"
      let ?dc = "chained_of (?n - 1) - chained_of ?n" and ?gb = "nover (?n - 1) \<noteq> nover ?n"
      let ?st = "st\<lparr>sw_ch := layout ?rs, sw_dead := sw_dead st @ [rs ! ?p],
          sw_top := (if r_ver (rs ! ?p) > sw_top st then r_ver (rs ! ?p) else sw_top st),
          sw_dsum := sw_dsum st + ?dc\<rparr>"
      have rm: "chain_remove_at (sw_ch st) w i = (layout ?rs, ?gb, ?dc)"
        unfolding ch using 1(6) i by (rule chain_remove_layout)
      show ?thesis
      proof (cases ?gb)
        case gb: True
        let ?st' = "?st\<lparr>sw_gone := sw_gone ?st + 1, sw_min := 0\<rparr>"
        have "walk_at now ?rs (5 * 0 + 0) ?st'" using True 1(5) by (auto simp: walk_at_def)
        then have "\<exists>rs'. walk_done now ?rs ?st' rs' (sweep_walk now 0 0 ?st')"
          using 1(2) [OF _ refl _ refl _ rm [symmetric] refl refl] w used i r True gb by auto
        then obtain rs' where d: "walk_done now ?rs ?st' rs' (sweep_walk now 0 0 ?st')" by blast
        obtain m where m: "?n = Suc m" using p by (cases ?n) auto
        have nv: "nover ?n = Suc (nover (?n - 1))" using gb nover_Suc [of m] by (auto simp: m)
        have "walk_done now rs st rs' (sweep_walk now 0 0 ?st')"
          using d p True nv by (intro walk_step_remove [OF d p]) auto
        moreover have "sweep_walk now w i st = sweep_walk now 0 0 ?st'"
          using w used i r True gb rm by (subst sweep_walk.simps) (auto simp: Let_def)
        ultimately show ?thesis by auto
      next
        case gb: False
        have "walk_at now ?rs ?p ?st" using True 1(5) p by (auto simp: walk_at_def take_swap_remove)
        moreover have "w \<le> nover (length ?rs)" "i \<le> length (seg ?rs w)"
          using gb 1(6) seg_after_remove [OF 1(6) i] by auto
        ultimately have "\<exists>rs'. walk_done now ?rs ?st rs' (sweep_walk now w i ?st)"
          using 1(3) [OF _ refl _ refl _ rm [symmetric] refl refl] w used i r True gb by auto
        then obtain rs' where d: "walk_done now ?rs ?st rs' (sweep_walk now w i ?st)" by blast
        have "walk_done now rs st rs' (sweep_walk now w i ?st)"
          using d p True gb by (intro walk_step_remove [OF d p]) auto
        moreover have "sweep_walk now w i st = sweep_walk now w i ?st"
          using w used i r True gb rm by (subst sweep_walk.simps) (auto simp: Let_def)
        ultimately show ?thesis by auto
      qed
    qed
  qed
qed

section \<open>One bucket\<close>

text \<open>The table with \<open>n\<close> records counted as destroyed; the code counts them when the sweep
  ends.\<close>

definition reaped :: "nat \<Rightarrow> htab \<Rightarrow> htab" where
  "reaped n ht = ht\<lparr>st_destroyed := st_destroyed ht + n\<rparr>"

lemma reaped_sel [simp]:
  "route (reaped n ht) = route ht" "nbuckets (reaped n ht) = nbuckets ht" "chains (reaped n ht) = chains ht"
  "hints (reaped n ht) = hints ht" "chained (reaped n ht) = chained ht" "pool (reaped n ht) = pool ht"
  "st_created (reaped n ht) = st_created ht" "st_destroyed (reaped n ht) = st_destroyed ht + n"
  by (simp_all add: reaped_def)

definition same_frame :: "htab \<Rightarrow> htab \<Rightarrow> bool" where
  "same_frame ht ht' \<longleftrightarrow> route ht' = route ht \<and> nbuckets ht' = nbuckets ht \<and>
     st_created ht' = st_created ht \<and> st_destroyed ht' = st_destroyed ht"

lemma same_frame_trans: "same_frame a b \<Longrightarrow> same_frame b c \<Longrightarrow> same_frame a c"
  by (simp add: same_frame_def)

lemma batch_spec:
  assumes "ht_rep (reaped n ht) R" "idx < length R" "sweep_batch now idx s ht = (dead, s', ht')"
  shows "\<exists>rs'. ht_rep (reaped (n + length dead) ht') (R[idx := rs']) \<and>
    mset rs' + mset dead = mset (R ! idx) \<and> (\<forall>r \<in> set dead. due now r) \<and>
    length dead \<le> PCACHE_SWEEP_BATCH \<and>
    (length dead < PCACHE_SWEEP_BATCH \<longrightarrow> (\<forall>r \<in> set rs'. \<not> due now r)) \<and>
    same_frame ht ht' \<and> (\<forall>j. j \<noteq> idx \<longrightarrow> hints ht' ! j = hints ht ! j)"
proof -
  let ?rs = "R ! idx"
  define st where "st = \<lparr>sw_ch = chains ht ! idx, sw_dead = [], sw_gone = 0, sw_min = 0, sw_top = 0, sw_dsum = 0\<rparr>"
  have ch: "chains ht ! idx = layout ?rs" using rep_chain [OF assms(1,2)] by simp
  have "walk_at now ?rs (5 * 0 + 0) st" by (simp add: walk_at_def st_def ch PCACHE_SWEEP_BATCH_def)
  then obtain rs' where d: "walk_done now ?rs st rs' (sweep_walk now 0 0 st)"
    using sweep_walk_layout [of now ?rs 0 0 st] by auto
  let ?st = "sweep_walk now 0 0 st"
  have st0: "sw_dead st = []" "sw_gone st = 0" "sw_dsum st = 0" by (simp_all add: st_def)
  have w: "sw_ch ?st = layout rs'" "sw_min ?st = minexp rs'" "mset rs' + mset (sw_dead ?st) = mset ?rs"
    "\<forall>r \<in> set (sw_dead ?st). due now r" "length (sw_dead ?st) \<le> PCACHE_SWEEP_BATCH"
    "length (sw_dead ?st) < PCACHE_SWEEP_BATCH \<longrightarrow> (\<forall>r \<in> set rs'. \<not> due now r)"
    "sw_gone ?st + nover (length rs') = nover (length ?rs)"
    "sw_dsum ?st = chained_of (length rs') - chained_of (length ?rs)"
    using d by (auto simp: walk_done_def st0)
  have h: "dead = sw_dead ?st" "route ht' = route ht" "nbuckets ht' = nbuckets ht"
    "chains ht' = (chains ht)[idx := layout rs']" "hints ht' = (hints ht)[idx := minexp rs']"
    "chained ht' = chained ht + (chained_of (length rs') - chained_of (length ?rs))"
    "pool ht' = pool_puts (sw_gone ?st) (pool ht)" "st_created ht' = st_created ht"
    "st_destroyed ht' = st_destroyed ht"
    using assms(3) w(1,2,8) unfolding sweep_batch_def st_def [symmetric] Let_def
    by (auto simp: put_chain_def)
  have len: "length rs' + length dead = length ?rs"
    using arg_cong [OF w(3), of size] by (simp add: h(1))
  have pk: "pool_ok (pool ht)" "int (op_in_use (pool ht)) = tot (\<lambda>rs. int (nover (length rs))) R"
    using assms(1) by (auto simp: ht_rep_def)
  have "int (nover (length ?rs)) \<le> int (op_in_use (pool ht))"
    unfolding pk(2) using tot_ge [OF assms(2), of "\<lambda>rs. int (nover (length rs))"] by simp
  then have pl: "pool_ok (pool ht') \<and> op_in_use (pool ht') = op_in_use (pool ht) - sw_gone ?st" "sw_gone ?st \<le> op_in_use (pool ht)"
    unfolding h(7) using pk(1) w(7) by (auto intro!: pool_puts_ok)
  have b: "bucket_ok (route ht) (hints ht ! idx) idx ?rs" using rep_bucket [OF assms(1,2)] by simp
  have sub: "set rs' \<subseteq> set ?rs" using w(3) by (metis mset_subset_eq_add_left set_mset_mono set_mset_mset)
  have "mset (map r_key rs') + mset (map r_key (sw_dead ?st)) = mset (map r_key ?rs)"
    using arg_cong [OF w(3), of "image_mset r_key"] by simp
  then have "distinct (map r_key (rs' @ sw_dead ?st))"
    using bucket_keys [OF b] by (metis map_append mset_append mset_eq_imp_distinct_iff)
  then have bo: "bucket_ok (route ht) (minexp rs') idx rs'"
    using b sub minexp_lower by (auto simp: bucket_ok_def)
  have hl: "idx < length (hints ht)" using assms(1,2) by (simp add: ht_rep_def)
  have "ht_rep (reaped (n + length dead) ht') (R[idx := rs'])"
    by (rule rep_change [OF assms(1,2)]) (use h bo pl w(7) len hl in \<open>auto simp: nth_list_update\<close>)
  moreover have "same_frame ht ht'" using h by (simp add: same_frame_def)
  ultimately show ?thesis using w h by auto
qed

lemma bucket_spec:
  assumes "ht_rep (reaped n ht) R" "idx < length R" "length (R ! idx) < fuel"
  shows "\<exists>dead s' ht' rs'. sweep_bucket fuel now idx s ht = Some (dead, s', ht') \<and>
    ht_rep (reaped (n + length dead) ht') (R[idx := rs']) \<and>
    mset rs' + mset dead = mset (R ! idx) \<and> (\<forall>r \<in> set dead. due now r) \<and> (\<forall>r \<in> set rs'. \<not> due now r) \<and>
    same_frame ht ht' \<and> (\<forall>j. j \<noteq> idx \<longrightarrow> hints ht' ! j = hints ht ! j)"
  using assms
proof (induction fuel arbitrary: n ht R s)
  case (Suc fuel)
  obtain dead s1 ht1 where b: "sweep_batch now idx s ht = (dead, s1, ht1)" by (cases "sweep_batch now idx s ht") auto
  from batch_spec [OF Suc.prems(1,2) b] obtain rs1 where
    r1: "ht_rep (reaped (n + length dead) ht1) (R[idx := rs1])"
      "mset rs1 + mset dead = mset (R ! idx)" "\<forall>r \<in> set dead. due now r" "length dead \<le> PCACHE_SWEEP_BATCH"
      "length dead < PCACHE_SWEEP_BATCH \<longrightarrow> (\<forall>r \<in> set rs1. \<not> due now r)"
      "same_frame ht ht1" "\<forall>j. j \<noteq> idx \<longrightarrow> hints ht1 ! j = hints ht ! j" by blast
  show ?case
  proof (cases "length dead = PCACHE_SWEEP_BATCH")
    case False
    then show ?thesis using b r1 by (intro exI [of _ dead] exI [of _ s1] exI [of _ ht1] exI [of _ rs1]) auto
  next
    case True
    have "length rs1 + length dead = length (R ! idx)" using arg_cong [OF r1(2), of size] by simp
    then have "length (R[idx := rs1] ! idx) < fuel"
      using Suc.prems(2,3) True by (simp add: PCACHE_SWEEP_BATCH_def)
    moreover have "idx < length (R[idx := rs1])" "R[idx := rs1] ! idx = rs1" using Suc.prems(2) by simp_all
    ultimately obtain dead' s' ht' rs' where
      i: "sweep_bucket fuel now idx s1 ht1 = Some (dead', s', ht')"
        "ht_rep (reaped (n + length dead + length dead') ht') (R[idx := rs1, idx := rs'])"
        "mset rs' + mset dead' = mset rs1" "\<forall>r \<in> set dead'. due now r" "\<forall>r \<in> set rs'. \<not> due now r"
        "same_frame ht1 ht'" "\<forall>j. j \<noteq> idx \<longrightarrow> hints ht' ! j = hints ht1 ! j"
      using Suc.IH [OF r1(1), of s1] by auto
    have "sweep_bucket (Suc fuel) now idx s ht = Some (dead @ dead', s', ht')" using b True i(1) by simp
    moreover have "ht_rep (reaped (n + length (dead @ dead')) ht') (R[idx := rs'])"
      using i(2) by (simp add: add.assoc)
    moreover have "mset rs' + mset (dead @ dead') = mset (R ! idx)"
      using i(3) r1(2) by (simp add: add.assoc add.commute [of "mset dead"] flip: i(3))
    moreover have "same_frame ht ht'" using r1(6) i(6) by (rule same_frame_trans)
    ultimately show ?thesis
      using r1 i by (intro exI [of _ "dead @ dead'"] exI [of _ s'] exI [of _ ht'] exI [of _ rs']) auto
  qed
qed simp

lemma mset_parts:
  assumes "mset xs + mset ys = M" "\<forall>r \<in> set xs. \<not> P r" "\<forall>r \<in> set ys. P r"
  shows "mset xs = filter_mset (\<lambda>r. \<not> P r) M" "mset ys = filter_mset P M"
proof -
  have "filter_mset (\<lambda>r. \<not> P r) (mset ys) = {#}" "filter_mset P (mset xs) = {#}"
    "filter_mset (\<lambda>r. \<not> P r) (mset xs) = mset xs" "filter_mset P (mset ys) = mset ys"
    using assms(2,3) by (auto simp: filter_mset_eq_conv)
  then show "mset xs = filter_mset (\<lambda>r. \<not> P r) M" "mset ys = filter_mset P M"
    by (simp_all add: assms(1) [symmetric])
qed

lemma hint_skips:
  assumes "bucket_ok rt h idx rs" "h = 0 \<or> now < h" "r \<in> set rs"
  shows "\<not> due now r"
  using assms by (auto simp: bucket_ok_def due_def)

lemma loop_spec:
  assumes "ht_rep (reaped n ht) R" "distinct is" "set is \<subseteq> {..< length R}"
  shows "\<exists>dead s' ht' R'. sweep_loop now is s ht = Some (dead, s', ht') \<and>
    ht_rep (reaped (n + length dead) ht') R' \<and> length R' = length R \<and> same_frame ht ht' \<and>
    (\<forall>j. j \<notin> set is \<longrightarrow> R' ! j = R ! j) \<and>
    (\<forall>j \<in> set is. mset (R' ! j) = filter_mset (\<lambda>r. \<not> due now r) (mset (R ! j))) \<and>
    mset dead = sum_list (map (\<lambda>j. filter_mset (due now) (mset (R ! j))) is)"
  using assms
proof (induction "is" arbitrary: n ht R s)
  case Nil
  then show ?case by (auto simp: same_frame_def)
next
  case (Cons idx js)
  have idx: "idx < length R" "idx \<notin> set js" "distinct js" "set js \<subseteq> {..< length R}" using Cons.prems(2,3) by auto
  have b: "bucket_ok (route ht) (hints ht ! idx) idx (R ! idx)"
    using rep_bucket [OF Cons.prems(1) idx(1)] by simp
  show ?case
  proof (cases "hints ht ! idx = 0 \<or> now < hints ht ! idx")
    case True
    then have nd: "\<forall>r \<in> set (R ! idx). \<not> due now r" using hint_skips [OF b] by auto
    have f: "filter_mset (due now) (mset (R ! idx)) = {#}"
      "filter_mset (\<lambda>r. \<not> due now r) (mset (R ! idx)) = mset (R ! idx)"
      using nd by (auto simp: filter_mset_eq_conv)
    obtain dead s' ht' R' where i: "sweep_loop now js s ht = Some (dead, s', ht')"
        "ht_rep (reaped (n + length dead) ht') R'" "length R' = length R" "same_frame ht ht'"
        "\<forall>j. j \<notin> set js \<longrightarrow> R' ! j = R ! j"
        "\<forall>j \<in> set js. mset (R' ! j) = filter_mset (\<lambda>r. \<not> due now r) (mset (R ! j))"
        "mset dead = sum_list (map (\<lambda>j. filter_mset (due now) (mset (R ! j))) js)"
      using Cons.IH [OF Cons.prems(1) idx(3,4), of s] by blast
    have "sweep_loop now (idx # js) s ht = Some (dead, s', ht')" using True i(1) by (simp add: Let_def)
    then show ?thesis using i idx(2) f by (intro exI [of _ dead] exI [of _ s'] exI [of _ ht'] exI [of _ R']) auto
  next
    case False
    have n: "snd (chain_tail (chains ht ! idx)) = length (R ! idx)"
      using rep_chain [OF Cons.prems(1) idx(1)] by simp
    obtain d1 s1 ht1 rs1 where b1: "sweep_bucket (length (R ! idx) + 1) now idx s ht = Some (d1, s1, ht1)"
        "ht_rep (reaped (n + length d1) ht1) (R[idx := rs1])" "mset rs1 + mset d1 = mset (R ! idx)"
        "\<forall>r \<in> set d1. due now r" "\<forall>r \<in> set rs1. \<not> due now r" "same_frame ht ht1"
      using bucket_spec [OF Cons.prems(1) idx(1), of "length (R ! idx) + 1" now s] by auto
    note parts = mset_parts [OF b1(3) b1(5,4)]
    let ?R = "R[idx := rs1]"
    have "set js \<subseteq> {..< length ?R}" using idx(4) by simp
    from Cons.IH [OF b1(2) idx(3) this, of s1] obtain dead s' ht' R' where
      i: "sweep_loop now js s1 ht1 = Some (dead, s', ht')"
        "ht_rep (reaped (n + length d1 + length dead) ht') R'" "length R' = length ?R" "same_frame ht1 ht'"
        "\<forall>j. j \<notin> set js \<longrightarrow> R' ! j = ?R ! j"
        "\<forall>j \<in> set js. mset (R' ! j) = filter_mset (\<lambda>r. \<not> due now r) (mset (?R ! j))"
        "mset dead = sum_list (map (\<lambda>j. filter_mset (due now) (mset (?R ! j))) js)" by blast
    have nth: "?R ! j = R ! j" if "j \<in> set js" for j using that idx(2) by (intro nth_list_update_neq) auto
    have run: "sweep_loop now (idx # js) s ht = Some (d1 @ dead, s', ht')"
      using False b1(1) i(1) by (simp add: Let_def n)
    have md: "mset (d1 @ dead) = sum_list (map (\<lambda>j. filter_mset (due now) (mset (R ! j))) (idx # js))"
      using parts(2) i(7) nth by (simp cong: map_cong)
    have "mset (R' ! idx) = filter_mset (\<lambda>r. \<not> due now r) (mset (R ! idx))"
      using i(5) idx(1,2) parts(1) by simp
    then have keep: "\<forall>j \<in> set (idx # js). mset (R' ! j) = filter_mset (\<lambda>r. \<not> due now r) (mset (R ! j))"
      using i(6) nth by simp
    have "\<forall>j. j \<notin> set (idx # js) \<longrightarrow> R' ! j = R ! j" using i(5) by simp
    moreover have "ht_rep (reaped (n + length (d1 @ dead)) ht') R'" using i(2) by (simp add: add.assoc)
    ultimately show ?thesis
      using run md keep i(3) same_frame_trans [OF b1(6) i(4)]
      by (intro exI [of _ "d1 @ dead"] exI [of _ s'] exI [of _ ht'] exI [of _ R']) simp
  qed
qed

section \<open>The sweep\<close>

lemma rep_member:
  assumes "ht_rep ht R" "j < length R"
  shows "r \<in> set (R ! j) \<longleftrightarrow> ht_lookup ht (r_key r) = Some r \<and> key_idx ht (r_key r) = j"
proof
  note b = rep_bucket [OF assms]
  assume r: "r \<in> set (R ! j)"
  then have "key_idx ht (r_key r) = j" using b by (auto simp: bucket_ok_def hrec_ok_def key_idx_def)
  then show "ht_lookup ht (r_key r) = Some r \<and> key_idx ht (r_key r) = j"
    using r by (simp add: rep_lookup [OF assms(1)] kmap_iff [OF bucket_keys [OF b]])
next
  assume "ht_lookup ht (r_key r) = Some r \<and> key_idx ht (r_key r) = j"
  then have "kmap (R ! j) (r_key r) = Some r" by (auto simp: rep_lookup [OF assms(1)])
  then show "r \<in> set (R ! j)" by (simp add: kmap_iff [OF bucket_keys [OF rep_bucket [OF assms]]])
qed

lemma sum_filters:
  "sum_list (map (\<lambda>j. filter_mset P (mset (R ! j))) js) = mset (concat (map (\<lambda>j. filter P (R ! j)) js))"
  by (induction js) simp_all

lemma distinct_over_buckets:
  assumes "ht_rep ht R" "distinct js" "set js \<subseteq> {..< length R}"
  shows "distinct (map r_key (concat (map (\<lambda>j. filter P (R ! j)) js)))"
  using assms(2,3)
proof (induction js)
  case (Cons j js)
  have d: "distinct (map r_key (R ! j))" using Cons.prems by (intro bucket_keys [OF rep_bucket [OF assms(1)]]) auto
  have "r_key r \<noteq> r_key q" if "r \<in> set (R ! j)" "q \<in> set (R ! i)" "i \<in> set js" for r q i
  proof -
    have "j < length R" "i < length R" "i \<noteq> j" using Cons.prems that(3) by auto
    then show ?thesis using rep_member [OF assms(1), of j r] rep_member [OF assms(1), of i q] that by metis
  qed
  then show ?case using Cons d by (auto simp: distinct_map_filter)
qed simp

lemma entries_diff: "pcache_ht_entries ht = st_created ht - st_destroyed ht"
  by (simp add: pcache_ht_entries_def)

lemma sweep_runs:
  assumes "ht_inv ht"
  shows "\<exists>dead s' ht'. pcache_ht_sweep now s ht = Some (dead, s', ht') \<and> ht_inv ht' \<and>
    (\<forall>key. ht_lookup ht' key =
       (case ht_lookup ht key of None \<Rightarrow> None | Some r \<Rightarrow> if due now r then None else Some r)) \<and>
    (\<forall>r. r \<in> set dead \<longleftrightarrow> ht_lookup ht (r_key r) = Some r \<and> due now r) \<and>
    distinct (map r_key dead) \<and> pcache_ht_entries ht = pcache_ht_entries ht' + length dead"
proof -
  obtain R where R: "ht_rep ht R" using assms by (auto simp: ht_inv_def)
  have len: "length R = nbuckets ht" using R by (simp add: ht_rep_def)
  have "ht_rep (reaped 0 ht) R" using R by (simp add: reaped_def)
  then obtain dead s' h R' where l: "sweep_loop now [0 ..< nbuckets ht] s ht = Some (dead, s', h)"
      "ht_rep (reaped (length dead) h) R'" "length R' = length R" "same_frame ht h"
      "\<forall>j < length R. mset (R' ! j) = filter_mset (\<lambda>r. \<not> due now r) (mset (R ! j))"
      "mset dead = sum_list (map (\<lambda>j. filter_mset (due now) (mset (R ! j))) [0 ..< nbuckets ht])"
    using loop_spec [of 0 ht R "[0 ..< nbuckets ht]" now s] len by (auto simp: atLeast0LessThan)
  define ht' where "ht' = h\<lparr>st_destroyed := st_destroyed h + length dead, st_expired := st_expired h + length dead\<rparr>"
  have run: "pcache_ht_sweep now s ht = Some (dead, s', ht')" by (simp add: pcache_ht_sweep_def l(1) ht'_def)
  have R': "ht_rep ht' R'" by (rule rep_same [OF l(2)]) (simp_all add: ht'_def)
  have rt: "route ht' = route ht" using l(4) by (simp add: ht'_def same_frame_def)
  have look: "ht_lookup ht' key = (case ht_lookup ht key of None \<Rightarrow> None | Some r \<Rightarrow> if due now r then None else Some r)" for key
  proof -
    let ?i = "key_idx ht key"
    have i: "?i < length R" using R by (rule rep_idx)
    have i': "key_idx ht' key = ?i" using rt by (rule key_idx_cong)
    have "mset (R' ! ?i) = filter_mset (\<lambda>r. \<not> due now r) (mset (R ! ?i))" using l(5) i by blast
    then have set: "set (R' ! ?i) = {r \<in> set (R ! ?i). \<not> due now r}"
      by (metis set_mset_filter set_mset_mset)
    have d: "distinct (map r_key (R ! ?i))" "distinct (map r_key (R' ! ?i))"
      using bucket_keys [OF rep_bucket [OF R i]] bucket_keys [OF rep_bucket [OF R']] i l(3) by auto
    show ?thesis
    proof (cases "kmap (R ! ?i) key")
      case None
      then have "kmap (R' ! ?i) key = None" by (auto simp: kmap_None set)
      with None show ?thesis by (simp add: rep_lookup [OF R] rep_lookup [OF R'] i')
    next
      case (Some r)
      then have r: "r \<in> set (R ! ?i)" "r_key r = key" by (simp_all add: kmap_iff [OF d(1)])
      have u: "q = r" if "q \<in> set (R ! ?i)" "r_key q = key" for q
        using Some that kmap_iff [OF d(1), of key q] by simp
      have "kmap (R' ! ?i) key = (if due now r then None else Some r)"
      proof (cases "due now r")
        case True
        then have "\<forall>q \<in> set (R' ! ?i). r_key q \<noteq> key" using u unfolding set by blast
        then show ?thesis using True by (simp add: kmap_None)
      next
        case False
        then have "r \<in> set (R' ! ?i) \<and> r_key r = key" using r unfolding set by blast
        then show ?thesis using False by (simp add: kmap_iff [OF d(2)])
      qed
      with Some show ?thesis by (simp add: rep_lookup [OF R] rep_lookup [OF R'] i')
    qed
  qed
  have mem: "r \<in> set dead \<longleftrightarrow> ht_lookup ht (r_key r) = Some r \<and> due now r" for r
  proof -
    have "r \<in> set dead \<longleftrightarrow> r \<in># mset dead" by simp
    also have "\<dots> \<longleftrightarrow> (\<exists>j < length R. r \<in> set (R ! j) \<and> due now r)"
      unfolding l(6) sum_filters by (auto simp: len)
    also have "\<dots> \<longleftrightarrow> ht_lookup ht (r_key r) = Some r \<and> due now r"
      using rep_member [OF R] rep_idx [OF R] by blast
    finally show ?thesis .
  qed
  have "mset dead = mset (concat (map (\<lambda>j. filter (due now) (R ! j)) [0 ..< nbuckets ht]))"
    using l(6) by (simp only: sum_filters)
  then have "mset (map r_key dead) = mset (map r_key (concat (map (\<lambda>j. filter (due now) (R ! j)) [0 ..< nbuckets ht])))"
    by (metis mset_map)
  moreover have "distinct (map r_key (concat (map (\<lambda>j. filter (due now) (R ! j)) [0 ..< nbuckets ht])))"
    using distinct_over_buckets [OF R, of "[0 ..< nbuckets ht]" "due now"] len by (simp add: atLeast0LessThan)
  ultimately have dd: "distinct (map r_key dead)" by (metis mset_eq_imp_distinct_iff)
  have inv': "ht_inv ht'" using R' by (auto simp: ht_inv_def)
  have "pcache_ht_entries ht = pcache_ht_entries ht' + length dead"
    using created_ge [OF inv'] l(4) by (simp add: entries_diff ht'_def same_frame_def)
  then show ?thesis
    using run inv' look mem dd by (intro exI [of _ dead] exI [of _ s'] exI [of _ ht']) blast
qed

section \<open>A fresh table\<close>

lemma new_rep:
  assumes "pcache_htable_new room n = Some ht"
  shows "ht_rep ht (replicate (2 ^ n) [])" "ht_lookup ht key = None"
proof -
  have n: "n \<le> 24" and ht: "ht = \<lparr>route = push_bit 32 (of_nat n), nbuckets = 2 ^ n,
             chains = replicate (2 ^ n) [zero_bkt], hints = replicate (2 ^ n) 0, chained = 0,
             pool = pcache_opool_init, st_hits = 0, st_misses = 0, st_stores = 0, st_immortal = 0,
             st_removes = 0, st_created = 0, st_destroyed = 0, st_expired = 0\<rparr>"
    using assms by (auto simp: pcache_htable_new_def PCACHE_MAX_SIZE_LOG2_def Let_def split: if_splits)
  have "push_bit 32 (of_nat n) = (push_bit 32 (of_nat n) OR ucast (0 :: u32) :: u64)" by simp
  then have rt: "route_level (route ht) = n" "route_split (route ht) = 0"
    using route_parts [of n 0] n by (simp_all add: ht)
  have "(2 :: nat) ^ n \<le> 2 ^ 24" using n by (rule power_increasing) simp
  then have ro: "route_ok (route ht) (2 ^ n)" using n by (simp add: route_ok_def rt)
  show rep: "ht_rep ht (replicate (2 ^ n) [])"
    unfolding ht_rep_def
    using ro by (simp add: ht layout_Nil bucket_ok_def pool_ok_def pcache_opool_init_def
        tot_replicate_Nil chained_of_def nover_def map_replicate_const)
  show "ht_lookup ht key = None"
    using rep_idx [OF rep, of key] by (simp add: rep_lookup [OF rep] kmap_def)
qed

section \<open>The chain check\<close>

lemma check_used_ok:
  assumes "\<And>i. i \<in> set is \<Longrightarrow> \<exists>r. slots w ! i = Some r \<and> tags w ! i = tag_of (r_hash r) \<and>
      unat (route_idx (route ht) (r_hash r)) = idx"
  shows "check_used ht idx w is = None"
  using assms by (induction "is") fastforce+

lemma check_bucket_ok:
  assumes "k \<le> PCACHE_CHAIN_HOPS" "length rs \<le> 6" "lk \<longrightarrow> length rs = 5" "k \<noteq> 0 \<and> \<not> lk \<longrightarrow> 2 \<le> length rs"
    "\<forall>r \<in> set rs. unat (route_idx (route ht) (r_hash r)) = idx"
  shows "check_bucket ht idx k (mk_bkt rs lk) = None"
proof -
  let ?w = "mk_bkt rs lk"
  have u: "check_used ht idx ?w [0 ..< length rs] = None"
    using assms(5) by (intro check_used_ok) (auto simp: nth_append)
  have f: "\<not> list_ex (\<lambda>i. tags ?w ! i \<noteq> 0 \<or> slots ?w ! i \<noteq> None) [length rs ..< bkt_cap ?w]"
    using assms(2) by (auto simp: list_ex_iff nth_append)
  show ?thesis
    unfolding check_bucket_def Let_def
    using assms(1-4) u f by (auto simp: PCACHE_SLOTS_def nth_append)
qed

lemma check_chain_ok:
  assumes "\<forall>r \<in> set rs. unat (route_idx (route ht) (r_hash r)) = idx" "nover (length rs) \<le> PCACHE_CHAIN_HOPS"
    "j \<le> nover (length rs)"
  shows "check_chain ht idx j (drop j (layout rs)) m = Inr (m + (length rs - 5 * j))"
  using assms(3)
proof (induction "nover (length rs) - j" arbitrary: j m)
  case 0
  then have j: "j = nover (length rs)" by simp
  have "check_bucket ht idx j (mk_bkt (seg rs j) False) = None"
    using assms(1,2) length_seg(2) [of j rs] length_seg_le [of rs j] j seg_sub(1) [of rs j]
      nover_range(3) [of "length rs"]
    by (intro check_bucket_ok) auto
  moreover have "drop j (layout rs) = [mk_bkt (seg rs j) False]"
    using j by (simp add: Cons_nth_drop_Suc [symmetric] layout_nth)
  moreover have "length (seg rs j) \<le> 6" by (rule length_seg_le)
  ultimately show ?case using length_seg(2) [of j rs] j by simp
next
  case (Suc d)
  then have j: "j < nover (length rs)" by simp
  have "check_bucket ht idx j (mk_bkt (seg rs j) True) = None"
    using assms(1,2) length_seg(1) [OF j] j seg_sub(1) [of rs j] by (intro check_bucket_ok) auto
  moreover have "drop j (layout rs) = mk_bkt (seg rs j) True # drop (Suc j) (layout rs)"
    using j by (simp add: Cons_nth_drop_Suc [symmetric] layout_nth)
  moreover have "check_chain ht idx (j + 1) (drop (j + 1) (layout rs)) (m + 5) = Inr (m + 5 + (length rs - 5 * (j + 1)))"
    using Suc by (intro Suc.hyps(1)) auto
  moreover have "5 * (j + 1) \<le> length rs" using j nover_range(1) [of "length rs"] by simp
  ultimately show ?case using length_seg(1) [OF j] by simp
qed

lemma check_chains_ok:
  assumes "ht_rep ht R" "\<forall>rs \<in> set R. nover (length rs) \<le> PCACHE_CHAIN_HOPS" "set is \<subseteq> {..< length R}"
    "c + sum_list (map (\<lambda>j. chained_of (length (R ! j))) is) = int (pcache_ht_overflow ht)"
  shows "check_chains ht is c = None"
  using assms(3,4)
proof (induction "is" arbitrary: c)
  case (Cons j js)
  then have j: "j < length R" by simp
  have "check_chain ht j 0 (drop 0 (layout (R ! j))) 0 = Inr (0 + (length (R ! j) - 5 * 0))"
    using rep_bucket [OF assms(1) j] assms(2) j by (intro check_chain_ok) (auto simp: bucket_ok_def)
  then show ?case using Cons rep_chain [OF assms(1) j] by (simp add: add.assoc)
qed simp

lemma chain_check_ok:
  assumes "ht_rep ht R" "\<forall>rs \<in> set R. nover (length rs) \<le> PCACHE_CHAIN_HOPS"
  shows "pcache_ht_chain_check ht = None"
proof -
  have len: "length R = nbuckets ht" and c: "chained ht = tot (\<lambda>rs. chained_of (length rs)) R"
    using assms(1) by (simp_all add: ht_rep_def)
  have "0 \<le> chained ht" unfolding c by (intro tot_nonneg) (simp add: chained_of_def PCACHE_SLOTS_def)
  then have "int (pcache_ht_overflow ht) = tot (\<lambda>rs. chained_of (length rs)) R"
    by (auto simp: pcache_ht_overflow_def c)
  also have "\<dots> = sum_list (map (\<lambda>j. chained_of (length (R ! j))) [0 ..< nbuckets ht])"
    unfolding tot_def len [symmetric] by (metis (no_types, lifting) map_map map_nth comp_def map_eq_conv)
  finally show ?thesis
    unfolding pcache_ht_chain_check_def
    using len by (intro check_chains_ok [OF assms]) (auto simp: atLeast0LessThan)
qed

end
