(* ===== verification/Drain.thy ===== *)
theory Drain
  imports Htable_Read
begin

text \<open>
  A table whose resize is still draining the table it replaces,
  \<open>src/src/core/pcache_htable.c\<close>: reads that fall back to the drained table or prefer its
  newer copy, the carry of a key before a write, the drop of the drained copy after it,
  and the public write and read entry points built from them.  A read may also fall to the
  chain of shadow tables of an upstream.  Inner lookups run with the statistics off,
  so only the first one counts.
\<close>

section \<open>State\<close>

record dtab =
  d_main :: htab
  d_from :: "htab option"
  d_shadow :: "htab list"
  d_gate :: "bytes \<Rightarrow> bool"

definition PCACHE_F_UPMARK :: u8 where "PCACHE_F_UPMARK = 0x40"

text \<open>\<open>"%lld"\<close>.\<close>

fun dec :: "nat \<Rightarrow> bytes" where
  "dec n = (if n < 10 then [48 + of_nat n] else dec (n div 10) @ [48 + of_nat (n mod 10)])"

declare dec.simps [simp del]

definition lld :: "u64 \<Rightarrow> bytes" where
  "lld v = (if sint v < 0 then 45 # dec (nat (- sint v)) else dec (nat (sint v)))"

section \<open>Reads\<close>

definition rc_of :: "fetched \<Rightarrow> int" where
  "rc_of f = (case f of Miss \<Rightarrow> -2 | Hit _ \<Rightarrow> 0 | Counter _ _ \<Rightarrow> 1 | TooSmall _ \<Rightarrow> PCACHE_E_TOOSMALL)"

definition hit_of :: "fetched \<Rightarrow> hit option" where
  "hit_of f = (case f of Miss \<Rightarrow> None | Hit h \<Rightarrow> Some h | Counter h _ \<Rightarrow> Some h | TooSmall h \<Rightarrow> Some h)"

definition ver_of :: "fetched \<Rightarrow> u64" where
  "ver_of f = (case hit_of f of None \<Rightarrow> 0 | Some h \<Rightarrow> h_ver h)"

definition miss_to_hit :: "htab \<Rightarrow> htab" where
  "miss_to_hit ht = ht\<lparr>st_misses := st_misses ht - 1, st_hits := st_hits ht + 1\<rparr>"

definition fetch_main :: "u32 \<Rightarrow> bytes \<Rightarrow> nat option \<Rightarrow> dtab \<Rightarrow> fetched \<times> dtab" where
  "fetch_main now key cap d =
    (case fetch_core now key cap (d_main d) of (r, ht) \<Rightarrow>
       (case d_from d of
          None \<Rightarrow> (r, d\<lparr>d_main := ht\<rparr>)
        | Some dr \<Rightarrow>
            if r \<noteq> Miss then
              let r2 = fst (fetch_core now key None dr) in
              if rc_of r2 \<ge> 0 \<and> ver_of r2 > ver_of r then
                let r3 = fst (fetch_core now key cap dr) in
                if rc_of r3 = rc_of r2 then (r3, d\<lparr>d_main := ht\<rparr>)
                else (fst (fetch_core now key cap ht), d\<lparr>d_main := ht\<rparr>)
              else (r, d\<lparr>d_main := ht\<rparr>)
            else
              let r = fst (fetch_core now key cap dr) in
              (r, d\<lparr>d_main := (if rc_of r \<ge> 0 then miss_to_hit ht else ht)\<rparr>)))"

text \<open>The first shadow table that answers anything but a miss.\<close>

fun fetch_shadow :: "u32 \<Rightarrow> bytes \<Rightarrow> nat option \<Rightarrow> htab list \<Rightarrow> fetched" where
  "fetch_shadow now key cap [] = Miss"
| "fetch_shadow now key cap (sh # shs) =
     (let r = fst (fetch_core now key cap sh) in if r \<noteq> Miss then r else fetch_shadow now key cap shs)"

definition pcache_ht_fetch_buf_inner :: "bool \<Rightarrow> u32 \<Rightarrow> bytes \<Rightarrow> nat option \<Rightarrow> dtab \<Rightarrow> fetched \<times> dtab" where
  "pcache_ht_fetch_buf_inner shadow_reads now key cap d =
    (case fetch_main now key cap d of (r, d) \<Rightarrow>
       if r \<noteq> Miss \<or> \<not> shadow_reads then (r, d)
       else if d_shadow d = [] then (r, d)
       else
         let r = fetch_shadow now key cap (d_shadow d);
             fl = (case hit_of r of None \<Rightarrow> 0 | Some h \<Rightarrow> h_fl h)
         in if rc_of r \<ge> 0 \<and> (fl AND PCACHE_F_UPMARK \<noteq> 0 \<or> \<not> d_gate d key) then (Miss, d)
            else if rc_of r \<ge> 0 then (r, d\<lparr>d_main := miss_to_hit (d_main d)\<rparr>)
            else (r, d))"

text \<open>The allocating entry point: a counter is formatted, a value copied.  \<open>Inl\<close> is the
  negative result code.\<close>

definition pcache_ht_fetch_inner :: "bool \<Rightarrow> u32 \<Rightarrow> bytes \<Rightarrow> dtab \<Rightarrow> (int + bytes \<times> hit) \<times> dtab" where
  "pcache_ht_fetch_inner shadow_reads now key d =
    (case pcache_ht_fetch_buf_inner shadow_reads now key (Some PCACHE_CELL_MAX) d of (r, d) \<Rightarrow>
       (case r of
          Miss \<Rightarrow> Inl (-2)
        | TooSmall _ \<Rightarrow> Inl (-1)
        | Counter h ll \<Rightarrow> Inr (lld ll, h)
        | Hit h \<Rightarrow> Inr (take (h_vlen h) (h_val h), h), d))"

definition PCACHE_GETBUF_MIN :: nat where "PCACHE_GETBUF_MIN = 24"

text \<open>The entry point with the caller's buffer of \<open>buflen\<close> bytes: the needed length on
  \<open>PCACHE_E_TOOSMALL\<close>.\<close>

definition pcache_ht_fetch_buf_fl :: "bool \<Rightarrow> u32 \<Rightarrow> bytes \<Rightarrow> nat \<Rightarrow> dtab \<Rightarrow> (int \<times> nat + bytes \<times> hit) \<times> dtab" where
  "pcache_ht_fetch_buf_fl shadow_reads now key buflen d =
    (if buflen < PCACHE_GETBUF_MIN then (Inl (-1, 0), d)
     else case pcache_ht_fetch_buf_inner shadow_reads now key (Some buflen) d of (r, d) \<Rightarrow>
       (case r of
          Miss \<Rightarrow> Inl (-2, 0)
        | TooSmall h \<Rightarrow> Inl (PCACHE_E_TOOSMALL, h_vlen h)
        | Counter h ll \<Rightarrow> Inr (lld ll, h)
        | Hit h \<Rightarrow> Inr (take (h_vlen h) (h_val h), h), d))"

text \<open>The probe: length, expiry, and whether the record is a counter.\<close>

definition pcache_ht_probe :: "bool \<Rightarrow> u32 \<Rightarrow> bytes \<Rightarrow> dtab \<Rightarrow> (nat \<times> u32 \<times> bool) option \<times> dtab" where
  "pcache_ht_probe shadow_reads now key d =
    (case pcache_ht_fetch_buf_inner shadow_reads now key None d of (r, d) \<Rightarrow>
       (if rc_of r < 0 then None
        else map_option (\<lambda>h. (h_vlen h, h_exp h, rc_of r = 1)) (hit_of r), d))"

definition pcache_ht_getflags :: "bool \<Rightarrow> u32 \<Rightarrow> bytes \<Rightarrow> dtab \<Rightarrow> u8 option \<times> dtab" where
  "pcache_ht_getflags shadow_reads now key d =
    (case pcache_ht_fetch_buf_inner shadow_reads now key None d of (r, d) \<Rightarrow>
       (if rc_of r < 0 then None else map_option h_fl (hit_of r), d))"

definition getver_impl :: "u32 \<Rightarrow> bytes \<Rightarrow> dtab \<Rightarrow> (u64 \<times> u32) option" where
  "getver_impl now key d =
    (let r = getver_one now key (d_main d) in
     case d_from d of
       None \<Rightarrow> r
     | Some dr \<Rightarrow>
         (case r of
            None \<Rightarrow> getver_one now key dr
          | Some (v, wt) \<Rightarrow>
              (case getver_one now key dr of
                 Some (vo, wo) \<Rightarrow> if vo > v then Some (vo, wo) else Some (v, wt)
               | None \<Rightarrow> Some (v, wt))))"

section \<open>Writes\<close>

definition drain_forget :: "bytes \<Rightarrow> sys \<Rightarrow> dtab \<Rightarrow> sys \<times> dtab" where
  "drain_forget key s d =
    (case d_from d of
       None \<Rightarrow> (s, d)
     | Some dr \<Rightarrow>
         (case getver_one 0 key (d_main d) of
            None \<Rightarrow> (s, d)
          | Some (ver, _) \<Rightarrow>
              if ver = 0 then (s, d)
              else case pcache_ht_remove_below key (ver + 1) s dr of (_, s, dr) \<Rightarrow>
                (s, d\<lparr>d_from := Some dr\<rparr>)))"

definition carried_val :: "hrec \<Rightarrow> bytes" where
  "carried_val r = (if r_flags r AND PCACHE_F_INT \<noteq> 0 \<and> length (r_val r) = 8
     then lld (pc_g64 (r_val r) 0) else r_val r)"

definition drain_carry :: "env \<Rightarrow> bytes \<Rightarrow> sys \<Rightarrow> dtab \<Rightarrow> sys \<times> dtab" where
  "drain_carry e key s d =
    (case d_from d of
       None \<Rightarrow> (s, d)
     | Some dr \<Rightarrow>
         let now = e_now e;
             f = fst (fetch_core now key None (d_main d));
             nver = (if f = Miss then 0 else ver_of f);
             hash = pcache_key_hash key; ch = chains dr ! key_idx dr key
         in (case chain_find ch key hash (tag_of hash) of
              None \<Rightarrow> (s, d)
            | Some (w, i) \<Rightarrow>
                let r = the (slots (ch ! w) ! i) in
                if (r_expires r = 0 \<or> r_expires r > now) \<and> r_ver r > nver then
                  (case store_here e (r_key r) (carried_val r) (r_expires r)
                      (r_flags r AND (PCACHE_F_PASSIVE OR PCACHE_F_CARRY)) (r_ver r) True True
                      (r_wtick r) s (d_main d) of (_, s, ht) \<Rightarrow> (s, d\<lparr>d_main := ht\<rparr>))
                else (s, d)))"

definition store_body :: "env \<Rightarrow> bytes \<Rightarrow> bytes \<Rightarrow> u32 \<Rightarrow> u8 \<Rightarrow> u64 \<Rightarrow> bool \<Rightarrow> bool \<Rightarrow> u32 \<Rightarrow>
    sys \<Rightarrow> dtab \<Rightarrow> int \<times> sys \<times> dtab" where
  "store_body e key val ex fl inver use_ver keep_wt inwtick s d =
    (if length key > 0xFFFF \<or> rec_size key val > PCACHE_CELL_MAX then (-1, s, d)
     else
       (case (if keep_wt then (s, d) else drain_carry e key s d) of (s, d) \<Rightarrow>
          (case store_here e key val ex fl inver use_ver keep_wt inwtick s (d_main d) of
             (rc, s, ht) \<Rightarrow> (rc, s, d\<lparr>d_main := ht\<rparr>))))"

definition store_impl :: "env \<Rightarrow> bytes \<Rightarrow> bytes \<Rightarrow> u32 \<Rightarrow> u8 \<Rightarrow> u64 \<Rightarrow> bool \<Rightarrow> bool \<Rightarrow> u32 \<Rightarrow>
    sys \<Rightarrow> dtab \<Rightarrow> int \<times> sys \<times> dtab" where
  "store_impl e key val ex fl inver use_ver keep_wt inwtick s d =
    (case store_body e key val ex fl inver use_ver keep_wt inwtick s d of (rc, s, d) \<Rightarrow>
       (case drain_forget key s d of (s, d) \<Rightarrow> (rc, s, d)))"

definition pcache_ht_store_ex :: "env \<Rightarrow> bytes \<Rightarrow> bytes \<Rightarrow> u32 \<Rightarrow> u8 \<Rightarrow> sys \<Rightarrow> dtab \<Rightarrow> int \<times> sys \<times> dtab" where
  "pcache_ht_store_ex e key val ex fl s d = store_impl e key val ex fl 0 False False 0 s d"

definition pcache_ht_store_ver :: "env \<Rightarrow> bytes \<Rightarrow> bytes \<Rightarrow> u32 \<Rightarrow> u8 \<Rightarrow> u64 \<Rightarrow> sys \<Rightarrow> dtab \<Rightarrow> int \<times> sys \<times> dtab" where
  "pcache_ht_store_ver e key val ex fl ver s d = store_impl e key val ex fl ver True False 0 s d"

definition pcache_ht_store_copy :: "env \<Rightarrow> bytes \<Rightarrow> bytes \<Rightarrow> u32 \<Rightarrow> u8 \<Rightarrow> u64 \<Rightarrow> u32 \<Rightarrow> sys \<Rightarrow> dtab \<Rightarrow>
    int \<times> sys \<times> dtab" where
  "pcache_ht_store_copy e key val ex fl ver wtick s d = store_impl e key val ex fl ver True True wtick s d"

definition add_ex_body :: "env \<Rightarrow> bytes \<Rightarrow> u64 \<Rightarrow> u32 \<Rightarrow> sys \<Rightarrow> dtab \<Rightarrow> (u64 \<times> u32) option \<times> sys \<times> dtab" where
  "add_ex_body e key delta ex s d =
    (if length key > 0xFFFF then (None, s, d)
     else case drain_carry e key s d of (s, d) \<Rightarrow>
       (case add_here e key delta ex s (d_main d) of (r, s, ht) \<Rightarrow> (r, s, d\<lparr>d_main := ht\<rparr>)))"

definition pcache_ht_add_ex :: "env \<Rightarrow> bytes \<Rightarrow> u64 \<Rightarrow> u32 \<Rightarrow> sys \<Rightarrow> dtab \<Rightarrow>
    (u64 \<times> u32) option \<times> sys \<times> dtab" where
  "pcache_ht_add_ex e key delta ex s d =
    (case add_ex_body e key delta ex s d of (r, s, d) \<Rightarrow>
       (case drain_forget key s d of (s, d) \<Rightarrow> (r, s, d)))"

definition pcache_ht_setver :: "env \<Rightarrow> bytes \<Rightarrow> u64 \<Rightarrow> sys \<Rightarrow> dtab \<Rightarrow> int \<times> sys \<times> dtab" where
  "pcache_ht_setver e key ver s d =
    (case drain_carry e key s d of (s, d) \<Rightarrow>
       (case setver_here key ver (d_main d) of (rc, ht) \<Rightarrow>
          (case drain_forget key s (d\<lparr>d_main := ht\<rparr>) of (s, d) \<Rightarrow> (rc, s, d))))"

definition touch_inner :: "env \<Rightarrow> bytes \<Rightarrow> u32 \<Rightarrow> bool \<Rightarrow> sys \<Rightarrow> dtab \<Rightarrow> int \<times> bool \<times> sys \<times> dtab" where
  "touch_inner e key ex adopt s d =
    (case drain_carry e key s d of (s, d) \<Rightarrow>
       (case touch_here e key ex adopt s (d_main d) of (rc, was, s, ht) \<Rightarrow>
          (case drain_forget key s (d\<lparr>d_main := ht\<rparr>) of (s, d) \<Rightarrow> (rc, was, s, d))))"

definition pcache_ht_touch :: "env \<Rightarrow> bytes \<Rightarrow> u32 \<Rightarrow> sys \<Rightarrow> dtab \<Rightarrow> int \<times> sys \<times> dtab" where
  "pcache_ht_touch e key ex s d =
    (case touch_inner e key ex False s d of (rc, _, s, d) \<Rightarrow> (rc, s, d))"

definition pcache_ht_touch_adopt :: "env \<Rightarrow> bytes \<Rightarrow> u32 \<Rightarrow> sys \<Rightarrow> dtab \<Rightarrow> int \<times> bool \<times> sys \<times> dtab" where
  "pcache_ht_touch_adopt e key ex s d = touch_inner e key ex True s d"

section \<open>The invariant and the view\<close>

definition d_inv :: "dtab \<Rightarrow> bool" where
  "d_inv d \<longleftrightarrow> ht_inv (d_main d) \<and> (case d_from d of None \<Rightarrow> True | Some dr \<Rightarrow> ht_inv dr) \<and>
     (\<forall>sh \<in> set (d_shadow d). ht_inv sh)"

definition live_at :: "u32 \<Rightarrow> bytes \<Rightarrow> htab \<Rightarrow> hrec option" where
  "live_at now key ht = (case ht_lookup ht key of None \<Rightarrow> None | Some r \<Rightarrow> if live now r then Some r else None)"

text \<open>The newest live copy of a key; the live table's wins a tie.\<close>

definition dview :: "u32 \<Rightarrow> dtab \<Rightarrow> bytes \<Rightarrow> hrec option" where
  "dview now d key =
    (case d_from d of
       None \<Rightarrow> live_at now key (d_main d)
     | Some dr \<Rightarrow>
         (case live_at now key (d_main d) of
            None \<Rightarrow> live_at now key dr
          | Some r \<Rightarrow>
              (case live_at now key dr of
                 None \<Rightarrow> Some r
               | Some q \<Rightarrow> if r_ver q > r_ver r then Some q else Some r)))"

end
