(* ===== verification/Drain_Inv.thy ===== *)
theory Drain_Inv
  imports Drain
begin

text \<open>
  While a resize drains: every read answers from the newest live copy, a write supersedes
  both copies, and a counter carried over as decimal text keeps its number.  One read
  does not: when the newer copy is in the drained table and does not fit the caller's
  buffer, the older one is returned instead.
\<close>

section \<open>Decimal text\<close>

lemma digits_append:
  "str2ll_digits (xs @ ys) v = (case str2ll_digits xs v of None \<Rightarrow> None | Some w \<Rightarrow> str2ll_digits ys w)"
  by (induction xs arbitrary: v) auto

lemma digit_byte:
  assumes "n < 10"
  shows "is_digit (48 + of_nat n)" "ucast ((48 + of_nat n :: u8) - 48) = (of_nat n :: u64)"
proof -
  have "n = 0 \<or> n = 1 \<or> n = 2 \<or> n = 3 \<or> n = 4 \<or> n = 5 \<or> n = 6 \<or> n = 7 \<or> n = 8 \<or> n = 9"
    using assms by arith
  then show "is_digit (48 + of_nat n)" "ucast ((48 + of_nat n :: u8) - 48) = (of_nat n :: u64)"
    by (elim disjE; simp add: is_digit_def)+
qed

lemma digits_dec: "str2ll_digits (dec n) 0 = Some (of_nat n)"
proof (induction n rule: dec.induct)
  case (1 n)
  show ?case
  proof (cases "n < 10")
    case True
    then show ?thesis using digit_byte [OF True] by (simp add: dec.simps [of n])
  next
    case False
    have "(of_nat (n div 10) * 10 + of_nat (n mod 10) :: u64) = of_nat (n div 10 * 10 + n mod 10)"
      by (simp only: of_nat_add of_nat_mult of_nat_numeral)
    also have "\<dots> = of_nat n" by (simp only: div_mult_mod_eq)
    finally have "(of_nat (n div 10) * 10 + of_nat (n mod 10) :: u64) = of_nat n" .
    then show ?thesis
      using False 1 digit_byte [of "n mod 10"] by (subst dec.simps) (simp add: digits_append)
  qed
qed

lemma dec_head: "\<exists>c cs. dec n = c # cs \<and> is_digit c"
proof (induction n rule: dec.induct)
  case (1 n)
  show ?case
  proof (cases "n < 10")
    case True
    then show ?thesis using digit_byte(1) [OF True] by (simp add: dec.simps [of n])
  next
    case False
    then show ?thesis using 1 by (subst dec.simps) auto
  qed
qed

lemma digit_not_sign: "is_digit c \<Longrightarrow> c \<noteq> 45 \<and> c \<noteq> 43"
  by (auto simp: is_digit_def)

lemma str2ll_lld: "pcache_str2ll (lld v) = Some v"
proof (cases "sint v < 0")
  case True
  obtain c cs where d: "dec (nat (- sint v)) = c # cs" using dec_head by blast
  have "(of_nat (nat (- sint v)) :: u64) = - v" using True by (simp add: of_nat_nat)
  then show ?thesis
    using True digits_dec [of "nat (- sint v)"] by (simp add: lld_def pcache_str2ll_def d)
next
  case False
  obtain c cs where d: "dec (nat (sint v)) = c # cs" "is_digit c" using dec_head by blast
  have "(of_nat (nat (sint v)) :: u64) = v" using False by (simp add: of_nat_nat)
  then show ?thesis
    using False digits_dec [of "nat (sint v)"] digit_not_sign [OF d(2)]
    by (simp add: lld_def pcache_str2ll_def d)
qed

section \<open>Reads see the newest live copy\<close>

lemma fetch_spec_live: "fetch_spec now cap (ht_lookup ht key) = fetch_spec now cap (live_at now key ht)"
  by (auto simp: fetch_spec_def live_at_def split: option.splits)

lemma fetch_core_live:
  "ht_inv ht \<Longrightarrow> fst (fetch_core now key cap ht) = fetch_spec now cap (live_at now key ht)"
  by (simp add: fetch_core_spec fetch_spec_live)

lemma live_at_live: "live_at now key ht = Some r \<Longrightarrow> live now r \<and> ht_lookup ht key = Some r"
  by (auto simp: live_at_def split: option.splits if_splits)

definition fits :: "nat option \<Rightarrow> hrec \<Rightarrow> bool" where
  "fits cap r \<longleftrightarrow> (case cap of None \<Rightarrow> True | Some n \<Rightarrow> length (r_val r) \<le> n)"

lemma fetch_spec_Some:
  assumes "live now r"
  shows "fetch_spec now cap (Some r) \<noteq> Miss" "ver_of (fetch_spec now cap (Some r)) = r_ver r"
    "rc_of (fetch_spec now None (Some r)) \<ge> 0"
    "fits cap r \<Longrightarrow> rc_of (fetch_spec now cap (Some r)) = rc_of (fetch_spec now None (Some r))"
    "\<not> fits cap r \<Longrightarrow> fetch_spec now cap (Some r) = TooSmall (read_rec r)"
  using assms
  by (cases cap; auto simp: fetch_spec_def ver_of_def hit_of_def rc_of_def read_rec_def fits_def)+

lemma fetch_spec_None [simp]: "fetch_spec now cap None = Miss" "rc_of Miss = -2"
  by (simp_all add: fetch_spec_def rc_of_def)

lemma too_small_code: "rc_of (TooSmall h) < 0"
  by (simp add: rc_of_def PCACHE_E_TOOSMALL_def)

lemma fetch_main_cases:
  assumes "d_inv d" "d_from d = Some dr"
  shows "fst (fetch_main now key cap d) =
    (case live_at now key (d_main d) of
       None \<Rightarrow> fetch_spec now cap (live_at now key dr)
     | Some r \<Rightarrow>
         (case live_at now key dr of
            None \<Rightarrow> fetch_spec now cap (Some r)
          | Some q \<Rightarrow> if r_ver r < r_ver q \<and> fits cap q then fetch_spec now cap (Some q)
                      else fetch_spec now cap (Some r)))"
proof -
  have inv: "ht_inv (d_main d)" "ht_inv dr" using assms by (auto simp: d_inv_def)
  obtain r0 ht where c: "fetch_core now key cap (d_main d) = (r0, ht)" by fastforce
  then have r0: "r0 = fetch_spec now cap (live_at now key (d_main d))"
    using fetch_core_live [OF inv(1), of now key cap] by simp
  have "chains ht = chains (d_main d)" "route ht = route (d_main d)"
    using c unfolding fetch_core_spec [OF inv(1)] by (auto split: if_splits)
  then have again: "fst (fetch_core now key cap ht) = r0"
    using c unfolding fetch_core_def key_idx_def by (auto simp: Let_def split: option.splits if_splits)
  note dr = fetch_core_live [OF inv(2)]
  show ?thesis
  proof (cases "live_at now key (d_main d)")
    case None
    then show ?thesis using c r0 assms(2) by (simp add: fetch_main_def Let_def dr)
  next
    case (Some r)
    note lr = live_at_live [OF Some]
    show ?thesis
    proof (cases "live_at now key dr")
      case None
      then show ?thesis using c r0 Some assms(2) lr by (simp add: fetch_main_def Let_def dr fetch_spec_Some)
    next
      case q: (Some q)
      note lq = live_at_live [OF q]
      have "fits cap q \<longleftrightarrow> rc_of (fetch_spec now cap (Some q)) = rc_of (fetch_spec now None (Some q))"
        using fetch_spec_Some(4,5) [of now q cap] fetch_spec_Some(3) [of now q] too_small_code [of "read_rec q"] lq
        by (cases "fits cap q") auto
      then have rc: "(rc_of (fetch_spec now cap (Some q)) = rc_of (fetch_spec now None (Some q))) = fits cap q" ..
      have ne: "fetch_spec now cap (Some r) \<noteq> Miss" using lr by (simp add: fetch_spec_Some)
      have vr: "ver_of (fetch_spec now cap (Some r)) = r_ver r" "ver_of (fetch_spec now None (Some q)) = r_ver q"
        "0 \<le> rc_of (fetch_spec now None (Some q))" using lr lq by (simp_all add: fetch_spec_Some)
      have "fst (fetch_main now key cap d) =
        (if r_ver r < r_ver q then (if fits cap q then fetch_spec now cap (Some q) else fetch_spec now cap (Some r))
         else fetch_spec now cap (Some r))"
        using again unfolding fetch_main_def c assms(2) Let_def prod.case option.case dr r0 Some q
        by (simp only: prod.case option.case ne vr rc not_False_eq_True if_True simp_thms)
          (simp only: if_distrib [of fst] fst_conv)
      then show ?thesis unfolding Some q by simp
    qed
  qed
qed

lemma getver_view:
  assumes "d_inv d"
  shows "getver_impl now key d = map_option (\<lambda>r. (r_ver r, r_wtick r)) (dview now d key)"
proof -
  have g: "ht_inv ht \<Longrightarrow> getver_one now key ht = map_option (\<lambda>r. (r_ver r, r_wtick r)) (live_at now key ht)" for ht
    by (auto simp: getver_one_spec live_at_def live_def split: option.splits)
  show ?thesis
    using assms g
    by (auto simp: getver_impl_def dview_def d_inv_def Let_def split: option.splits prod.splits)
qed

section \<open>Carry and forget\<close>

definition roomy :: "env \<Rightarrow> bool" where
  "roomy e \<longleftrightarrow> env_ok e \<and> e_carve e \<and> (\<forall>n. n \<le> PCACHE_CELL_MAX \<longrightarrow> e_cell e n \<noteq> None)"

lemma dec_length: "n < 10 ^ k \<Longrightarrow> 0 < k \<Longrightarrow> length (dec n) \<le> k"
proof (induction k arbitrary: n)
  case (Suc k)
  show ?case
  proof (cases "n < 10")
    case True
    then show ?thesis by (simp add: dec.simps [of n])
  next
    case False
    then have k: "0 < k" using Suc.prems by (cases k) auto
    have "n div 10 < 10 ^ k" using Suc.prems(1) by (simp add: less_mult_imp_div_less mult.commute)
    then have "length (dec (n div 10)) \<le> k" using k by (rule Suc.IH)
    then show ?thesis using False by (subst dec.simps) simp
  qed
qed simp

lemma lld_length: "length (lld v) \<le> 21"
proof -
  have "- (2 ^ 63) \<le> sint v" "sint v < 2 ^ 63"
    using sint_greater_eq [of v] sint_less [of v] by simp_all
  then have "nat (sint v) < 10 ^ 20" "nat (- sint v) < 10 ^ 20" by simp_all
  then have "length (dec (nat (sint v))) \<le> 20" "length (dec (nat (- sint v))) \<le> 20"
    by (intro dec_length; simp)+
  then show ?thesis by (simp add: lld_def)
qed

lemma carried_size: "hrec_ok r \<Longrightarrow> size_ok (r_key r) (carried_val r)"
  using lld_length [of "pc_g64 (r_val r) 0"]
  by (auto simp: size_ok_def hrec_ok_def carried_val_def rec_size_def PCACHE_REC_HDR_def PCACHE_CELL_MAX_def)

text \<open>After the carry, the live table's record is at least as new as any live drained copy.\<close>

lemma drain_carry_spec:
  assumes "d_inv d" "roomy e" "drain_carry e key s d = (s', d')"
  shows "d_inv d'" "d_from d' = d_from d" "d_shadow d' = d_shadow d" "d_gate d' = d_gate d"
    "\<And>k. k \<noteq> key \<Longrightarrow> ht_lookup (d_main d') k = ht_lookup (d_main d) k"
    "\<And>dr q. d_from d = Some dr \<Longrightarrow> live_at (e_now e) key dr = Some q \<Longrightarrow> r_ver q \<noteq> 0 \<Longrightarrow>
       \<exists>r. ht_lookup (d_main d') key = Some r \<and> r_ver q \<le> r_ver r"
    "ht_lookup (d_main d') key = ht_lookup (d_main d) key \<or>
     (\<exists>dr q r. d_from d = Some dr \<and> live_at (e_now e) key dr = Some q \<and> ht_lookup (d_main d') key = Some r \<and>
        r_val r = carried_val q \<and> r_expires r = r_expires q \<and> r_ver r = r_ver q)"
proof -
  have "d_inv d' \<and> d_from d' = d_from d \<and> d_shadow d' = d_shadow d \<and> d_gate d' = d_gate d \<and>
    (\<forall>k. k \<noteq> key \<longrightarrow> ht_lookup (d_main d') k = ht_lookup (d_main d) k) \<and>
    (\<forall>dr q. d_from d = Some dr \<longrightarrow> live_at (e_now e) key dr = Some q \<longrightarrow> r_ver q \<noteq> 0 \<longrightarrow>
       (\<exists>r. ht_lookup (d_main d') key = Some r \<and> r_ver q \<le> r_ver r)) \<and>
    (ht_lookup (d_main d') key = ht_lookup (d_main d) key \<or>
     (\<exists>dr q r. d_from d = Some dr \<and> live_at (e_now e) key dr = Some q \<and> ht_lookup (d_main d') key = Some r \<and>
        r_val r = carried_val q \<and> r_expires r = r_expires q \<and> r_ver r = r_ver q))"
    (is "?goal d'")
  proof (cases "d_from d")
    case None
    then show ?thesis using assms by (auto simp: drain_carry_def)
  next
    case (Some dr)
    have inv: "ht_inv (d_main d)" "ht_inv dr" using assms(1) Some by (auto simp: d_inv_def)
    let ?now = "e_now e"
    let ?f = "fst (fetch_core ?now key None (d_main d))"
    let ?nver = "if ?f = Miss then 0 else ver_of ?f"
    have nver: "?nver = (case live_at ?now key (d_main d) of None \<Rightarrow> 0 | Some r \<Rightarrow> r_ver r)"
      unfolding fetch_core_live [OF inv(1)]
      by (auto simp: fetch_spec_Some live_at_live split: option.splits)
    show ?thesis
    proof (cases rule: found_cases [OF inv(2), of key])
      case (1 R)
      have "d' = d" using assms(3) Some 1(2) by (simp add: drain_carry_def Let_def)
      moreover have "live_at ?now key dr = None" using 1(3) by (simp add: live_at_def)
      ultimately show ?thesis using assms(1) Some by auto
    next
      case (2 w i q)
      have lq: "live_at ?now key dr = (if live ?now q then Some q else None)" using 2(3) by (simp add: live_at_def)
      show ?thesis
      proof (cases "live ?now q \<and> ?nver < r_ver q")
        case False
        have "d' = d" using assms(3) Some 2(1,2) False by (auto simp: drain_carry_def Let_def live_def)
        moreover have "\<exists>r. ht_lookup (d_main d) key = Some r \<and> r_ver q \<le> r_ver r" if "live ?now q" "r_ver q \<noteq> 0"
        proof -
          have "\<not> ?nver < r_ver q" using False that(1) by blast
          then have "live_at ?now key (d_main d) \<noteq> None" using that(2) unfolding nver
            by (cases "live_at ?now key (d_main d)") (auto simp: word_neq_0_conv)
          then obtain r where "live_at ?now key (d_main d) = Some r" by blast
          then show ?thesis using \<open>\<not> ?nver < r_ver q\<close> live_at_live unfolding nver by fastforce
        qed
        ultimately show ?thesis using assms(1) Some lq by auto
      next
        case True
        obtain rc s1 ht' where st: "store_here e (r_key q) (carried_val q) (r_expires q)
            (r_flags q AND (PCACHE_F_PASSIVE OR PCACHE_F_CARRY)) (r_ver q) True True (r_wtick q) s (d_main d) = (rc, s1, ht')"
          by (metis prod_cases3)
        have d': "d' = d\<lparr>d_main := ht'\<rparr>"
          using assms(3) Some 2(1,2) True st by (auto simp: drain_carry_def Let_def live_def)
        have eo: "env_ok e" "e_carve e" using assms(2) by (auto simp: roomy_def)
        have sz: "size_ok key (carried_val q)" using carried_size [OF 2(4)] 2(5) by simp
        have cell: "e_cell e (rec_size key (carried_val q)) \<noteq> None"
          using sz assms(2) by (auto simp: roomy_def size_ok_def)
        note sp = store_here_spec [OF inv(1) eo(1) st [unfolded 2(5)]]
        show ?thesis
        proof (cases "rc = 0")
          case ok: True
          then obtain r where r: "becomes (d_main d) key (Some r) ht'" "r_val r = carried_val q"
            "r_expires r = r_expires q" "r_ver r = r_ver q"
            using sp [THEN conjunct1, rule_format, OF ok] by (auto simp: stored_def store_ver_def)
          then show ?thesis using d' Some lq True assms(1)
            by (auto simp: becomes_def d_inv_def)
        next
          case False
          then have "rc = PCACHE_E_OLDER" using sp sz cell eo(2) by auto
          then have o: "\<exists>r. ht_lookup (d_main d) key = Some r \<and> r_ver q \<le> r_ver r" using sp by auto
          have "ht' = d_main d" using sp False by blast
          then have "d' = d" using d' by simp
          then show ?thesis using o Some lq True assms(1) by auto
        qed
      qed
    qed
  qed
  then show "d_inv d'" "d_from d' = d_from d" "d_shadow d' = d_shadow d" "d_gate d' = d_gate d"
    "\<And>k. k \<noteq> key \<Longrightarrow> ht_lookup (d_main d') k = ht_lookup (d_main d) k"
    "\<And>dr q. d_from d = Some dr \<Longrightarrow> live_at (e_now e) key dr = Some q \<Longrightarrow> r_ver q \<noteq> 0 \<Longrightarrow>
       \<exists>r. ht_lookup (d_main d') key = Some r \<and> r_ver q \<le> r_ver r"
    "ht_lookup (d_main d') key = ht_lookup (d_main d) key \<or>
     (\<exists>dr q r. d_from d = Some dr \<and> live_at (e_now e) key dr = Some q \<and> ht_lookup (d_main d') key = Some r \<and>
        r_val r = carried_val q \<and> r_expires r = r_expires q \<and> r_ver r = r_ver q)"
    by blast+
qed

lemma drain_forget_spec:
  assumes "d_inv d" "drain_forget key s d = (s', d')"
  shows "s' = s" "d_inv d'" "d_main d' = d_main d"
    "\<And>now k. k \<noteq> key \<Longrightarrow> dview now d' k = dview now d k"
    "\<And>dr'. d_from d' = Some dr' \<Longrightarrow> \<exists>dr. d_from d = Some dr \<and>
       (ht_lookup dr' key = ht_lookup dr key \<or> ht_lookup dr' key = None)"
    "\<And>dr' r q. d_from d' = Some dr' \<Longrightarrow> ht_lookup (d_main d) key = Some r \<Longrightarrow> r_ver r \<noteq> 0 \<Longrightarrow> r_ver r \<noteq> - 1 \<Longrightarrow>
       ht_lookup dr' key = Some q \<Longrightarrow> r_ver r < r_ver q"
proof -
  have "s' = s \<and> d_inv d' \<and> d_main d' = d_main d \<and>
    (\<forall>now k. k \<noteq> key \<longrightarrow> dview now d' k = dview now d k) \<and>
    (\<forall>dr'. d_from d' = Some dr' \<longrightarrow> (\<exists>dr. d_from d = Some dr \<and>
       (ht_lookup dr' key = ht_lookup dr key \<or> ht_lookup dr' key = None))) \<and>
    (\<forall>dr' r q. d_from d' = Some dr' \<longrightarrow> ht_lookup (d_main d) key = Some r \<longrightarrow> r_ver r \<noteq> 0 \<longrightarrow> r_ver r \<noteq> - 1 \<longrightarrow>
       ht_lookup dr' key = Some q \<longrightarrow> r_ver r < r_ver q)"
  proof (cases "d_from d")
    case None
    then show ?thesis using assms by (auto simp: drain_forget_def)
  next
    case (Some dr)
    have inv: "ht_inv (d_main d)" "ht_inv dr" using assms(1) Some by (auto simp: d_inv_def)
    have g: "getver_one 0 key (d_main d) = map_option (\<lambda>r. (r_ver r, r_wtick r)) (ht_lookup (d_main d) key)"
      by (auto simp: getver_one_spec [OF inv(1)] word_neq_0_conv split: option.splits)
    show ?thesis
    proof (cases "\<exists>r. ht_lookup (d_main d) key = Some r \<and> r_ver r \<noteq> 0 \<and> r_ver r \<noteq> - 1")
      case False
      then have "s' = s \<and> d' = d"
        using assms(2) Some by (auto simp: drain_forget_def g pcache_ht_remove_below_def split: option.splits if_splits)
      then show ?thesis using assms(1) Some False by auto
    next
      case True
      then obtain r where r: "ht_lookup (d_main d) key = Some r" "r_ver r \<noteq> 0" "r_ver r \<noteq> - 1" by blast
      have ne: "r_ver r + 1 \<noteq> 0" using r(3) by (metis add.commute eq_neg_iff_add_eq_0)
      obtain rc s1 dr' where rm: "remove_impl key (r_ver r + 1) True s dr = (rc, s1, dr')" by (metis prod_cases3)
      have d': "s' = s1" "d' = d\<lparr>d_from := Some dr'\<rparr>"
        using assms(2) Some r ne rm by (auto simp: drain_forget_def g pcache_ht_remove_below_def)
      note sp = remove_impl_spec [OF inv(2) rm]
      have s1: "s1 = s" using sp by simp
      have lt: "r_ver q < r_ver r + 1 \<longleftrightarrow> r_ver q \<le> r_ver r" for q
        using r(3) by (simp add: word_less_nat_alt word_le_nat_alt unat_inc less_Suc_eq_le)
      have look: "ht_lookup dr' = (ht_lookup dr)(key := (case ht_lookup dr key of None \<Rightarrow> None
          | Some q \<Rightarrow> if r_ver q \<le> r_ver r then None else Some q))" and inv': "ht_inv dr'"
      proof -
        have "ht_lookup dr' = (ht_lookup dr)(key := (case ht_lookup dr key of None \<Rightarrow> None
          | Some q \<Rightarrow> if r_ver q \<le> r_ver r then None else Some q)) \<and> ht_inv dr'"
        proof (cases "rc = 1")
          case True
          then have "\<exists>q. ht_lookup dr key = Some q \<and> r_ver q \<le> r_ver r" "becomes dr key None dr'"
            using sp ne lt by auto
          then show ?thesis by (auto simp: becomes_def)
        next
          case False
          then have "dr' = dr" "\<not> (\<exists>q. ht_lookup dr key = Some q \<and> r_ver q \<le> r_ver r)" using sp ne lt by auto
          then show ?thesis using inv(2) by (auto split: option.splits)
        qed
        then show "ht_lookup dr' = (ht_lookup dr)(key := (case ht_lookup dr key of None \<Rightarrow> None
          | Some q \<Rightarrow> if r_ver q \<le> r_ver r then None else Some q))" "ht_inv dr'" by auto
      qed
      have "dview now d' k = dview now d k" if "k \<noteq> key" for now k
      proof -
        have "live_at now k dr' = live_at now k dr" using that look by (simp add: live_at_def)
        then show ?thesis using Some d' by (simp add: dview_def cong: option.case_cong)
      qed
      moreover have "d_inv d'" using assms(1) d' inv' by (simp add: d_inv_def)
      moreover have "r_ver r < r_ver q" if "ht_lookup dr' key = Some q" for q
        using that look by (auto split: option.splits if_splits)
      moreover have "ht_lookup dr' key = ht_lookup dr key \<or> ht_lookup dr' key = None"
        using look by (auto split: option.splits)
      ultimately show ?thesis using d' s1 r(1) Some by auto
    qed
  qed
  then show "s' = s" "d_inv d'" "d_main d' = d_main d"
    "\<And>now k. k \<noteq> key \<Longrightarrow> dview now d' k = dview now d k"
    "\<And>dr'. d_from d' = Some dr' \<Longrightarrow> \<exists>dr. d_from d = Some dr \<and>
       (ht_lookup dr' key = ht_lookup dr key \<or> ht_lookup dr' key = None)"
    "\<And>dr' r q. d_from d' = Some dr' \<Longrightarrow> ht_lookup (d_main d) key = Some r \<Longrightarrow> r_ver r \<noteq> 0 \<Longrightarrow> r_ver r \<noteq> - 1 \<Longrightarrow>
       ht_lookup dr' key = Some q \<Longrightarrow> r_ver r < r_ver q"
    by blast+
qed

section \<open>Writes while draining\<close>

text \<open>No copy of the key carries the last version there is.\<close>

definition ver_room :: "bytes \<Rightarrow> dtab \<Rightarrow> bool" where
  "ver_room key d \<longleftrightarrow> (\<forall>r. ht_lookup (d_main d) key = Some r \<longrightarrow> r_ver r \<noteq> - 1) \<and>
     (\<forall>dr r. d_from d = Some dr \<longrightarrow> ht_lookup dr key = Some r \<longrightarrow> r_ver r \<noteq> - 1)"

lemma carry_ver_room:
  assumes "d_inv d" "roomy e" "drain_carry e key s d = (s', d')" "ver_room key d"
  shows "ver_room key d'"
  using drain_carry_spec(2,7) [OF assms(1-3)] assms(4) live_at_live by (fastforce simp: ver_room_def)

text \<open>After the carry, a version stamped locally in the live table is above every live copy.\<close>

lemma stamped_newest:
  assumes "d_inv d" "roomy e" "drain_carry e key s d = (s1, d1)" "ver_room key d"
    "becomes (d_main d1) key (Some r) ht'" "r_ver r = snd (ver_local (ht_lookup (d_main d1) key) s1)"
    "live (e_now e) r" "drain_forget key s2 (d1\<lparr>d_main := ht'\<rparr>) = (s', d')"
  shows "dview (e_now e) d' key = Some r" "d_inv d'" "s' = s2"
    "k \<noteq> key \<Longrightarrow> dview (e_now e) d' k = dview (e_now e) d k"
proof -
  let ?d = "d1\<lparr>d_main := ht'\<rparr>"
  note c = drain_carry_spec [OF assms(1-3)]
  have inv: "d_inv ?d" using c(1) assms(5) by (simp add: d_inv_def becomes_def)
  note f = drain_forget_spec [OF inv assms(8)]
  show "d_inv d'" "s' = s2" using f(1,2) by auto
  have look: "ht_lookup ht' = (ht_lookup (d_main d1))(key := Some r)" using assms(5) by (simp add: becomes_def)
  have lr: "live_at (e_now e) key (d_main d') = Some r" using f(3) look assms(7) by (simp add: live_at_def)
  have "r_ver q \<le> r_ver r" if q: "d_from d' = Some dr'" "live_at (e_now e) key dr' = Some q" for dr' q
  proof -
    have lq: "ht_lookup dr' key = Some q" "live (e_now e) q" using live_at_live [OF q(2)] by auto
    obtain dr where dr: "d_from d = Some dr" "ht_lookup dr key = Some q"
      using f(5) [OF q(1)] lq(1) c(2) by auto
    have "live_at (e_now e) key dr = Some q" using dr(2) lq(2) by (simp add: live_at_def)
    show ?thesis
    proof (cases "r_ver q = 0")
      case False
      then obtain r1 where r1: "ht_lookup (d_main d1) key = Some r1" "r_ver q \<le> r_ver r1"
        using c(6) [OF dr(1) \<open>live_at (e_now e) key dr = Some q\<close>] by blast
      have "r_ver r1 \<noteq> - 1" using carry_ver_room [OF assms(1-4)] r1(1) by (simp add: ver_room_def)
      then have "r_ver r1 < r_ver r" using assms(6) r1(1) ver_local_above [of r1 s1] by simp
      then show ?thesis using r1(2) by simp
    qed simp
  qed
  then have "\<not> r_ver r < r_ver q" if "d_from d' = Some dr'" "live_at (e_now e) key dr' = Some q" for dr' q
    using that by (simp add: not_less)
  then show "dview (e_now e) d' key = Some r"
    using lr by (auto simp: dview_def split: option.splits)
  show "dview (e_now e) d' k = dview (e_now e) d k" if "k \<noteq> key"
  proof -
    have "live_at (e_now e) k ht' = live_at (e_now e) k (d_main d)"
      using look c(5) [OF that] that by (simp add: live_at_def)
    then have "dview (e_now e) ?d k = dview (e_now e) d k" using c(2) by (simp add: dview_def cong: option.case_cong)
    then show ?thesis using f(4) [OF that] by simp
  qed
qed

lemma drain_store:
  assumes "d_inv d" "roomy e" "size_ok key val" "ver_room key d" "ex = 0 \<or> e_now e < ex"
    "pcache_ht_store_ex e key val ex fl s d = (rc, s', d')"
  shows "rc = 0" "d_inv d'"
    "\<exists>r. dview (e_now e) d' key = Some r \<and> r_val r = val \<and> r_expires r = ex \<and> r_ver r = last_ver s'"
    "k \<noteq> key \<Longrightarrow> dview (e_now e) d' k = dview (e_now e) d k"
proof -
  obtain s1 d1 where c: "drain_carry e key s d = (s1, d1)" by fastforce
  obtain rc1 s2 ht' where st: "store_here e key val ex fl 0 False False 0 s1 (d_main d1) = (rc1, s2, ht')"
    by (metis prod_cases3)
  obtain s3 d3 where f: "drain_forget key s2 (d1\<lparr>d_main := ht'\<rparr>) = (s3, d3)" by fastforce
  have res: "rc = rc1" "s' = s3" "d' = d3"
    using assms(3,6) c st f
    by (auto simp: pcache_ht_store_ex_def store_impl_def store_body_def size_ok_def not_less)
  have inv1: "ht_inv (d_main d1)" using drain_carry_spec(1) [OF assms(1,2) c] by (simp add: d_inv_def)
  have e: "env_ok e" "e_carve e" "e_cell e (rec_size key val) \<noteq> None"
    using assms(2,3) by (auto simp: roomy_def size_ok_def)
  note sp = store_here_spec [OF inv1 e(1) st]
  have rc0: "rc1 = 0" using sp assms(3) e by auto
  then obtain r where r: "becomes (d_main d1) key (Some r) ht'"
      "stored e key val ex fl (ht_lookup (d_main d1) key) (last_ver s2) r"
      "last_ver s2 = store_ver 0 False (ht_lookup (d_main d1) key) s1"
    using sp [THEN conjunct1] by blast
  have "live (e_now e) r" using r(2) assms(5) by (simp add: stored_def live_def)
  moreover have "r_ver r = snd (ver_local (ht_lookup (d_main d1) key) s1)"
    using r(2,3) by (simp add: stored_def store_ver_def)
  ultimately have n: "dview (e_now e) d3 key = Some r" "d_inv d3" "s3 = s2"
      "k \<noteq> key \<Longrightarrow> dview (e_now e) d3 k = dview (e_now e) d k"
    using stamped_newest [OF assms(1,2) c assms(4) r(1) _ _ f] by blast+
  show "rc = 0" "d_inv d'" "k \<noteq> key \<Longrightarrow> dview (e_now e) d' k = dview (e_now e) d k"
    using res rc0 n by auto
  show "\<exists>r. dview (e_now e) d' key = Some r \<and> r_val r = val \<and> r_expires r = ex \<and> r_ver r = last_ver s'"
    using res n r(2) by (auto simp: stored_def)
qed

end
