(* ===== verification/Htable_Thms.thy ===== *)
theory Htable_Thms
  imports Htsweep Drain_Inv
begin

text \<open>
  What the table promises its callers: any sequence of its operations runs to its end from a
  new table, keeps the invariant and changes only the key it names; each operation's effect on
  every branch; growing and sweeping as maps; reads of a table that still drains another one.
\<close>

section \<open>Sequences of operations\<close>

datatype table_op =
  OStore env bytes bytes u32 u8 u64 bool bool u32
| OAdd env bytes u64 u32
| OTouch env bytes u32 bool
| OSetver bytes u64
| ORemove bytes u64 bool
| OFetch u32 bytes "nat option"
| OSweep u32
| OGrow "nat \<Rightarrow> bool" "nat \<Rightarrow> bool" nat nat

fun run_op :: "table_op \<Rightarrow> sys \<times> htab \<Rightarrow> (sys \<times> htab) option" where
  "run_op (OStore e key val ex fl ver uv kw wt) (s, ht) =
     (case store_here e key val ex fl ver uv kw wt s ht of (_, s, ht) \<Rightarrow> Some (s, ht))"
| "run_op (OAdd e key delta ex) (s, ht) = (case add_here e key delta ex s ht of (_, s, ht) \<Rightarrow> Some (s, ht))"
| "run_op (OTouch e key ex adopt) (s, ht) = (case touch_here e key ex adopt s ht of (_, _, s, ht) \<Rightarrow> Some (s, ht))"
| "run_op (OSetver key ver) (s, ht) = Some (s, snd (setver_here key ver ht))"
| "run_op (ORemove key below dropping) (s, ht) =
     (case remove_impl key below dropping s ht of (_, s, ht) \<Rightarrow> Some (s, ht))"
| "run_op (OFetch now key cap) (s, ht) = Some (s, snd (fetch_core now key cap ht))"
| "run_op (OSweep now) (s, ht) = map_option (\<lambda>(_, s, ht). (s, ht)) (pcache_ht_sweep now s ht)"
| "run_op (OGrow seg_ok mem_ok pct budget) (s, ht) =
     map_option (\<lambda>(_, ht). (s, ht)) (pcache_ht_grow_at seg_ok mem_ok pct budget ht)"

fun run_ops :: "table_op list \<Rightarrow> sys \<times> htab \<Rightarrow> (sys \<times> htab) option" where
  "run_ops [] w = Some w"
| "run_ops (p # ps) w = (case run_op p w of None \<Rightarrow> None | Some w \<Rightarrow> run_ops ps w)"

text \<open>The keys an operation may change: a sweep may drop any key, a grow none.\<close>

fun op_writes :: "table_op \<Rightarrow> bytes \<Rightarrow> bool" where
  "op_writes (OStore e key val ex fl ver uv kw wt) k = (k = key)"
| "op_writes (OAdd e key delta ex) k = (k = key)"
| "op_writes (OTouch e key ex adopt) k = (k = key)"
| "op_writes (OSetver key ver) k = (k = key)"
| "op_writes (ORemove key below dropping) k = (k = key)"
| "op_writes (OFetch now key cap) k = False"
| "op_writes (OSweep now) k = True"
| "op_writes (OGrow seg_ok mem_ok pct budget) k = False"

text \<open>What the callers keep to: a value flagged as a native counter has eight bytes, and the
  arena hands out cells that are large enough.\<close>

fun op_ok :: "table_op \<Rightarrow> bool" where
  "op_ok (OStore e key val ex fl ver uv kw wt) = (env_ok e \<and> (fl AND PCACHE_F_INT \<noteq> 0 \<longrightarrow> length val = 8))"
| "op_ok (OAdd e key delta ex) = env_ok e"
| "op_ok _ = True"

definition counters_ok :: "htab \<Rightarrow> bool" where
  "counters_ok ht \<longleftrightarrow> (\<forall>k r. ht_lookup ht k = Some r \<longrightarrow> r_flags r AND PCACHE_F_INT \<noteq> 0 \<longrightarrow> length (r_val r) = 8)"

text \<open>A concrete environment and table to evaluate the operations on.\<close>

definition sample_env :: env where
  "sample_env = \<lparr>e_now = 100, e_cell = Some, e_carve = True\<rparr>"

definition sample_sys :: sys where
  "sample_sys = \<lparr>clk = \<lparr>lam = 1000, lam_rejected = 0\<rparr>, last_ver = 0, last_del_ver = 0,
     nomem_inplace = 0, nomem_dropped = 0\<rparr>"

definition sample_table :: htab where
  "sample_table = the (pcache_htable_new (\<lambda>_. True) 0)"

lemma sample_facts:
  "pcache_htable_new (\<lambda>_. True) 0 = Some sample_table" "ht_inv sample_table" "ht_lookup sample_table k = None"
  "env_ok sample_env" "roomy sample_env" "counters_ok sample_table"
proof -
  show n: "pcache_htable_new (\<lambda>_. True) 0 = Some sample_table"
    by (simp add: sample_table_def pcache_htable_new_def PCACHE_MAX_SIZE_LOG2_def)
  show "ht_inv sample_table" using new_rep(1) [OF n] by (auto simp: ht_inv_def)
  show l: "ht_lookup sample_table k = None" for k using new_rep(2) [OF n] .
  show "env_ok sample_env" by (simp add: env_ok_def sample_env_def)
  show "roomy sample_env" by (simp add: roomy_def env_ok_def sample_env_def)
  show "counters_ok sample_table" by (simp add: counters_ok_def l)
qed

lemma sample_room [simp]:
  "size_ok [1] [2]" "e_carve sample_env" "e_cell sample_env n = Some n" "e_now sample_env = 100"
  by (simp_all add: size_ok_def rec_size_def PCACHE_REC_HDR_def PCACHE_CELL_MAX_def sample_env_def)

lemma becomes_step:
  assumes "becomes ht key v ht'" "counters_ok ht"
    "\<And>r. v = Some r \<Longrightarrow> r_flags r AND PCACHE_F_INT \<noteq> 0 \<Longrightarrow> length (r_val r) = 8"
  shows "ht_inv ht' \<and> counters_ok ht' \<and> (\<forall>k. k \<noteq> key \<longrightarrow> ht_lookup ht' k = ht_lookup ht k)"
  using assms by (auto simp: becomes_def counters_ok_def split: if_splits)

lemma int_of_stored: "(fl OR shortened_fl now q ex) AND PCACHE_F_INT = fl AND PCACHE_F_INT"
  by (simp add: shortened_fl_def Let_def PCACHE_F_INT_def PCACHE_F_SHORTENED_def bit.conj_disj_distrib2)

lemma int_off_passive: "(fl AND NOT PCACHE_F_PASSIVE) AND PCACHE_F_INT = fl AND PCACHE_F_INT"
  by (simp add: PCACHE_F_INT_def PCACHE_F_PASSIVE_def and.assoc)

lemma op_step_store:
  assumes "ht_inv ht" "counters_ok ht" "op_ok (OStore e key val ex fl ver uv kw wt)"
  shows "\<exists>s' ht'. run_op (OStore e key val ex fl ver uv kw wt) (s, ht) = Some (s', ht') \<and> ht_inv ht' \<and> counters_ok ht' \<and>
    (\<forall>k. k \<noteq> key \<longrightarrow> ht_lookup ht' k = ht_lookup ht k)"
proof -
  obtain rc s' ht' where st: "store_here e key val ex fl ver uv kw wt s ht = (rc, s', ht')" by (metis prod_cases3)
  have e: "env_ok e" and v: "fl AND PCACHE_F_INT \<noteq> 0 \<longrightarrow> length val = 8" using assms(3) by auto
  note sp = store_here_spec [OF assms(1) e st]
  have "ht_inv ht' \<and> counters_ok ht' \<and> (\<forall>k. k \<noteq> key \<longrightarrow> ht_lookup ht' k = ht_lookup ht k)"
  proof (cases "rc = 0")
    case True
    then obtain r where r: "becomes ht key (Some r) ht'" "stored e key val ex fl (ht_lookup ht key) (last_ver s') r"
      using sp by blast
    have "r_flags r AND PCACHE_F_INT = fl AND PCACHE_F_INT" "r_val r = val"
      using r(2) by (auto simp: stored_def int_of_stored split: option.splits)
    then show ?thesis using becomes_step [OF r(1) assms(2)] v by simp
  next
    case False
    then show ?thesis using sp assms by simp
  qed
  then show ?thesis by (simp add: st)
qed

lemma op_step_add:
  assumes "ht_inv ht" "counters_ok ht" "env_ok e"
  shows "\<exists>s' ht'. run_op (OAdd e key delta ex) (s, ht) = Some (s', ht') \<and> ht_inv ht' \<and> counters_ok ht' \<and>
    (\<forall>k. k \<noteq> key \<longrightarrow> ht_lookup ht' k = ht_lookup ht k)"
proof -
  obtain res s' ht' where st: "add_here e key delta ex s ht = (res, s', ht')" by (metis prod_cases3)
  have "\<And>r. ht_lookup ht key = Some r \<Longrightarrow> r_flags r AND PCACHE_F_INT \<noteq> 0 \<Longrightarrow> length (r_val r) = 8"
    using assms(2) by (auto simp: counters_ok_def)
  note sp = add_here_spec [OF assms(1,3) st this]
  have "ht_inv ht' \<and> counters_ok ht' \<and> (\<forall>k. k \<noteq> key \<longrightarrow> ht_lookup ht' k = ht_lookup ht k)"
  proof (cases res)
    case None
    then show ?thesis using sp assms by simp
  next
    case (Some ne)
    then obtain q n where q: "becomes ht key (Some q) ht'" "r_val q = le64 n"
      using sp by (cases ne) auto
    then show ?thesis using becomes_step [OF q(1) assms(2)] by simp
  qed
  then show ?thesis by (simp add: st)
qed

lemma op_step_touch:
  assumes "ht_inv ht" "counters_ok ht"
  shows "\<exists>s' ht'. run_op (OTouch e key ex adopt) (s, ht) = Some (s', ht') \<and> ht_inv ht' \<and> counters_ok ht' \<and>
    (\<forall>k. k \<noteq> key \<longrightarrow> ht_lookup ht' k = ht_lookup ht k)"
proof -
  obtain rc was s' ht' where st: "touch_here e key ex adopt s ht = (rc, was, s', ht')" by (metis prod_cases4)
  note sp = touch_here_spec [OF assms(1) st]
  have "ht_inv ht' \<and> counters_ok ht' \<and> (\<forall>k. k \<noteq> key \<longrightarrow> ht_lookup ht' k = ht_lookup ht k)"
  proof (cases "ht_lookup ht key")
    case None
    then show ?thesis using sp assms by simp
  next
    case (Some r)
    have "r_flags (touched e ex adopt v r) AND PCACHE_F_INT = r_flags r AND PCACHE_F_INT" "r_val (touched e ex adopt v r) = r_val r" for v
      by (simp_all add: touched_def Let_def int_of_stored int_off_passive)
    then show ?thesis
      using becomes_step [of ht key "Some (touched e ex adopt (last_ver s') r)" ht'] sp Some assms(2)
      by (auto simp: counters_ok_def)
  qed
  then show ?thesis by (simp add: st)
qed

lemma op_step_setver:
  assumes "ht_inv ht" "counters_ok ht"
  shows "\<exists>s' ht'. run_op (OSetver key ver) (s, ht) = Some (s', ht') \<and> ht_inv ht' \<and> counters_ok ht' \<and>
    (\<forall>k. k \<noteq> key \<longrightarrow> ht_lookup ht' k = ht_lookup ht k)"
proof -
  obtain rc ht' where st: "setver_here key ver ht = (rc, ht')" by fastforce
  have "ht_inv ht' \<and> counters_ok ht' \<and> (\<forall>k. k \<noteq> key \<longrightarrow> ht_lookup ht' k = ht_lookup ht k)"
    by (rule becomes_step [OF setver_here_spec(1) [OF assms(1) st] assms(2)])
      (use assms(2) in \<open>auto simp: counters_ok_def\<close>)
  then show ?thesis by (simp add: st)
qed

lemma op_step_remove:
  assumes "ht_inv ht" "counters_ok ht"
  shows "\<exists>s' ht'. run_op (ORemove key below dropping) (s, ht) = Some (s', ht') \<and> ht_inv ht' \<and> counters_ok ht' \<and>
    (\<forall>k. k \<noteq> key \<longrightarrow> ht_lookup ht' k = ht_lookup ht k)"
proof -
  obtain rc s' ht' where st: "remove_impl key below dropping s ht = (rc, s', ht')" by (metis prod_cases3)
  note sp = remove_impl_spec [OF assms(1) st]
  have "ht_inv ht' \<and> counters_ok ht' \<and> (\<forall>k. k \<noteq> key \<longrightarrow> ht_lookup ht' k = ht_lookup ht k)"
  proof (cases "rc = 1")
    case True
    then show ?thesis using becomes_step [of ht key None ht'] sp assms(2) by simp
  next
    case False
    then show ?thesis using sp assms by simp
  qed
  then show ?thesis by (simp add: st)
qed

lemma counters_sub:
  assumes "counters_ok ht" "\<And>k r. ht_lookup ht' k = Some r \<Longrightarrow> ht_lookup ht k = Some r"
  shows "counters_ok ht'"
  using assms by (auto simp: counters_ok_def)

lemma op_step_sweep:
  assumes "ht_inv ht" "counters_ok ht"
  shows "\<exists>s' ht'. run_op (OSweep now) (s, ht) = Some (s', ht') \<and> ht_inv ht' \<and> counters_ok ht'"
proof -
  obtain dead s' ht' where w: "pcache_ht_sweep now s ht = Some (dead, s', ht')" "ht_inv ht'"
    "\<forall>key. ht_lookup ht' key = (case ht_lookup ht key of None \<Rightarrow> None | Some r \<Rightarrow> if due now r then None else Some r)"
    using sweep_runs [OF assms(1), of now s] by blast
  have "counters_ok ht'"
    by (rule counters_sub [OF assms(2)]) (use w(3) in \<open>auto split: option.splits if_splits\<close>)
  then show ?thesis using w by simp
qed

lemma grow_at_spec:
  assumes "ht_inv ht"
  shows "\<exists>did ht'. pcache_ht_grow_at seg_ok mem_ok pct budget ht = Some (did, ht') \<and> same_map ht ht' \<and>
    nbuckets ht' = nbuckets ht + did \<and> did \<le> budget"
proof (cases "pct = 0")
  case True
  then show ?thesis using same_map_refl [OF assms] by (simp add: pcache_ht_grow_at_def)
next
  case False
  let ?want = "\<lambda>h. totals_entries ht * 100 > (if pct > 100 then 100 else pct) * PCACHE_SLOTS * nbuckets h"
  have "pcache_ht_grow_at seg_ok mem_ok pct budget ht = grow_loop (pcache_ht_split seg_ok mem_ok) ?want budget ht"
    using False by (simp only: pcache_ht_grow_at_def Let_def if_False)
  then show ?thesis using grow_loop_spec [OF assms, of seg_ok mem_ok ?want budget] by auto
qed

lemma op_step_grow:
  assumes "ht_inv ht" "counters_ok ht"
  shows "\<exists>s' ht'. run_op (OGrow seg_ok mem_ok pct budget) (s, ht) = Some (s', ht') \<and> ht_inv ht' \<and> counters_ok ht' \<and>
    ht_lookup ht' = ht_lookup ht"
proof -
  obtain did ht' where g: "pcache_ht_grow_at seg_ok mem_ok pct budget ht = Some (did, ht')" "same_map ht ht'"
    using grow_at_spec [OF assms(1)] by blast
  then have "counters_ok ht'" using assms(2) by (auto simp: same_map_def counters_ok_def)
  then show ?thesis using g by (auto simp: same_map_def)
qed

lemma fetch_keeps:
  assumes "ht_inv ht"
  shows "ht_inv (snd (fetch_core now key cap ht))" "ht_lookup (snd (fetch_core now key cap ht)) = ht_lookup ht"
proof -
  obtain R where R: "ht_rep ht R" using assms by (auto simp: ht_inv_def)
  have "ht_rep (snd (fetch_core now key cap ht)) R"
    unfolding fetch_core_spec [OF assms] using R by (auto simp: ht_rep_def)
  then show "ht_inv (snd (fetch_core now key cap ht))" by (auto simp: ht_inv_def)
  show "ht_lookup (snd (fetch_core now key cap ht)) = ht_lookup ht"
    unfolding fetch_core_spec [OF assms] by (auto simp: ht_lookup_def key_idx_def fun_eq_iff)
qed

lemma run_op_ok:
  assumes "ht_inv ht" "counters_ok ht" "op_ok p"
  shows "\<exists>s' ht'. run_op p (s, ht) = Some (s', ht') \<and> ht_inv ht' \<and> counters_ok ht' \<and>
    (\<forall>k. \<not> op_writes p k \<longrightarrow> ht_lookup ht' k = ht_lookup ht k)"
proof (cases p)
  case (OStore e key val ex fl ver uv kw wt)
  then show ?thesis using op_step_store [OF assms(1,2)] assms(3) by simp
next
  case (OAdd e key delta ex)
  then show ?thesis using op_step_add [OF assms(1,2)] assms(3) by simp
next
  case (OTouch e key ex adopt)
  then show ?thesis using op_step_touch [OF assms(1,2)] by simp
next
  case (OSetver key ver)
  then show ?thesis using op_step_setver [OF assms(1,2)] by simp
next
  case (ORemove key below dropping)
  then show ?thesis using op_step_remove [OF assms(1,2)] by simp
next
  case (OFetch now key cap)
  then show ?thesis using fetch_keeps [OF assms(1), of now key cap] assms(2) by (simp add: counters_ok_def)
next
  case (OSweep now)
  then show ?thesis using op_step_sweep [OF assms(1,2)] by simp
next
  case (OGrow seg_ok mem_ok pct budget)
  then show ?thesis using op_step_grow [OF assms(1,2), of seg_ok mem_ok pct budget s] by auto
qed

lemma run_ops_ok:
  assumes "ht_inv ht" "counters_ok ht" "\<And>p. p \<in> set ps \<Longrightarrow> op_ok p"
  shows "\<exists>s' ht'. run_ops ps (s, ht) = Some (s', ht') \<and> ht_inv ht' \<and> counters_ok ht' \<and>
    (\<forall>k. (\<forall>p \<in> set ps. \<not> op_writes p k) \<longrightarrow> ht_lookup ht' k = ht_lookup ht k)"
  using assms
proof (induction ps arbitrary: s ht)
  case (Cons p ps)
  obtain s1 h1 where o: "run_op p (s, ht) = Some (s1, h1)" "ht_inv h1" "counters_ok h1"
    "\<forall>k. \<not> op_writes p k \<longrightarrow> ht_lookup h1 k = ht_lookup ht k"
    using run_op_ok [OF Cons.prems(1,2), of p s] Cons.prems(3) by auto
  obtain s2 h2 where i: "run_ops ps (s1, h1) = Some (s2, h2)" "ht_inv h2" "counters_ok h2"
    "\<forall>k. (\<forall>p \<in> set ps. \<not> op_writes p k) \<longrightarrow> ht_lookup h2 k = ht_lookup h1 k"
    using Cons.IH [OF o(2,3), of s1] Cons.prems(3) by auto
  show ?case using o i by simp
qed simp

lemma rep_dom:
  assumes "ht_rep ht R"
  shows "dom (ht_lookup ht) = (\<Union>i < length R. r_key ` set (R ! i))"
proof (intro equalityI subsetI)
  fix k assume "k \<in> dom (ht_lookup ht)"
  then obtain r where r: "ht_lookup ht k = Some r" by blast
  have i: "key_idx ht k < length R" by (rule rep_idx [OF assms])
  have "r \<in> set (R ! key_idx ht k)" "r_key r = k"
    using r i by (simp_all add: rep_lookup [OF assms] kmap_iff [OF bucket_keys [OF rep_bucket [OF assms i]]])
  then show "k \<in> (\<Union>i < length R. r_key ` set (R ! i))" using i by blast
next
  fix k assume "k \<in> (\<Union>i < length R. r_key ` set (R ! i))"
  then show "k \<in> dom (ht_lookup ht)" using rep_member [OF assms] by auto
qed

lemma entries_card:
  assumes "ht_inv ht"
  shows "pcache_ht_entries ht = card (dom (ht_lookup ht))"
proof -
  obtain R where R: "ht_rep ht R" using assms by (auto simp: ht_inv_def)
  have "card (dom (ht_lookup ht)) = (\<Sum>i < length R. card (r_key ` set (R ! i)))"
    unfolding rep_dom [OF R] using rep_member [OF R] by (intro card_UN_disjoint) auto
  also have "\<dots> = (\<Sum>i < length R. length (R ! i))"
    using bucket_keys [OF rep_bucket [OF R]] by (intro sum.cong refl) (metis distinct_card length_map list.set_map lessThan_iff)
  finally have "int (card (dom (ht_lookup ht))) = tot (\<lambda>rs. int (length rs)) R"
    by (simp add: tot_def sum_list_sum_nth atLeast0LessThan)
  then have "int (st_created ht) - int (st_destroyed ht) = int (card (dom (ht_lookup ht)))"
    using R by (simp add: ht_rep_def)
  then show ?thesis by (auto simp: pcache_ht_entries_def)
qed

section \<open>Properties\<close>

text \<open>C1: Any sequence of stores, accumulates, touches, version patches, removes, reads, sweeps
  and grows runs to its end from a newly created table (no split finds its spare bucket
  missing, no sweep loop runs forever), keeps the table invariant and the shape of native
  counters, leaves a key no operation names absent, and the \<open>entries\<close> gauge is the number of
  keys in the table.\<close>

theorem table_ops_run:
  assumes "pcache_htable_new room n = Some ht" "\<And>p. p \<in> set ps \<Longrightarrow> op_ok p"
  shows "\<exists>s' ht'. run_ops ps (s, ht) = Some (s', ht') \<and> ht_inv ht' \<and> counters_ok ht' \<and>
    pcache_ht_entries ht' = card (dom (ht_lookup ht')) \<and>
    (\<forall>k. (\<forall>p \<in> set ps. \<not> op_writes p k) \<longrightarrow> ht_lookup ht' k = None)"
proof -
  have "ht_inv ht" "counters_ok ht" using new_rep [OF assms(1)] by (auto simp: ht_inv_def counters_ok_def)
  then show ?thesis using run_ops_ok [of ht ps s] assms(2) entries_card new_rep(2) [OF assms(1)] by metis
qed

theorem table_ops_run_witness:
  "\<exists>s' ht'. run_ops [OStore sample_env [107] [118] 0 0 0 False False 0, OSweep 7] (sample_sys, sample_table) = Some (s', ht') \<and>
    ht_inv ht' \<and> pcache_ht_entries ht' = card (dom (ht_lookup ht'))"
  using table_ops_run [OF sample_facts(1), of "[OStore sample_env [107] [118] 0 0 0 False False 0, OSweep 7]" sample_sys]
    sample_facts(4) by fastforce

text \<open>C12: The lock-free scan is the reference lookup.  Comparing all five tags of a bucket in one
  64-bit subtraction may name a slot that does not match (a borrow can run into the next
  byte), but never misses one: over the whole chain of a key's bucket the scan returns the
  record the table holds for the key, as the copy a reader may hold without the lock, and
  nothing when it holds none.\<close>

theorem swar_scan_is_lookup:
  assumes "ht_inv ht"
  shows "scan_chain (chains ht ! key_idx ht key) key (pcache_key_hash key) (tag_of (pcache_key_hash key)) =
    map_option copy_out (ht_lookup ht key)"
  using assms by (rule scan_chain_lookup)

theorem swar_scan_is_lookup_witness:
  "scan_chain (chains sample_table ! key_idx sample_table [1]) [1] (pcache_key_hash [1]) (tag_of (pcache_key_hash [1])) = None"
  using swar_scan_is_lookup [OF sample_facts(2), of "[1]"] by (simp add: sample_facts(3))







text \<open>C33: An accumulate on every branch: it fails, changing nothing, exactly on a key that is too
  long, a full arena or a value that is not a number; otherwise it returns the old counter
  plus the delta modulo 2^64, leaves it as an eight-byte native counter under a fresh
  version, and keeps or sets the deadline as the caller asked.\<close>

theorem accumulate_correct:
  assumes "ht_inv ht" "counters_ok ht" "env_ok e" "add_here e key delta ex s ht = (res, s', ht')"
  shows "case res of
      None \<Rightarrow> s' = s \<and> ht' = ht \<and> (\<not> length key \<le> 0xFFFF \<or> e_cell e (PCACHE_REC_HDR + length key + 8) = None \<or>
        (case ht_lookup ht key of None \<Rightarrow> \<not> e_carve e | Some r \<Rightarrow> counter_of r = None))
    | Some (n, eff) \<Rightarrow>
        (case ht_lookup ht key of None \<Rightarrow> n = delta | Some r \<Rightarrow> (\<exists>m. counter_of r = Some m \<and> n = m + delta)) \<and>
        eff = add_expires ex (ht_lookup ht key) \<and>
        (\<exists>q. ht_inv ht' \<and> ht_lookup ht' = (ht_lookup ht)(key \<mapsto> q) \<and> counter_of q = Some n \<and>
           length (r_val q) = 8 \<and> r_expires q = eff \<and> r_ver q = snd (ver_local (ht_lookup ht key) s))"
proof -
  have "\<And>r. ht_lookup ht key = Some r \<Longrightarrow> r_flags r AND PCACHE_F_INT \<noteq> 0 \<Longrightarrow> length (r_val r) = 8"
    using assms(2) by (auto simp: counters_ok_def)
  note sp = add_here_spec [OF assms(1,3,4) this]
  show ?thesis
  proof (cases res)
    case None
    then show ?thesis using sp by simp
  next
    case (Some ne)
    obtain n eff where ne: "ne = (n, eff)" by (cases ne)
    obtain q where q: "becomes ht key (Some q) ht'" "r_val q = le64 n" "r_flags q AND PCACHE_F_INT \<noteq> 0"
      "r_expires q = eff" "r_ver q = last_ver s'"
      using sp by (auto simp: Some ne)
    have "counter_of q = Some n" "length (r_val q) = 8"
      using q(2,3) f64.get_enc [of "[]" n "[]"] by (simp_all add: counter_of_def f64.len_enc)
    then have "\<exists>q. ht_inv ht' \<and> ht_lookup ht' = (ht_lookup ht)(key \<mapsto> q) \<and> counter_of q = Some n \<and>
           length (r_val q) = 8 \<and> r_expires q = eff \<and> r_ver q = last_ver s'"
      using q by (auto simp: becomes_def)
    then show ?thesis using sp by (simp add: Some ne)
  qed
qed

theorem accumulate_correct_witness:
  "\<exists>res s' ht'. add_here sample_env [1] 7 0 sample_sys sample_table = (res, s', ht') \<and> res = Some (7, 0) \<and>
     (\<exists>q. ht_lookup ht' [1] = Some q \<and> counter_of q = Some 7)"
proof -
  obtain res s' ht' where st: "add_here sample_env [1] 7 0 sample_sys sample_table = (res, s', ht')"
    by (metis prod_cases3)
  show ?thesis
    using accumulate_correct [OF sample_facts(2,6,4) st] st
    by (cases res) (auto simp: sample_facts(3) add_expires_def PCACHE_EXP_PRESERVE_def)
qed

text \<open>A touch changes no other key, never creates one, and on a key it finds sets the deadline,
  marks it shortened when the new deadline is the earlier one, stamps a version above the
  old one and, when it adopts, clears the passive mark and says so.\<close>

theorem touch_correct:
  assumes "ht_inv ht" "touch_here e key ex adopt s ht = (rc, was, s', ht')"
  shows "case ht_lookup ht key of
      None \<Rightarrow> rc = 0 \<and> \<not> was \<and> s' = s \<and> ht' = ht
    | Some r \<Rightarrow> rc = 1 \<and> (was \<longleftrightarrow> adopt \<and> (r_flags r OR shortened_fl (e_now e) r ex) AND PCACHE_F_PASSIVE \<noteq> 0) \<and>
        ht_inv ht' \<and> ht_lookup ht' = (ht_lookup ht)(key \<mapsto> touched e ex adopt (snd (ver_local (Some r) s)) r)"
  using touch_here_spec [OF assms] by (auto simp: becomes_def split: option.splits)

theorem touch_correct_witness:
  "\<exists>rc was s' ht'. touch_here sample_env [1] 7 True sample_sys sample_table = (rc, was, s', ht') \<and> rc = 0"
proof -
  obtain rc was s' ht' where st: "touch_here sample_env [1] 7 True sample_sys sample_table = (rc, was, s', ht')"
    by (metis prod_cases4)
  then show ?thesis using touch_correct [OF sample_facts(2) st] by (auto simp: sample_facts(3))
qed

text \<open>C7: Growing is invisible.  A split of the next bucket always has the overflow buckets it
  needs: it either declines (the table is at its largest, or memory for the segment or the
  move buffer is missing) and changes nothing, or adds one bucket and leaves every key where
  a lookup finds it, with the invariant and the counts intact.\<close>

theorem split_preserves_map:
  assumes "ht_inv ht"
  shows "\<exists>rc ht'. pcache_ht_split seg_ok mem_ok ht = Some (rc, ht') \<and> ht_inv ht' \<and> ht_lookup ht' = ht_lookup ht \<and>
    pcache_ht_entries ht' = pcache_ht_entries ht \<and>
    (if rc = 1 then nbuckets ht' = nbuckets ht + 1
     else ht' = ht \<and> (2 ^ 24 \<le> nbuckets ht \<or> \<not> seg_ok (nbuckets ht) \<or> (\<exists>n. \<not> mem_ok n)))"
proof (cases rule: split_cases [OF assms, of seg_ok mem_ok])
  case (1 rc)
  then have "rc \<noteq> 1" by linarith
  then show ?thesis using 1 assms by auto
next
  case (2 ht')
  then show ?thesis by (auto simp: same_map_def pcache_ht_entries_def)
qed

theorem split_preserves_map_witness:
  "\<exists>ht'. pcache_ht_split (\<lambda>_. True) (\<lambda>_. True) sample_table = Some (1, ht') \<and> ht_inv ht' \<and> nbuckets ht' = 2"
proof -
  have "nbuckets sample_table = 1"
    by (simp add: sample_table_def pcache_htable_new_def PCACHE_MAX_SIZE_LOG2_def)
  then show ?thesis
    using split_preserves_map [OF sample_facts(2), of "\<lambda>_. True" "\<lambda>_. True"] by (auto split: if_splits)
qed

text \<open>C36: Growing to a fill factor ends after at most \<open>budget\<close> splits, keeps the map, and stops
  short of the budget only when the table is no longer above the target, is at its largest,
  or is out of memory.\<close>

theorem grow_reaches_target:
  assumes "ht_inv ht" "0 < pct" "pct \<le> 100"
  shows "\<exists>did ht'. pcache_ht_grow_at seg_ok mem_ok pct budget ht = Some (did, ht') \<and> did \<le> budget \<and>
    ht_inv ht' \<and> ht_lookup ht' = ht_lookup ht \<and> nbuckets ht' = nbuckets ht + did \<and>
    (did = budget \<or> totals_entries ht * 100 \<le> pct * PCACHE_SLOTS * nbuckets ht' \<or>
     2 ^ 24 \<le> nbuckets ht' \<or> \<not> seg_ok (nbuckets ht') \<or> (\<exists>n. \<not> mem_ok n))"
proof -
  let ?want = "\<lambda>h. totals_entries ht * 100 > pct * PCACHE_SLOTS * nbuckets h"
  have "pcache_ht_grow_at seg_ok mem_ok pct budget ht = grow_loop (pcache_ht_split seg_ok mem_ok) ?want budget ht"
    using assms(2,3) by (simp add: pcache_ht_grow_at_def Let_def)
  then show ?thesis
    using grow_loop_spec [OF assms(1), of seg_ok mem_ok ?want budget] by (auto simp: same_map_def not_less)
qed

theorem grow_reaches_target_witness:
  "\<exists>did ht'. pcache_ht_grow_at (\<lambda>_. True) (\<lambda>_. True) 75 4 sample_table = Some (did, ht') \<and> did \<le> 4 \<and> ht_inv ht'"
  using grow_reaches_target [OF sample_facts(2), of 75 "\<lambda>_. True" "\<lambda>_. True" 4] by auto

text \<open>C11: A sweep ends and reaps exactly the records that are due: the records handed to the
  expiry callback are the due ones, each once; every other record stays; the entry count
  drops by their number.\<close>

theorem sweep_exact:
  assumes "ht_inv ht"
  shows "\<exists>dead s' ht'. pcache_ht_sweep now s ht = Some (dead, s', ht') \<and> ht_inv ht' \<and>
    (\<forall>key. ht_lookup ht' key =
       (case ht_lookup ht key of None \<Rightarrow> None | Some r \<Rightarrow> if due now r then None else Some r)) \<and>
    (\<forall>r. r \<in> set dead \<longleftrightarrow> ht_lookup ht (r_key r) = Some r \<and> due now r) \<and>
    distinct (map r_key dead) \<and> pcache_ht_entries ht = pcache_ht_entries ht' + length dead"
  using assms by (rule sweep_runs)

theorem sweep_exact_witness:
  "\<exists>dead s' ht'. pcache_ht_sweep 50 sample_sys sample_table = Some (dead, s', ht') \<and> dead = [] \<and> ht_inv ht'"
proof -
  obtain dead s' ht' where w: "pcache_ht_sweep 50 sample_sys sample_table = Some (dead, s', ht')" "ht_inv ht'"
    "\<forall>r. r \<in> set dead \<longleftrightarrow> ht_lookup sample_table (r_key r) = Some r \<and> due 50 r"
    using sweep_exact [OF sample_facts(2), of 50 sample_sys] by blast
  have "dead = []" using w(3) by (cases dead) (auto simp: sample_facts(3))
  then show ?thesis using w by simp
qed

section \<open>A table that drains another one\<close>

text \<open>While a table drains its predecessor, the version a key reports is that of the newest
  live copy over the two tables.\<close>

theorem drain_version_is_newest:
  assumes "d_inv d"
  shows "getver_impl now key d = map_option (\<lambda>r. (r_ver r, r_wtick r)) (dview now d key)"
  using assms by (rule getver_view)

theorem drain_version_is_newest_witness:
  "getver_impl 5 [1] \<lparr>d_main = sample_table, d_from = Some sample_table, d_shadow = [], d_gate = (\<lambda>_. True)\<rparr> = None"
  using drain_version_is_newest [of "\<lparr>d_main = sample_table, d_from = Some sample_table, d_shadow = [], d_gate = (\<lambda>_. True)\<rparr>" 5 "[1]"]
  by (simp add: d_inv_def dview_def live_at_def sample_facts)

text \<open>C10: A store while the table drains: it succeeds when there is room, the value it wrote is the
  newest live copy over both tables (the drained copy cannot shadow it, because the record is
  carried over first and the new version goes above it), and no other key's newest copy
  changes.\<close>

theorem drain_store_visible:
  assumes "d_inv d" "roomy e" "size_ok key val" "ver_room key d" "ex = 0 \<or> e_now e < ex"
    "pcache_ht_store_ex e key val ex fl s d = (rc, s', d')"
  shows "rc = 0 \<and> d_inv d' \<and>
    (\<exists>r. dview (e_now e) d' key = Some r \<and> r_val r = val \<and> r_expires r = ex \<and> r_ver r = last_ver s') \<and>
    (k \<noteq> key \<longrightarrow> dview (e_now e) d' k = dview (e_now e) d k)"
  using drain_store [OF assms] by blast

theorem drain_store_visible_witness:
  "\<exists>rc s' d'. pcache_ht_store_ex sample_env [1] [2] 0 0 sample_sys
       \<lparr>d_main = sample_table, d_from = Some sample_table, d_shadow = [], d_gate = (\<lambda>_. True)\<rparr> = (rc, s', d') \<and>
     rc = 0 \<and> (\<exists>r. dview 100 d' [1] = Some r \<and> r_val r = [2])"
proof -
  let ?d = "\<lparr>d_main = sample_table, d_from = Some sample_table, d_shadow = [], d_gate = (\<lambda>_. True)\<rparr>"
  obtain rc s' d' where st: "pcache_ht_store_ex sample_env [1] [2] 0 0 sample_sys ?d = (rc, s', d')"
    by (metis prod_cases3)
  have "d_inv ?d" "ver_room [1] ?d" by (simp_all add: d_inv_def ver_room_def sample_facts)
  from drain_store_visible [OF this(1) sample_facts(5) sample_room(1) this(2) _ st, of "[]"] st
  show ?thesis by auto
qed

text \<open>A native counter survives its decimal form: the text a counter is printed as when it is
  carried to the live table or shown to a client parses back to the same 64-bit value, the
  most negative one included.\<close>

theorem counter_decimal_roundtrip: "pcache_str2ll (lld v) = Some v"
  by (rule str2ll_lld)


section \<open>Where the code departs from what it says\<close>

text \<open>A read of a draining table whose buffer is too small for the newest copy, which is in the
  drained table, returns the older copy of the live table when that one fits.\<close>

lemma drained_newer_too_big:
  assumes "d_inv d" "d_from d = Some dr" "live_at now key (d_main d) = Some r" "live_at now key dr = Some q"
    "r_ver r < r_ver q" "\<not> fits cap q" "fits cap r"
  shows "dview now d key = Some q" "fst (fetch_main now key cap d) = fetch_spec now cap (Some r)"
  using fetch_main_cases [OF assms(1,2), of now key cap] assms(2-6) by (simp_all add: dview_def)

text \<open>An accumulate that keeps the deadline adds to a record that has expired but is not swept
  yet, and its result is still expired: it returns a number and the key still reads as
  absent.\<close>

lemma accumulate_on_expired:
  assumes "ht_inv ht" "counters_ok ht" "env_ok e" "add_here e key delta PCACHE_EXP_PRESERVE s ht = (Some (n, eff), s', ht')"
    "ht_lookup ht key = Some r" "\<not> live now r" "counter_of r = Some m"
  shows "n = m + delta" "fst (fetch_core now key cap ht') = Miss"
proof -
  have "\<And>q. ht_lookup ht key = Some q \<Longrightarrow> r_flags q AND PCACHE_F_INT \<noteq> 0 \<Longrightarrow> length (r_val q) = 8"
    using assms(2) by (auto simp: counters_ok_def)
  note sp = add_here_spec [OF assms(1,3,4) this]
  then show "n = m + delta" using assms(5,7) by auto
  obtain q where q: "becomes ht key (Some q) ht'" "r_expires q = r_expires r"
    using sp assms(5) by (auto simp: add_expires_def)
  then have "ht_inv ht'" "ht_lookup ht' key = Some q" "\<not> live now q"
    using assms(6) by (auto simp: becomes_def live_def)
  then show "fst (fetch_core now key cap ht') = Miss" by (simp add: fetch_core_spec fetch_spec_def)
qed

end
