(* ===== verification/Clorder.thy ===== *)
theory Clorder
  imports Htable_Thms "HOL-Library.Multiset"
begin

text \<open>
  Applying replicated writes and deletes of one key, \<open>src/src/clorder.c\<close>, over the table.
  The interface \<open>versioned_key\<close> states what the apply paths rely on from a versioned
  store; it is interpreted on the table of \<open>Drain\<close>.  Inside it: copies applied in any
  order converge, and a set and a delete racing on two threads end as one
  thread would leave them.  The tombstone table belongs to the caller and is represented by
  the newest tombstone version of the key.
\<close>

section \<open>The apply paths\<close>

definition CLORDER_REFUSED :: int where "CLORDER_REFUSED = 2"
definition CLORDER_TAKEN :: int where "CLORDER_TAKEN = 3"

definition clorder_take_back :: "bytes \<Rightarrow> u64 \<Rightarrow> u64 \<Rightarrow> sys \<Rightarrow> dtab \<Rightarrow> bool \<times> sys \<times> dtab" where
  "clorder_take_back k ver tv s d =
    (if tv \<noteq> 0 \<and> ver \<le> tv then
       (case pcache_ht_remove_below k (tv + 1) s (d_main d) of (rc, s, ht) \<Rightarrow> (rc = 1, s, d\<lparr>d_main := ht\<rparr>))
     else (False, s, d))"

text \<open>\<open>tver\<close> is the tombstone version read after the store.\<close>

definition clorder_set :: "env \<Rightarrow> bytes \<Rightarrow> bytes \<Rightarrow> u32 \<Rightarrow> u8 \<Rightarrow> u64 \<Rightarrow> (u64 \<Rightarrow> bool) \<Rightarrow> u64 \<Rightarrow> sys \<Rightarrow> dtab \<Rightarrow>
    int \<times> sys \<times> dtab" where
  "clorder_set e k v ex fl ver refuse tver s d =
    (if refuse ver then (CLORDER_REFUSED, s, d)
     else case pcache_ht_store_ver e k v ex fl ver s d of (rc, s, d) \<Rightarrow>
       if rc \<noteq> 0 then (rc, s, d)
       else case clorder_take_back k ver tver s d of (b, s, d) \<Rightarrow> (if b then CLORDER_TAKEN else 0, s, d))"

definition remove_in :: "(sys \<Rightarrow> htab \<Rightarrow> int \<times> sys \<times> htab) \<Rightarrow> sys \<Rightarrow> dtab \<Rightarrow> int \<times> sys \<times> dtab" where
  "remove_in rm s d = (case rm s (d_main d) of (rc, s, ht) \<Rightarrow> (rc, s, d\<lparr>d_main := ht\<rparr>))"

definition clorder_del :: "bytes \<Rightarrow> u64 \<Rightarrow> sys \<Rightarrow> dtab \<Rightarrow> dtab option \<Rightarrow> bool \<times> sys \<times> dtab \<times> dtab option" where
  "clorder_del k ver s d shadow =
    (let rm = (if ver = 0 then pcache_ht_remove k else pcache_ht_remove_upto k ver) in
     case (case shadow of
             None \<Rightarrow> (s, None)
           | Some sh \<Rightarrow> (case remove_in rm s sh of (_, s, sh) \<Rightarrow> (s, Some sh))) of
       (s, shadow) \<Rightarrow> (case remove_in rm s d of (rc, s, d) \<Rightarrow> (rc = 1, s, d, shadow)))"

section \<open>One key of a versioned store\<close>

definition newest :: "(u64 \<times> 'v) \<Rightarrow> (u64 \<times> 'v) option \<Rightarrow> (u64 \<times> 'v) option" where
  "newest c L = (case L of None \<Rightarrow> Some c | Some q \<Rightarrow> if fst c \<le> fst q then L else Some c)"

definition drop_upto :: "u64 \<Rightarrow> (u64 \<times> 'v) option \<Rightarrow> (u64 \<times> 'v) option" where
  "drop_upto t L = (case L of None \<Rightarrow> None | Some q \<Rightarrow> if fst q \<le> t then None else L)"

definition covered :: "u64 \<Rightarrow> u64 \<Rightarrow> bool" where
  "covered t v \<longleftrightarrow> t \<noteq> 0 \<and> v \<le> t"

fun apply_puts :: "('r \<Rightarrow> 'v \<Rightarrow> u64 \<Rightarrow> 's \<Rightarrow> int \<times> 's) \<Rightarrow> 'r \<Rightarrow> (u64 \<times> 'v) list \<Rightarrow> 's \<Rightarrow> 's" where
  "apply_puts put r [] s = s"
| "apply_puts put r ((v, x) # xs) s = apply_puts put r xs (snd (put r x v s))"

text \<open>A set and a delete of the key on two threads: the steps between which the other
  thread can run.  The delete's tombstone is planted before its remove.\<close>

datatype set_pc = Checking | Storing | Backing | SetDone
datatype del_pc = Planting | Cutting | DelDone

record 's race =
  rc_tomb :: u64
  rc_store :: 's
  rc_set :: set_pc
  rc_del :: del_pc

inductive race_step :: "('s \<Rightarrow> int \<times> 's) \<Rightarrow> (u64 \<Rightarrow> 's \<Rightarrow> 's) \<Rightarrow> ('s \<Rightarrow> 's) \<Rightarrow> u64 \<Rightarrow> u64 \<Rightarrow>
    's race \<Rightarrow> 's race \<Rightarrow> bool"
  for put :: "'s \<Rightarrow> int \<times> 's" and undo_op :: "u64 \<Rightarrow> 's \<Rightarrow> 's" and del_op :: "'s \<Rightarrow> 's" and v dv :: u64 where
  check: "rc_set w = Checking \<Longrightarrow>
    race_step put undo_op del_op v dv w (w\<lparr>rc_set := (if covered (rc_tomb w) v then SetDone else Storing)\<rparr>)"
| store: "rc_set w = Storing \<Longrightarrow> put (rc_store w) = (c, s) \<Longrightarrow>
    race_step put undo_op del_op v dv w (w\<lparr>rc_store := s, rc_set := (if c = 0 then Backing else SetDone)\<rparr>)"
| take_back: "rc_set w = Backing \<Longrightarrow>
    race_step put undo_op del_op v dv w (w\<lparr>rc_store := undo_op (rc_tomb w) (rc_store w), rc_set := SetDone\<rparr>)"
| plant: "rc_del w = Planting \<Longrightarrow>
    race_step put undo_op del_op v dv w (w\<lparr>rc_tomb := max (rc_tomb w) dv, rc_del := Cutting\<rparr>)"
| remove: "rc_del w = Cutting \<Longrightarrow>
    race_step put undo_op del_op v dv w (w\<lparr>rc_store := del_op (rc_store w), rc_del := DelDone\<rparr>)"

inductive_cases race_stepE: "race_step put undo_op del_op v dv w w'"

text \<open>What one thread leaves, whichever order it takes.\<close>

definition race_result :: "u64 \<Rightarrow> (u64 \<times> 'v) \<Rightarrow> u64 \<Rightarrow> (u64 \<times> 'v) option \<Rightarrow> (u64 \<times> 'v) option" where
  "race_result t0 c dv L = (if covered t0 (fst c) \<or> fst c \<le> dv then drop_upto dv L else newest c L)"

text \<open>The invariant of the race: what the key holds at each pair of program points.\<close>

definition race_inv :: "('s \<Rightarrow> bool) \<Rightarrow> ('s \<Rightarrow> (u64 \<times> 'v) option) \<Rightarrow> u64 \<times> 'v \<Rightarrow> u64 \<Rightarrow> u64 \<Rightarrow>
    (u64 \<times> 'v) option \<Rightarrow> 's race \<Rightarrow> bool" where
  "race_inv ok look c dv t0 L w \<longleftrightarrow>
     ok (rc_store w) \<and> rc_tomb w = (if rc_del w = Planting then t0 else max t0 dv) \<and>
     (case rc_set w of
        Checking \<Rightarrow> look (rc_store w) = (if rc_del w = DelDone then drop_upto dv L else L)
      | Storing \<Rightarrow> \<not> covered t0 (fst c) \<and> look (rc_store w) = (if rc_del w = DelDone then drop_upto dv L else L)
      | Backing \<Rightarrow> \<not> covered t0 (fst c) \<and>
          (if rc_del w = DelDone
           then look (rc_store w) \<in> {drop_upto dv (newest c L), newest c (drop_upto dv L)}
           else look (rc_store w) = newest c L)
      | SetDone \<Rightarrow>
          (if rc_del w = DelDone then look (rc_store w) else drop_upto dv (look (rc_store w)))
            = race_result t0 c dv L)"

text \<open>The table as such a store: a request is the environment, the key, the expiry and the
  flags; the table is not draining.\<close>

type_synonym request = "env \<times> bytes \<times> u32 \<times> u8"

definition tab_inv :: "sys \<times> dtab \<Rightarrow> bool" where
  "tab_inv w \<longleftrightarrow> d_inv (snd w) \<and> d_from (snd w) = None"

definition tab_ok :: "request \<Rightarrow> bytes \<Rightarrow> bool" where
  "tab_ok r x \<longleftrightarrow> roomy (fst r) \<and> size_ok (fst (snd r)) x"

definition tab_look :: "request \<Rightarrow> sys \<times> dtab \<Rightarrow> (u64 \<times> bytes) option" where
  "tab_look r w = map_option (\<lambda>q. (r_ver q, r_val q)) (ht_lookup (d_main (snd w)) (fst (snd r)))"

definition tab_put :: "request \<Rightarrow> bytes \<Rightarrow> u64 \<Rightarrow> sys \<times> dtab \<Rightarrow> int \<times> (sys \<times> dtab)" where
  "tab_put r x v w =
    (case r of (e, k, ex, fl) \<Rightarrow>
       (case pcache_ht_store_ver e k x ex fl v (fst w) (snd w) of (rc, s, d) \<Rightarrow> (rc, (s, d))))"

definition tab_del :: "request \<Rightarrow> u64 \<Rightarrow> sys \<times> dtab \<Rightarrow> sys \<times> dtab" where
  "tab_del r dv w =
    (case clorder_del (fst (snd r)) dv (fst w) (snd w) None of (_, s, d, _) \<Rightarrow> (s, d))"

definition tab_undo :: "request \<Rightarrow> u64 \<Rightarrow> u64 \<Rightarrow> sys \<times> dtab \<Rightarrow> sys \<times> dtab" where
  "tab_undo r v tv w =
    (case clorder_take_back (fst (snd r)) v tv (fst w) (snd w) of (_, s, d) \<Rightarrow> (s, d))"

text \<open>The two applied one after the other by one thread: the set with the tombstone it finds,
  and the delete, whose tombstone the caller plants first.\<close>

definition set_then_del :: "request \<Rightarrow> bytes \<Rightarrow> u64 \<Rightarrow> u64 \<Rightarrow> u64 \<Rightarrow> sys \<times> dtab \<Rightarrow> sys \<times> dtab" where
  "set_then_del r x v dv t w =
    (case r of (e, k, ex, fl) \<Rightarrow>
       case clorder_set e k x ex fl v (covered t) t (fst w) (snd w) of (_, s, d) \<Rightarrow> tab_del r dv (s, d))"

definition del_then_set :: "request \<Rightarrow> bytes \<Rightarrow> u64 \<Rightarrow> u64 \<Rightarrow> u64 \<Rightarrow> sys \<times> dtab \<Rightarrow> sys \<times> dtab" where
  "del_then_set r x v dv t w =
    (case r of (e, k, ex, fl) \<Rightarrow>
       let w = tab_del r dv w; t = max t dv in
       case clorder_set e k x ex fl v (covered t) t (fst w) (snd w) of (_, s, d) \<Rightarrow> (s, d))"

definition race_start :: "u64 \<Rightarrow> 's \<Rightarrow> 's race" where
  "race_start t w = \<lparr>rc_tomb = t, rc_store = w, rc_set = Checking, rc_del = Planting\<rparr>"

definition sample_drained :: dtab where
  "sample_drained = \<lparr>d_main = sample_table, d_from = None, d_shadow = [], d_gate = (\<lambda>_. True)\<rparr>"

section \<open>Lemmas on one key\<close>

lemma newest_commute:
  "(fst a = fst b \<Longrightarrow> a = b) \<Longrightarrow> newest a (newest b L) = newest b (newest a L)"
  by (cases a; cases b) (auto simp: newest_def split: option.splits)

lemma newest_fold_perm:
  assumes "mset xs = mset ys" "\<And>a b. a \<in> set xs \<Longrightarrow> b \<in> set xs \<Longrightarrow> fst a = fst b \<Longrightarrow> a = b"
  shows "fold newest xs L = fold newest ys L"
proof -
  have "fold newest xs = fold newest ys"
    using assms by (intro fold_multiset_equiv) (auto simp: fun_eq_iff intro!: newest_commute)
  then show ?thesis by simp
qed

lemma fold_newest_top:
  assumes "c \<in> set xs" "\<And>a. a \<in> set xs \<Longrightarrow> fst a \<le> fst c \<and> (fst a = fst c \<longrightarrow> a = c)"
    "\<And>q. L = Some q \<Longrightarrow> fst q < fst c"
  shows "fold newest xs L = Some c"
proof -
  have keep: "fold newest zs (Some c) = Some c" if "\<And>a. a \<in> set zs \<Longrightarrow> fst a \<le> fst c" for zs
    using that by (induction zs) (auto simp: newest_def)
  show ?thesis
    using assms
  proof (induction xs arbitrary: L)
    case (Cons a xs)
    show ?case
    proof (cases "a = c")
      case True
      then have "newest a L = Some c" using Cons.prems(3) by (auto simp: newest_def split: option.splits)
      then show ?thesis using keep [of xs] Cons.prems(2) by simp
    next
      case False
      then have "fst a < fst c" using Cons.prems(2) [of a] by (metis list.set_intros(1) order_le_neq_trans)
      then have "\<And>q. newest a L = Some q \<Longrightarrow> fst q < fst c"
        using Cons.prems(3) by (auto simp: newest_def split: option.splits if_splits)
      then have "fold newest xs (newest a L) = Some c"
        using Cons.prems(1,2) False by (intro Cons.IH) auto
      then show ?thesis by simp
    qed
  qed simp
qed

lemma drop_upto_idem: "drop_upto t (drop_upto t L) = drop_upto t L"
  by (auto simp: drop_upto_def split: option.splits)

lemma drop_upto_old: "v \<le> dv \<Longrightarrow> drop_upto dv (newest (v, x) L) = drop_upto dv L"
  by (cases L) (auto simp: drop_upto_def newest_def)

lemma drop_upto_new:
  assumes "dv < v"
  shows "drop_upto dv (newest (v, x) L) = newest (v, x) L" "newest (v, x) (drop_upto dv L) = newest (v, x) L"
  using assms by (cases L; auto simp: drop_upto_def newest_def)+

lemma covered_max:
  assumes "\<not> covered t0 v" "dv \<noteq> 0"
  shows "covered (max t0 dv) v \<longleftrightarrow> v \<le> dv" "v \<le> dv \<Longrightarrow> max t0 dv = dv"
  using assms by (auto simp: covered_def max_def not_le)

lemma race_result_simps:
  "\<not> covered t0 v \<Longrightarrow> v \<le> dv \<Longrightarrow> race_result t0 (v, x) dv L = drop_upto dv L"
  "\<not> covered t0 v \<Longrightarrow> dv < v \<Longrightarrow> race_result t0 (v, x) dv L = newest (v, x) L"
  by (auto simp: race_result_def)

section \<open>The interface and what follows from it\<close>

locale versioned_key =
  fixes inv :: "'s \<Rightarrow> bool"
    and ok :: "'r \<Rightarrow> 'v \<Rightarrow> bool"
    and look :: "'r \<Rightarrow> 's \<Rightarrow> (u64 \<times> 'v) option"
    and put :: "'r \<Rightarrow> 'v \<Rightarrow> u64 \<Rightarrow> 's \<Rightarrow> int \<times> 's"
    and del :: "'r \<Rightarrow> u64 \<Rightarrow> 's \<Rightarrow> 's"
    and undo :: "'r \<Rightarrow> u64 \<Rightarrow> u64 \<Rightarrow> 's \<Rightarrow> 's"
  assumes put_inv: "inv s \<Longrightarrow> ok r x \<Longrightarrow> inv (snd (put r x v s))"
    and put_look: "inv s \<Longrightarrow> ok r x \<Longrightarrow> look r (snd (put r x v s)) = newest (v, x) (look r s)"
    and put_code: "inv s \<Longrightarrow> ok r x \<Longrightarrow> fst (put r x v s) = 0 \<longleftrightarrow> (\<forall>q. look r s = Some q \<longrightarrow> fst q < v)"
    and del_inv: "inv s \<Longrightarrow> inv (del r dv s)"
    and del_look: "inv s \<Longrightarrow> dv \<noteq> 0 \<Longrightarrow> dv \<noteq> - 1 \<Longrightarrow> look r (del r dv s) = drop_upto dv (look r s)"
    and undo_inv: "inv s \<Longrightarrow> inv (undo r v tv s)"
    and undo_look: "inv s \<Longrightarrow> tv \<noteq> - 1 \<Longrightarrow>
      look r (undo r v tv s) = (if covered tv v then drop_upto tv (look r s) else look r s)"
begin

lemma puts_look:
  assumes "inv s" "\<And>c. c \<in> set xs \<Longrightarrow> ok r (snd c)"
  shows "inv (apply_puts put r xs s)" "look r (apply_puts put r xs s) = fold newest xs (look r s)"
proof -
  have "inv (apply_puts put r xs s) \<and> look r (apply_puts put r xs s) = fold newest xs (look r s)"
    using assms
  proof (induction xs arbitrary: s)
    case (Cons c xs)
    obtain v x where c: "c = (v, x)" by (cases c)
    have "ok r x" using Cons.prems(2) [of c] c by simp
    then have "inv (snd (put r x v s))" "look r (snd (put r x v s)) = newest c (look r s)"
      using Cons.prems(1) put_inv put_look by (simp_all add: c)
    then show ?case using Cons c by simp
  qed simp
  then show "inv (apply_puts put r xs s)" "look r (apply_puts put r xs s) = fold newest xs (look r s)" by auto
qed

lemma puts_converge:
  assumes "inv s" "inv t" "look r s = look r t" "mset xs = mset ys"
    "\<And>c. c \<in> set xs \<Longrightarrow> ok r (snd c)" "\<And>a b. a \<in> set xs \<Longrightarrow> b \<in> set xs \<Longrightarrow> fst a = fst b \<Longrightarrow> a = b"
  shows "look r (apply_puts put r xs s) = look r (apply_puts put r ys t)"
proof -
  have "set ys = set xs" using assms(4) by (metis set_mset_mset)
  then show ?thesis
    using assms puts_look(2) [of s xs r] puts_look(2) [of t ys r] newest_fold_perm [of xs ys] by simp
qed

lemma race_inv_step:
  assumes "race_step (put r x v) (undo r v) (del r dv) v dv w w'" "race_inv inv (look r) (v, x) dv t0 L w"
    "ok r x" "dv \<noteq> 0" "dv \<noteq> - 1" "t0 \<noteq> - 1"
  shows "race_inv inv (look r) (v, x) dv t0 L w'"
proof -
  have i: "inv (rc_store w)" and tm: "rc_tomb w = (if rc_del w = Planting then t0 else max t0 dv)"
    using assms(2) by (auto simp: race_inv_def)
  have t1: "rc_tomb w \<noteq> - 1" using tm assms(5,6) by (auto simp: max_def)
  note p = put_inv [OF i assms(3), of v] put_look [OF i assms(3), of v] put_code [OF i assms(3), of v]
  note u = undo_inv [OF i, of r v "rc_tomb w"] undo_look [OF i t1, of r v]
  note dl = del_inv [OF i, of r dv] del_look [OF i assms(4,5), of r]
  show ?thesis
    using assms(1)
  proof (rule race_stepE)
    assume c: "w' = w\<lparr>rc_set := if covered (rc_tomb w) v then SetDone else Storing\<rparr>" "rc_set w = Checking"
    have "look r (rc_store w) = (if rc_del w = DelDone then drop_upto dv L else L)"
      using assms(2) c(2) by (simp add: race_inv_def)
    then show ?thesis unfolding c(1) using i tm
      by (auto simp: race_inv_def race_result_def covered_def max_def drop_upto_idem split: if_splits)
  next
    fix cd s
    assume c: "w' = w\<lparr>rc_store := s, rc_set := if cd = 0 then Backing else SetDone\<rparr>" "rc_set w = Storing"
      "put r x v (rc_store w) = (cd, s)"
    have l: "\<not> covered t0 v" "look r (rc_store w) = (if rc_del w = DelDone then drop_upto dv L else L)"
      using assms(2) c(2) by (simp_all add: race_inv_def)
    show ?thesis unfolding c(1) using i tm l p c(3)
      by (auto simp: race_inv_def race_result_def drop_upto_def newest_def not_less split: if_splits option.splits)
  next
    assume c: "w' = w\<lparr>rc_store := undo r v (rc_tomb w) (rc_store w), rc_set := SetDone\<rparr>" "rc_set w = Backing"
    have l: "\<not> covered t0 v"
      "if rc_del w = DelDone
       then look r (rc_store w) \<in> {drop_upto dv (newest (v, x) L), newest (v, x) (drop_upto dv L)}
       else look r (rc_store w) = newest (v, x) L"
      using assms(2) c(2) by (simp add: race_inv_def, cases "rc_del w = DelDone", simp_all add: race_inv_def)
    let ?w = "rc_store w" and ?u = "undo r v (rc_tomb w) (rc_store w)"
    have "(if rc_del w = DelDone then look r ?u else drop_upto dv (look r ?u)) = race_result t0 (v, x) dv L"
    proof (cases "v \<le> dv")
      case True
      have "drop_upto dv (look r ?w) = drop_upto dv L"
        using l(2) True by (auto simp: drop_upto_old drop_upto_idem split: if_splits)
      then show ?thesis
        using True l(1) u(2) tm covered_max [OF l(1) assms(4)]
        by (cases "rc_del w") (simp_all add: race_result_simps drop_upto_idem)
    next
      case False
      then have "look r ?w = newest (v, x) L" "drop_upto dv (newest (v, x) L) = newest (v, x) L"
        using l(2) by (auto simp: drop_upto_new split: if_splits)
      then show ?thesis
        using False l(1) u(2) tm covered_max [OF l(1) assms(4)]
        by (cases "rc_del w") (simp_all add: race_result_simps)
    qed
    then show ?thesis unfolding c(1) race_inv_def using u(1) tm by (cases "rc_del w") simp_all
  next
    assume c: "w' = w\<lparr>rc_tomb := max (rc_tomb w) dv, rc_del := Cutting\<rparr>" "rc_del w = Planting"
    show ?thesis unfolding c(1) using assms(2) c(2) tm
      by (auto simp: race_inv_def split: set_pc.splits)
  next
    assume c: "w' = w\<lparr>rc_store := del r dv (rc_store w), rc_del := DelDone\<rparr>" "rc_del w = Cutting"
    show ?thesis unfolding c(1) using assms(2) c(2) dl
      by (auto simp: race_inv_def drop_upto_idem split: set_pc.splits)
  qed
qed

lemma race_reaches:
  assumes "(race_step (put r x v) (undo r v) (del r dv) v dv)\<^sup>*\<^sup>* w w'"
    "inv (rc_store w)" "rc_set w = Checking" "rc_del w = Planting" "rc_tomb w = t0" "look r (rc_store w) = L"
    "ok r x" "dv \<noteq> 0" "dv \<noteq> - 1" "t0 \<noteq> - 1" "rc_set w' = SetDone" "rc_del w' = DelDone"
  shows "look r (rc_store w') = race_result t0 (v, x) dv L"
proof -
  have "race_inv inv (look r) (v, x) dv t0 L w'"
    using assms(1)
  proof (induction rule: rtranclp_induct)
    case base
    show ?case using assms(2-6) by (simp add: race_inv_def)
  next
    case (step y z)
    then show ?case using race_inv_step assms(7-10) by blast
  qed
  then show ?thesis using assms(11,12) by (simp add: race_inv_def)
qed

end

section \<open>The table provides the interface\<close>

lemma undraining:
  assumes "d_from d = None"
  shows "drain_carry e k s d = (s, d)" "drain_forget k s d = (s, d)"
  using assms by (simp_all add: drain_carry_def drain_forget_def)

lemma tab_put_run:
  assumes "tab_inv w" "tab_ok r x"
  obtains rc s' ht' where "tab_put r x v w = (rc, (s', (snd w)\<lparr>d_main := ht'\<rparr>))"
    "store_here (fst r) (fst (snd r)) x (fst (snd (snd r))) (snd (snd (snd r))) v True False 0 (fst w) (d_main (snd w)) = (rc, s', ht')"
proof -
  obtain e k ex fl where r: "r = (e, k, ex, fl)" by (cases r)
  obtain s d where w: "w = (s, d)" by (cases w)
  have nd: "d_from d = None" using assms(1) by (simp add: tab_inv_def w)
  have sz: "size_ok k x" using assms(2) by (simp add: tab_ok_def r)
  obtain rc s' ht' where st: "store_here e k x ex fl v True False 0 s (d_main d) = (rc, s', ht')"
    by (metis prod_cases3)
  have "tab_put r x v w = (rc, (s', d\<lparr>d_main := ht'\<rparr>))"
    using sz st nd
    by (auto simp: tab_put_def r w pcache_ht_store_ver_def store_impl_def store_body_def undraining size_ok_def not_less)
  then show thesis using that st by (simp add: r w)
qed

lemma tab_put_laws:
  assumes "tab_inv w" "tab_ok r x"
  shows "tab_inv (snd (tab_put r x v w))"
    "tab_look r (snd (tab_put r x v w)) = newest (v, x) (tab_look r w)"
    "fst (tab_put r x v w) = 0 \<longleftrightarrow> (\<forall>q. tab_look r w = Some q \<longrightarrow> fst q < v)"
proof -
  let ?k = "fst (snd r)"
  obtain rc s' ht' where p: "tab_put r x v w = (rc, (s', (snd w)\<lparr>d_main := ht'\<rparr>))"
    "store_here (fst r) ?k x (fst (snd (snd r))) (snd (snd (snd r))) v True False 0 (fst w) (d_main (snd w)) = (rc, s', ht')"
    using tab_put_run [OF assms] by blast
  have inv: "ht_inv (d_main (snd w))" and e: "env_ok (fst r)" "e_carve (fst r)" "e_cell (fst r) (rec_size ?k x) \<noteq> None"
    and sz: "size_ok ?k x"
    using assms by (auto simp: tab_inv_def d_inv_def tab_ok_def roomy_def size_ok_def)
  note sp = store_here_spec [OF inv e(1) p(2)]
  have codes: "rc = 0 \<or> rc = PCACHE_E_OLDER" using sp sz e(2,3) by auto
  have "tab_inv (snd (tab_put r x v w)) \<and> tab_look r (snd (tab_put r x v w)) = newest (v, x) (tab_look r w) \<and>
    (fst (tab_put r x v w) = 0 \<longleftrightarrow> (\<forall>q. tab_look r w = Some q \<longrightarrow> fst q < v))"
  proof (cases "rc = 0")
    case True
    then have "rc \<noteq> PCACHE_E_OLDER" by (simp add: PCACHE_E_OLDER_def)
    then have new: "\<And>q. ht_lookup (d_main (snd w)) ?k = Some q \<Longrightarrow> r_ver q < v"
      using sp sz by (auto simp: not_le)
    obtain q where q: "becomes (d_main (snd w)) ?k (Some q) ht'" "r_val q = x" "r_ver q = v"
      using sp [THEN conjunct1, rule_format, OF True] by (auto simp: stored_def store_ver_def)
    then show ?thesis
      using assms(1) True new
      by (auto simp: p(1) tab_inv_def d_inv_def becomes_def tab_look_def newest_def split: option.splits dest: leD)
  next
    case False
    then have "\<exists>q. ht_lookup (d_main (snd w)) ?k = Some q \<and> v \<le> r_ver q" "ht' = d_main (snd w)"
      using sp codes by auto
    then show ?thesis
      using assms(1) False by (auto simp: p(1) tab_inv_def tab_look_def newest_def dest: leD)
  qed
  then show "tab_inv (snd (tab_put r x v w))"
    "tab_look r (snd (tab_put r x v w)) = newest (v, x) (tab_look r w)"
    "fst (tab_put r x v w) = 0 \<longleftrightarrow> (\<forall>q. tab_look r w = Some q \<longrightarrow> fst q < v)" by auto
qed

text \<open>Removing what is below a bound, whichever of the entry points does it.\<close>

lemma remove_below_look:
  assumes "tab_inv (s, d)" "remove_impl k b dropping s (d_main d) = (rc, s', ht')"
  shows "tab_inv (s', d\<lparr>d_main := ht'\<rparr>)"
    "ht_lookup ht' k = (case ht_lookup (d_main d) k of None \<Rightarrow> None
       | Some q \<Rightarrow> if b = 0 \<or> r_ver q < b then None else Some q)"
proof -
  have inv: "ht_inv (d_main d)" using assms(1) by (simp add: tab_inv_def d_inv_def)
  note sp = remove_impl_spec [OF inv assms(2)]
  show "tab_inv (s', d\<lparr>d_main := ht'\<rparr>)"
    using assms(1) sp by (cases "rc = 1") (auto simp: tab_inv_def d_inv_def becomes_def)
  show "ht_lookup ht' k = (case ht_lookup (d_main d) k of None \<Rightarrow> None
       | Some q \<Rightarrow> if b = 0 \<or> r_ver q < b then None else Some q)"
    using sp by (cases "rc = 1") (auto simp: becomes_def split: option.splits)
qed

lemma below_succ: "t \<noteq> - 1 \<Longrightarrow> t + 1 \<noteq> 0 \<and> ((v :: u64) < t + 1 \<longleftrightarrow> v \<le> t)"
  using unat_inc [of t] by (auto simp: word_less_nat_alt word_le_nat_alt less_Suc_eq_le eq_neg_iff_add_eq_0 add.commute)

lemma tab_del_laws:
  assumes "tab_inv w"
  shows "tab_inv (tab_del r dv w)"
    "dv \<noteq> 0 \<Longrightarrow> dv \<noteq> - 1 \<Longrightarrow> tab_look r (tab_del r dv w) = drop_upto dv (tab_look r w)"
proof -
  let ?k = "fst (snd r)"
  obtain s d where w: "w = (s, d)" by (cases w)
  obtain rc s' ht' where rm: "remove_impl ?k (if dv = 0 then 0 else dv + 1) False s (d_main d) = (rc, s', ht')"
    by (metis prod_cases3)
  have run: "tab_del r dv w = (s', d\<lparr>d_main := ht'\<rparr>)"
    using rm by (cases "dv = 0") (simp_all add: tab_del_def clorder_del_def remove_in_def Let_def w
        pcache_ht_remove_def pcache_ht_remove_upto_def)
  note b = remove_below_look [OF assms [unfolded w] rm]
  show "tab_inv (tab_del r dv w)" using b(1) by (simp add: run)
  show "tab_look r (tab_del r dv w) = drop_upto dv (tab_look r w)" if "dv \<noteq> 0" "dv \<noteq> - 1"
    using b(2) that below_succ [OF that(2)]
    by (cases "ht_lookup (d_main d) ?k") (simp_all add: run [unfolded w] w tab_look_def drop_upto_def)
qed

lemma tab_undo_laws:
  assumes "tab_inv w"
  shows "tab_inv (tab_undo r v tv w)"
    "tv \<noteq> - 1 \<Longrightarrow> tab_look r (tab_undo r v tv w) =
       (if covered tv v then drop_upto tv (tab_look r w) else tab_look r w)"
proof -
  let ?k = "fst (snd r)"
  obtain s d where w: "w = (s, d)" by (cases w)
  have "tab_inv (tab_undo r v tv w) \<and> (tv \<noteq> - 1 \<longrightarrow> tab_look r (tab_undo r v tv w) =
       (if covered tv v then drop_upto tv (tab_look r w) else tab_look r w))"
  proof (cases "covered tv v \<and> tv + 1 \<noteq> 0")
    case False
    then have "tab_undo r v tv w = w" "tv \<noteq> - 1 \<longrightarrow> \<not> covered tv v"
      using below_succ [of tv] by (auto simp: tab_undo_def clorder_take_back_def w covered_def pcache_ht_remove_below_def)
    then show ?thesis using assms by simp
  next
    case True
    obtain rc s' ht' where rm: "remove_impl ?k (tv + 1) True s (d_main d) = (rc, s', ht')"
      by (metis prod_cases3)
    have run: "tab_undo r v tv w = (s', d\<lparr>d_main := ht'\<rparr>)"
      using rm True by (auto simp: tab_undo_def clorder_take_back_def w covered_def pcache_ht_remove_below_def)
    note b = remove_below_look [OF assms [unfolded w] rm]
    have "tv \<noteq> - 1" using True by auto
    then show ?thesis
      using b True below_succ [of tv]
      by (cases "ht_lookup (d_main d) ?k") (simp_all add: run [unfolded w] w tab_look_def drop_upto_def)
  qed
  then show "tab_inv (tab_undo r v tv w)"
    "tv \<noteq> - 1 \<Longrightarrow> tab_look r (tab_undo r v tv w) =
       (if covered tv v then drop_upto tv (tab_look r w) else tab_look r w)" by auto
qed

interpretation tk: versioned_key tab_inv tab_ok tab_look tab_put tab_del tab_undo
  by unfold_locales (simp_all add: tab_put_laws tab_del_laws tab_undo_laws)

text \<open>\<open>clorder_set\<close> is the three steps of the setting thread, taken without interruption.\<close>

lemma clorder_set_steps:
  assumes "clorder_set e k x ex fl v (covered t) t (fst w) (snd w) = (rc, s', d')" "r = (e, k, ex, fl)"
  shows "(race_step (tab_put r x v) (tab_undo r v) (tab_del r dv) v dv)\<^sup>*\<^sup>*
    \<lparr>rc_tomb = t, rc_store = w, rc_set = Checking, rc_del = p\<rparr>
    \<lparr>rc_tomb = t, rc_store = (s', d'), rc_set = SetDone, rc_del = p\<rparr>"
    (is "?S\<^sup>*\<^sup>* (?w w Checking) (?w (s', d') SetDone)")
proof (cases "covered t v")
  case True
  then have "w = (s', d')" using assms(1) by (cases w) (simp add: clorder_set_def)
  moreover have "?S (?w w Checking) (?w w SetDone)"
    using race_step.check [of "?w w Checking" "tab_put r x v" "tab_undo r v" "tab_del r dv" v dv] True by simp
  ultimately show ?thesis by auto
next
  case False
  obtain c s1 d1 where st: "pcache_ht_store_ver e k x ex fl v (fst w) (snd w) = (c, s1, d1)" by (metis prod_cases3)
  have put: "tab_put r x v w = (c, (s1, d1))" by (simp add: tab_put_def assms(2) st)
  have 1: "?S (?w w Checking) (?w w Storing)"
    using race_step.check [of "?w w Checking" "tab_put r x v" "tab_undo r v" "tab_del r dv" v dv] False by simp
  have 2: "?S (?w w Storing) (?w (s1, d1) (if c = 0 then Backing else SetDone))"
    using race_step.store [of "?w w Storing" "tab_put r x v"] put by simp
  show ?thesis
  proof (cases "c = 0")
    case True
    obtain b s2 d2 where tb: "clorder_take_back k v t s1 d1 = (b, s2, d2)" by (metis prod_cases3)
    have "(s', d') = (s2, d2)" using assms(1) False True by (auto simp: clorder_set_def st tb)
    moreover have "tab_undo r v t (s1, d1) = (s2, d2)" by (simp add: tab_undo_def assms(2) tb)
    ultimately have "?S (?w (s1, d1) Backing) (?w (s', d') SetDone)"
      using race_step.take_back [of "?w (s1, d1) Backing" "tab_put r x v" "tab_undo r v" "tab_del r dv" v dv] by simp
    moreover have "?S (?w w Storing) (?w (s1, d1) Backing)" using 2 True by simp
    ultimately show ?thesis using 1 by (meson converse_rtranclp_into_rtranclp r_into_rtranclp)
  next
    case c: False
    then have "(s', d') = (s1, d1)" using assms(1) False by (simp add: clorder_set_def st)
    then have "?S (?w w Storing) (?w (s', d') SetDone)" using 2 c by simp
    then show ?thesis using 1 by (meson converse_rtranclp_into_rtranclp r_into_rtranclp)
  qed
qed

lemma del_steps:
  "(race_step put undo_op (tab_del r dv) v dv)\<^sup>*\<^sup>*
    \<lparr>rc_tomb = t, rc_store = w, rc_set = q, rc_del = Planting\<rparr>
    \<lparr>rc_tomb = max t dv, rc_store = tab_del r dv w, rc_set = q, rc_del = DelDone\<rparr>"
proof -
  have "race_step put undo_op (tab_del r dv) v dv \<lparr>rc_tomb = t, rc_store = w, rc_set = q, rc_del = Planting\<rparr>
    \<lparr>rc_tomb = max t dv, rc_store = w, rc_set = q, rc_del = Cutting\<rparr>"
    using race_step.plant [of "\<lparr>rc_tomb = t, rc_store = w, rc_set = q, rc_del = Planting\<rparr>"] by simp
  moreover have "race_step put undo_op (tab_del r dv) v dv \<lparr>rc_tomb = max t dv, rc_store = w, rc_set = q, rc_del = Cutting\<rparr>
    \<lparr>rc_tomb = max t dv, rc_store = tab_del r dv w, rc_set = q, rc_del = DelDone\<rparr>"
    using race_step.remove [of "\<lparr>rc_tomb = max t dv, rc_store = w, rc_set = q, rc_del = Cutting\<rparr>"] by simp
  ultimately show ?thesis by (meson converse_rtranclp_into_rtranclp r_into_rtranclp)
qed

lemma sequential_paths:
  shows "\<exists>w'. (race_step (tab_put r x v) (tab_undo r v) (tab_del r dv) v dv)\<^sup>*\<^sup>* (race_start t w) w' \<and>
      rc_set w' = SetDone \<and> rc_del w' = DelDone \<and> rc_store w' = set_then_del r x v dv t w"
    "\<exists>w'. (race_step (tab_put r x v) (tab_undo r v) (tab_del r dv) v dv)\<^sup>*\<^sup>* (race_start t w) w' \<and>
      rc_set w' = SetDone \<and> rc_del w' = DelDone \<and> rc_store w' = del_then_set r x v dv t w"
proof -
  obtain e k ex fl where r: "r = (e, k, ex, fl)" by (cases r)
  obtain rc s d where a: "clorder_set e k x ex fl v (covered t) t (fst w) (snd w) = (rc, s, d)" by (metis prod_cases3)
  have "set_then_del r x v dv t w = tab_del r dv (s, d)" by (simp add: set_then_del_def r a)
  then show "\<exists>w'. (race_step (tab_put r x v) (tab_undo r v) (tab_del r dv) v dv)\<^sup>*\<^sup>* (race_start t w) w' \<and>
      rc_set w' = SetDone \<and> rc_del w' = DelDone \<and> rc_store w' = set_then_del r x v dv t w"
    using rtranclp_trans [OF clorder_set_steps [OF a r, of dv Planting] del_steps] unfolding race_start_def
    by (metis race.select_convs(2-4))
  let ?w = "tab_del r dv w"
  obtain rc' s' d' where b: "clorder_set e k x ex fl v (covered (max t dv)) (max t dv) (fst ?w) (snd ?w) = (rc', s', d')"
    by (metis prod_cases3)
  have "del_then_set r x v dv t w = (s', d')" using b by (simp add: del_then_set_def r Let_def)
  then show "\<exists>w'. (race_step (tab_put r x v) (tab_undo r v) (tab_del r dv) v dv)\<^sup>*\<^sup>* (race_start t w) w' \<and>
      rc_set w' = SetDone \<and> rc_del w' = DelDone \<and> rc_store w' = del_then_set r x v dv t w"
    using rtranclp_trans [OF del_steps clorder_set_steps [OF b r, of dv DelDone]] unfolding race_start_def
    by (metis race.select_convs(2-4))
qed

section \<open>Properties\<close>

text \<open>C2: A replicated set and a replicated delete of one key, applied on two threads, end as one
  thread would: whatever the interleaving of the set's check, store and second look with the
  delete's tombstone and remove, the key holds what the two entry points leave when they run
  one after the other, in either order; an older set never survives the delete and a newer
  one is never lost.\<close>

theorem set_delete_race:
  assumes "tab_inv w" "tab_ok r x" "dv \<noteq> 0" "dv \<noteq> - 1" "t \<noteq> - 1"
    "(race_step (tab_put r x v) (tab_undo r v) (tab_del r dv) v dv)\<^sup>*\<^sup>* (race_start t w) w'"
    "rc_set w' = SetDone" "rc_del w' = DelDone"
  shows "tab_look r (rc_store w') = tab_look r (set_then_del r x v dv t w) \<and>
    tab_look r (rc_store w') = tab_look r (del_then_set r x v dv t w) \<and>
    tab_look r (rc_store w') =
      (if covered t v \<or> v \<le> dv then drop_upto dv (tab_look r w) else newest (v, x) (tab_look r w))"
proof (intro conjI)
  have all: "tab_look r (rc_store z) = race_result t (v, x) dv (tab_look r w)"
    if "(race_step (tab_put r x v) (tab_undo r v) (tab_del r dv) v dv)\<^sup>*\<^sup>* (race_start t w) z"
      "rc_set z = SetDone" "rc_del z = DelDone" for z
    by (rule tk.race_reaches [OF that(1) _ _ _ _ _ assms(2-5) that(2,3)]) (simp_all add: race_start_def assms(1))
  show "tab_look r (rc_store w') = tab_look r (set_then_del r x v dv t w)"
    using all sequential_paths(1) assms(6-8) by metis
  show "tab_look r (rc_store w') = tab_look r (del_then_set r x v dv t w)"
    using all sequential_paths(2) assms(6-8) by metis
  show "tab_look r (rc_store w') =
      (if covered t v \<or> v \<le> dv then drop_upto dv (tab_look r w) else newest (v, x) (tab_look r w))"
    using all [OF assms(6-8)] by (simp add: race_result_def)
qed

lemma sample_store:
  "tab_inv (sample_sys, sample_drained)" "tab_ok (sample_env, [1], 0, 0) [2]"
  "tab_look (sample_env, [1], 0, 0) (sample_sys, sample_drained) = None"
  by (simp_all add: tab_inv_def tab_ok_def tab_look_def d_inv_def sample_drained_def sample_facts)

theorem set_delete_race_witness:
  "\<exists>w'. (race_step (tab_put (sample_env, [1], 0, 0) [2] 9) (tab_undo (sample_env, [1], 0, 0) 9)
           (tab_del (sample_env, [1], 0, 0) 4) 9 4)\<^sup>*\<^sup>* (race_start 0 (sample_sys, sample_drained)) w' \<and>
     tab_look (sample_env, [1], 0, 0) (rc_store w') = Some (9, [2])"
proof -
  let ?r = "(sample_env, [1], 0, 0)"
  obtain w' where w': "(race_step (tab_put ?r [2] 9) (tab_undo ?r 9) (tab_del ?r 4) 9 4)\<^sup>*\<^sup>*
      (race_start 0 (sample_sys, sample_drained)) w'" "rc_set w' = SetDone" "rc_del w' = DelDone"
    using sequential_paths(1) by blast
  have "tab_look ?r (rc_store w') = (if covered 0 9 \<or> (9 :: u64) \<le> 4 then drop_upto 4 (tab_look ?r (sample_sys, sample_drained))
      else newest (9, [2]) (tab_look ?r (sample_sys, sample_drained)))"
    by (rule conjunct2 [OF conjunct2 [OF set_delete_race [OF sample_store(1,2) _ _ _ w']]]) simp_all
  then have "tab_look ?r (rc_store w') = Some (9, [2])" using sample_store(3) by (simp add: covered_def newest_def)
  then show ?thesis using w'(1) by blast
qed



end
