(* ===== verification/Clack.thy ===== *)
theory Clack
  imports Prelude
begin

text \<open>
  Watermarks (\<open>src/src/clack.c\<close>): what this member has applied, and made durable, of each
  origin's numbered deletes.  Sequence numbers and WAL positions are unsigned 64-bit; they are
  kept as naturals, with the wrap-around written out at the one sum that can leave the range
  (\<open>clack_gap\<close>).  Allocation is a parameter.
\<close>

unbundle bit_operations_syntax

section \<open>The spaces\<close>

definition CLACK_SPACES :: nat where "CLACK_SPACES = 1026"
definition CLACK_WIN :: nat where "CLACK_WIN = 4096"
definition CLACK_PEND :: nat where "CLACK_PEND = 16"

datatype clack_rc = CLACK_NEW | CLACK_DUP | CLACK_FAR | CLACK_FULL | CLACK_BAD

record clack_space =
  k_oid :: u64
  k_incarn :: u32
  k_nahead :: nat
  k_mark :: nat
  k_dmark :: nat
  k_hi :: nat
  k_wmax :: nat
  k_wahead :: nat
  k_pend :: "(nat \<times> nat) list"
  k_ahead :: "u64 list"

record clack =
  ck_doa :: bool
  ck_synced :: nat
  ck_applied :: nat
  ck_dups :: nat
  ck_far :: nat
  ck_full :: nat
  ck_s :: "clack_space list"

definition clack_bit :: "clack_space \<Rightarrow> nat \<Rightarrow> bool" where
  "clack_bit sp seq =
    (let b = seq mod CLACK_WIN in drop_bit (b mod 64) (k_ahead sp ! (b div 64)) AND 1 \<noteq> 0)"

definition clack_bit_set :: "clack_space \<Rightarrow> nat \<Rightarrow> bool \<Rightarrow> clack_space" where
  "clack_bit_set sp seq on =
    (let b = seq mod CLACK_WIN; i = b div 64; w = k_ahead sp ! i
     in sp\<lparr>k_ahead := (k_ahead sp)[i := (if on then w OR push_bit (b mod 64) 1
                                         else w AND NOT (push_bit (b mod 64) 1))]\<rparr>)"

fun clack_find_from :: "nat \<Rightarrow> clack_space list \<Rightarrow> u64 \<Rightarrow> u32 \<Rightarrow> nat option" where
  "clack_find_from i [] oid incarn = None"
| "clack_find_from i (sp # sps) oid incarn =
     (if k_oid sp = oid \<and> k_incarn sp = incarn then Some i else clack_find_from (Suc i) sps oid incarn)"

definition clack_find :: "clack \<Rightarrow> u64 \<Rightarrow> u32 \<Rightarrow> nat option" where
  "clack_find a oid incarn = clack_find_from 0 (ck_s a) oid incarn"

definition zero_space :: "u64 \<Rightarrow> u32 \<Rightarrow> clack_space" where
  "zero_space oid incarn =
    \<lparr>k_oid = oid, k_incarn = incarn, k_nahead = 0, k_mark = 0, k_dmark = 0, k_hi = 0, k_wmax = 0,
     k_wahead = 0, k_pend = [], k_ahead = replicate (CLACK_WIN div 64) 0\<rparr>"

definition clack_get :: "bool \<Rightarrow> clack \<Rightarrow> u64 \<Rightarrow> u32 \<Rightarrow> nat option \<times> clack" where
  "clack_get mem a oid incarn =
    (case clack_find a oid incarn of
       Some i \<Rightarrow> (Some i, a)
     | None \<Rightarrow>
         if length (ck_s a) = CLACK_SPACES \<or> \<not> mem then (None, a\<lparr>ck_full := ck_full a + 1\<rparr>)
         else (Some (length (ck_s a)), a\<lparr>ck_s := ck_s a @ [zero_space oid incarn]\<rparr>))"

definition clack_new :: "bool \<Rightarrow> clack" where
  "clack_new durable_on_apply =
    \<lparr>ck_doa = durable_on_apply, ck_synced = 0, ck_applied = 0, ck_dups = 0, ck_far = 0, ck_full = 0, ck_s = []\<rparr>"

section \<open>Operations on one space\<close>

text \<open>\<open>doa\<close> and \<open>synced\<close> are the fields of the table the space belongs to.\<close>

definition clack_confirm :: "bool \<Rightarrow> nat \<Rightarrow> clack_space \<Rightarrow> clack_space" where
  "clack_confirm doa synced sp =
    (if doa \<or> k_wmax sp \<le> synced then sp\<lparr>k_dmark := k_mark sp, k_pend := []\<rparr>
     else
       let n = length (k_pend sp) in
       if n \<noteq> 0 \<and> snd (k_pend sp ! (n - 1)) = k_wmax sp
         then sp\<lparr>k_pend := (k_pend sp)[n - 1 := (k_mark sp, k_wmax sp)]\<rparr>
       else if n = CLACK_PEND then sp\<lparr>k_pend := (k_pend sp)[n - 1 := (k_mark sp, k_wmax sp)]\<rparr>
       else sp\<lparr>k_pend := k_pend sp @ [(k_mark sp, k_wmax sp)]\<rparr>)"

text \<open>The loop that takes every held number the mark now connects to; whether it took one.\<close>

function clack_connect :: "clack_space \<Rightarrow> bool \<times> clack_space" where
  "clack_connect sp =
    (if k_nahead sp \<noteq> 0 \<and> clack_bit sp (k_mark sp + 1) then
       let sp = clack_bit_set sp (k_mark sp + 1) False
       in (True, snd (clack_connect (sp\<lparr>k_nahead := k_nahead sp - 1, k_mark := k_mark sp + 1\<rparr>)))
     else (False, sp))"
  by pat_completeness auto
termination by (relation "measure k_nahead") (auto simp: clack_bit_set_def Let_def)

declare clack_connect.simps [simp del]

definition space_applied :: "bool \<Rightarrow> nat \<Rightarrow> nat \<Rightarrow> nat \<Rightarrow> clack_space \<Rightarrow> clack_rc \<times> clack_space" where
  "space_applied doa synced seq walseq sp =
    (if seq \<le> k_mark sp \<or> (seq - k_mark sp \<le> CLACK_WIN \<and> clack_bit sp seq) then (CLACK_DUP, sp)
     else
       let sp = (if seq > k_hi sp then sp\<lparr>k_hi := seq\<rparr> else sp) in
       if seq - k_mark sp > CLACK_WIN then (CLACK_FAR, sp)
       else if seq \<noteq> k_mark sp + 1 then
         let sp = clack_bit_set sp seq True;
             sp = sp\<lparr>k_nahead := k_nahead sp + 1\<rparr>
         in (CLACK_NEW, if walseq > k_wahead sp then sp\<lparr>k_wahead := walseq\<rparr> else sp)
       else
         let w = (if walseq > k_wmax sp then walseq else k_wmax sp) in
         case clack_connect (sp\<lparr>k_mark := seq\<rparr>) of (took, sp) \<Rightarrow>
           let w = (if took \<and> k_wahead sp > w then k_wahead sp else w);
               sp = (if k_nahead sp = 0 then sp\<lparr>k_wahead := 0\<rparr> else sp)
           in (CLACK_NEW, clack_confirm doa synced (sp\<lparr>k_wmax := w\<rparr>)))"

definition space_synced :: "nat \<Rightarrow> clack_space \<Rightarrow> clack_space" where
  "space_synced walseq sp =
    (let done = takeWhile (\<lambda>p. snd p \<le> walseq) (k_pend sp)
     in sp\<lparr>k_dmark := foldl (\<lambda>d p. if fst p > d then fst p else d) (k_dmark sp) done,
           k_pend := drop (length done) (k_pend sp)\<rparr>)"

definition space_restore :: "nat \<Rightarrow> clack_space \<Rightarrow> clack_space" where
  "space_restore mark sp =
    sp\<lparr>k_ahead := replicate (CLACK_WIN div 64) 0, k_nahead := 0, k_pend := [], k_mark := mark, k_dmark := mark,
       k_hi := mark, k_wmax := 0, k_wahead := 0\<rparr>"

text \<open>The loop that forgets what was held at or below the floor.\<close>

function clack_unhold :: "nat \<Rightarrow> nat \<Rightarrow> clack_space \<Rightarrow> clack_space" where
  "clack_unhold s floor sp =
    (if s \<le> floor \<and> k_nahead sp \<noteq> 0 then
       clack_unhold (s + 1) floor
         (if clack_bit sp s then (clack_bit_set sp s False)\<lparr>k_nahead := k_nahead sp - 1\<rparr> else sp)
     else sp)"
  by pat_completeness auto
termination by (relation "measure (\<lambda>(s, floor, _). Suc floor - s)") auto

declare clack_unhold.simps [simp del]

definition space_floor :: "bool \<Rightarrow> nat \<Rightarrow> nat \<Rightarrow> clack_space \<Rightarrow> clack_rc \<times> clack_space" where
  "space_floor doa synced floor sp =
    (if floor \<le> k_mark sp then (CLACK_DUP, sp)
     else
       let sp = (if floor - k_mark sp > CLACK_WIN
                 then sp\<lparr>k_ahead := replicate (CLACK_WIN div 64) 0, k_nahead := 0\<rparr>
                 else clack_unhold (k_mark sp + 1) floor sp);
           sp = sp\<lparr>k_mark := floor,
                   k_hi := (if k_hi sp < floor then floor else k_hi sp),
                   k_dmark := (if k_dmark sp < floor then floor else k_dmark sp),
                   k_pend := filter (\<lambda>p. fst p > floor) (k_pend sp)\<rparr>
       in case clack_connect sp of (took, sp) \<Rightarrow>
            let sp = (if took
                      then clack_confirm doa synced (if k_wahead sp > k_wmax sp then sp\<lparr>k_wmax := k_wahead sp\<rparr> else sp)
                      else sp)
            in (CLACK_NEW, if k_nahead sp = 0 then sp\<lparr>k_wahead := 0\<rparr> else sp))"

text \<open>The first hole.  The loop's bound \<open>mark + CLACK_WIN\<close> is a 64-bit sum.\<close>

definition space_gap :: "clack_space \<Rightarrow> (nat \<times> nat) option" where
  "space_gap sp =
    (if k_hi sp \<le> k_mark sp then None
     else
       Some (k_mark sp + 1,
         if k_nahead sp \<noteq> 0 then
           (case find (clack_bit sp) [(k_mark sp + 2) mod 2 ^ 64 ..< (k_mark sp + CLACK_WIN) mod 2 ^ 64 + 1] of
              Some s \<Rightarrow> s - 1
            | None \<Rightarrow> k_hi sp)
         else k_hi sp))"

section \<open>The entry points\<close>

definition put_space :: "nat \<Rightarrow> clack_space \<Rightarrow> clack \<Rightarrow> clack" where
  "put_space i sp a = a\<lparr>ck_s := (ck_s a)[i := sp]\<rparr>"

definition clack_applied :: "bool \<Rightarrow> clack \<Rightarrow> u64 \<Rightarrow> u32 \<Rightarrow> nat \<Rightarrow> nat \<Rightarrow> clack_rc \<times> clack" where
  "clack_applied mem a oid incarn seq walseq =
    (if seq = 0 then (CLACK_BAD, a)
     else case clack_get mem a oid incarn of
       (None, a) \<Rightarrow> (CLACK_FULL, a)
     | (Some i, a) \<Rightarrow>
         (case space_applied (ck_doa a) (ck_synced a) seq walseq (ck_s a ! i) of (rc, sp) \<Rightarrow>
            let a = put_space i sp a in
            (rc, case rc of
                   CLACK_DUP \<Rightarrow> a\<lparr>ck_dups := ck_dups a + 1\<rparr>
                 | CLACK_FAR \<Rightarrow> a\<lparr>ck_far := ck_far a + 1\<rparr>
                 | _ \<Rightarrow> a\<lparr>ck_applied := ck_applied a + 1\<rparr>)))"

definition clack_synced :: "clack \<Rightarrow> nat \<Rightarrow> clack" where
  "clack_synced a walseq =
    (if walseq \<le> ck_synced a then a
     else a\<lparr>ck_synced := walseq, ck_s := map (space_synced walseq) (ck_s a)\<rparr>)"

definition clack_mark :: "clack \<Rightarrow> u64 \<Rightarrow> u32 \<Rightarrow> nat option" where
  "clack_mark a oid incarn = map_option (\<lambda>i. k_dmark (ck_s a ! i)) (clack_find a oid incarn)"

definition clack_gap :: "clack \<Rightarrow> u64 \<Rightarrow> u32 \<Rightarrow> (nat \<times> nat) option" where
  "clack_gap a oid incarn =
    (case clack_find a oid incarn of None \<Rightarrow> None | Some i \<Rightarrow> space_gap (ck_s a ! i))"

definition clack_restore :: "bool \<Rightarrow> clack \<Rightarrow> u64 \<Rightarrow> u32 \<Rightarrow> nat \<Rightarrow> clack_rc \<times> clack" where
  "clack_restore mem a oid incarn mark =
    (case clack_get mem a oid incarn of
       (None, a) \<Rightarrow> (CLACK_FULL, a)
     | (Some i, a) \<Rightarrow> (CLACK_NEW, put_space i (space_restore mark (ck_s a ! i)) a))"

definition clack_floor :: "bool \<Rightarrow> clack \<Rightarrow> u64 \<Rightarrow> u32 \<Rightarrow> nat \<Rightarrow> clack_rc \<times> clack" where
  "clack_floor mem a oid incarn floor =
    (case clack_get mem a oid incarn of
       (None, a) \<Rightarrow> (CLACK_FULL, a)
     | (Some i, a) \<Rightarrow>
         (case space_floor (ck_doa a) (ck_synced a) floor (ck_s a ! i) of (rc, sp) \<Rightarrow> (rc, put_space i sp a)))"

definition clack_known :: "clack \<Rightarrow> u64 \<Rightarrow> u32 \<Rightarrow> bool" where
  "clack_known a oid incarn \<longleftrightarrow> clack_find a oid incarn \<noteq> None"

definition clack_drop :: "clack \<Rightarrow> u64 \<Rightarrow> u32 \<Rightarrow> clack" where
  "clack_drop a oid incarn =
    (case clack_find a oid incarn of
       None \<Rightarrow> a
     | Some i \<Rightarrow> a\<lparr>ck_s := butlast ((ck_s a)[i := last (ck_s a)])\<rparr>)"

text \<open>The walk over the spaces, stopped by the first non-zero answer of the callback.\<close>

fun clack_each :: "(u64 \<Rightarrow> u32 \<Rightarrow> nat \<Rightarrow> nat \<Rightarrow> nat \<Rightarrow> 'c \<Rightarrow> int \<times> 'c) \<Rightarrow> clack_space list \<Rightarrow> 'c \<Rightarrow> int \<times> 'c" where
  "clack_each cb [] c = (0, c)"
| "clack_each cb (sp # sps) c =
     (case cb (k_oid sp) (k_incarn sp) (k_dmark sp) (k_mark sp) (k_hi sp) c of (rc, c) \<Rightarrow>
        if rc \<noteq> 0 then (rc, c) else clack_each cb sps c)"

section \<open>What a space stands for\<close>

text \<open>The numbers a space has recorded since its last restore, each with the WAL position of the
  record that applied it, and the floor below which the fleet vouches for everything.\<close>

record ghost =
  g_held :: "nat \<Rightarrow> nat option"
  g_floor :: nat

definition ahead_set :: "clack_space \<Rightarrow> nat set" where
  "ahead_set sp = {q. k_mark sp < q \<and> q \<le> k_mark sp + CLACK_WIN \<and> clack_bit sp q}"

definition held_inv :: "clack_space \<Rightarrow> ghost \<Rightarrow> bool" where
  "held_inv sp g \<longleftrightarrow> length (k_ahead sp) = CLACK_WIN div 64 \<and> k_nahead sp = card (ahead_set sp) \<and>
     (\<forall>q > k_mark sp. q \<in> ahead_set sp \<longleftrightarrow> g_held g q \<noteq> None) \<and>
     (\<forall>q. g_floor g < q \<longrightarrow> q \<le> k_mark sp \<longrightarrow> g_held g q \<noteq> None) \<and>
     (\<forall>q w. g_held g q = Some w \<longrightarrow> g_floor g < q \<longrightarrow> q \<le> k_mark sp \<longrightarrow> w \<le> k_wmax sp) \<and>
     (\<forall>q w. g_held g q = Some w \<longrightarrow> k_mark sp < q \<longrightarrow> w \<le> k_wahead sp) \<and>
     (\<forall>q. g_held g q \<noteq> None \<longrightarrow> q \<le> k_hi sp) \<and>
     (k_wmax sp = 0 \<or> k_wmax sp \<in> ran (g_held g)) \<and> (k_wahead sp = 0 \<or> k_wahead sp \<in> ran (g_held g)) \<and>
     g_floor g \<le> k_mark sp \<and> k_mark sp \<le> k_hi sp"

text \<open>Everything recorded from the floor up to \<open>s\<close> is in the WAL at or below \<open>w\<close>.\<close>

definition within :: "ghost \<Rightarrow> nat \<Rightarrow> nat \<Rightarrow> bool" where
  "within g s w \<longleftrightarrow> (\<forall>q x. g_held g q = Some x \<longrightarrow> g_floor g < q \<longrightarrow> q \<le> s \<longrightarrow> x \<le> w)"

definition pend_inv :: "bool \<Rightarrow> nat \<Rightarrow> clack_space \<Rightarrow> ghost \<Rightarrow> bool" where
  "pend_inv doa synced sp g \<longleftrightarrow> g_floor g \<le> k_dmark sp \<and> k_dmark sp \<le> k_mark sp \<and>
     (\<not> doa \<longrightarrow> within g (k_dmark sp) synced) \<and>
     (\<forall>p \<in> set (k_pend sp). fst p \<le> k_mark sp \<and> synced < snd p \<and> snd p \<le> k_wmax sp \<and> within g (fst p) (snd p)) \<and>
     sorted_wrt (\<lambda>p q. snd p < snd q) (k_pend sp) \<and> length (k_pend sp) \<le> CLACK_PEND"

definition tight :: "clack_space \<Rightarrow> bool" where
  "tight sp \<longleftrightarrow> k_mark sp + 1 \<notin> ahead_set sp \<and>
     (if k_pend sp = [] then k_dmark sp = k_mark sp else last (k_pend sp) = (k_mark sp, k_wmax sp))"

definition space_inv :: "bool \<Rightarrow> nat \<Rightarrow> clack_space \<Rightarrow> ghost \<Rightarrow> bool" where
  "space_inv doa synced sp g \<longleftrightarrow> held_inv sp g \<and> pend_inv doa synced sp g \<and> tight sp"

text \<open>How the history of a space grows.\<close>

definition ghost_applied :: "nat \<Rightarrow> nat \<Rightarrow> clack_rc \<Rightarrow> ghost \<Rightarrow> ghost" where
  "ghost_applied seq w rc g = (if rc = CLACK_NEW then g\<lparr>g_held := (g_held g)(seq \<mapsto> w)\<rparr> else g)"

definition ghost_floor :: "nat \<Rightarrow> clack_rc \<Rightarrow> ghost \<Rightarrow> ghost" where
  "ghost_floor f rc g = (if rc = CLACK_NEW then g\<lparr>g_floor := f\<rparr> else g)"

definition ghost_restore :: "nat \<Rightarrow> ghost" where
  "ghost_restore m = \<lparr>g_held = Map.empty, g_floor = m\<rparr>"

text \<open>The states a member passes through, with the history of every space beside them.\<close>

inductive clack_reach :: "clack \<Rightarrow> (u64 \<times> u32 \<Rightarrow> ghost) \<Rightarrow> bool" where
  new: "clack_reach (clack_new doa) (\<lambda>_. ghost_restore 0)"
| applied: "clack_reach a G \<Longrightarrow> clack_applied mem a oid incarn seq w = (rc, a') \<Longrightarrow>
    clack_reach a' (G((oid, incarn) := ghost_applied seq w rc (G (oid, incarn))))"
| synced: "clack_reach a G \<Longrightarrow> clack_reach (clack_synced a w) G"
| floor: "clack_reach a G \<Longrightarrow> clack_floor mem a oid incarn f = (rc, a') \<Longrightarrow>
    clack_reach a' (G((oid, incarn) := ghost_floor f rc (G (oid, incarn))))"
| restore: "clack_reach a G \<Longrightarrow> clack_restore mem a oid incarn m = (rc, a') \<Longrightarrow>
    clack_reach a' (if rc = CLACK_NEW then G((oid, incarn) := ghost_restore m) else G)"
| forget: "clack_reach a G \<Longrightarrow> clack_reach (clack_drop a oid incarn) (G((oid, incarn) := ghost_restore 0))"

definition clack_inv :: "clack \<Rightarrow> (u64 \<times> u32 \<Rightarrow> ghost) \<Rightarrow> bool" where
  "clack_inv a G \<longleftrightarrow> distinct (map (\<lambda>sp. (k_oid sp, k_incarn sp)) (ck_s a)) \<and> length (ck_s a) \<le> CLACK_SPACES \<and>
     (\<forall>sp \<in> set (ck_s a). space_inv (ck_doa a) (ck_synced a) sp (G (k_oid sp, k_incarn sp))) \<and>
     (\<forall>key. key \<notin> (\<lambda>sp. (k_oid sp, k_incarn sp)) ` set (ck_s a) \<longrightarrow> G key = ghost_restore 0)"

text \<open>A member that applied numbers 1 and 3 of one space.\<close>

definition sample_clack :: clack where
  "sample_clack = snd (clack_applied True (snd (clack_applied True (clack_new False) 7 1 1 5)) 7 1 3 6)"

definition sample_ghost :: "u64 \<times> u32 \<Rightarrow> ghost" where
  "sample_ghost = ((\<lambda>_. ghost_restore 0)((7, 1) := ghost_applied 1 5 CLACK_NEW (ghost_restore 0)))
     ((7, 1) := ghost_applied 3 6 CLACK_NEW (ghost_applied 1 5 CLACK_NEW (ghost_restore 0)))"

section \<open>The window of held numbers\<close>

lemma clack_bit_iff:
  "clack_bit sp seq \<longleftrightarrow> bit (k_ahead sp ! (seq mod CLACK_WIN div 64)) (seq mod CLACK_WIN mod 64)"
  by (simp add: clack_bit_def Let_def bit_iff_odd_drop_bit and_one_eq odd_iff_mod_2_eq_one)

lemma win_index: "seq mod CLACK_WIN div 64 < CLACK_WIN div 64"
  by (simp add: CLACK_WIN_def less_mult_imp_div_less)

lemma word_bit_change:
  assumes "j < 64" "k < 64"
  shows "bit ((w :: u64) OR push_bit k 1) j \<longleftrightarrow> j = k \<or> bit w j" "bit (w AND NOT (push_bit k 1)) j \<longleftrightarrow> j \<noteq> k \<and> bit w j"
  using assms by (auto simp: bit_or_iff bit_and_iff bit_not_iff bit_exp_iff)

lemma clack_bit_set_bit:
  assumes "length (k_ahead sp) = CLACK_WIN div 64"
  shows "clack_bit (clack_bit_set sp s on) q = (if q mod CLACK_WIN = s mod CLACK_WIN then on else clack_bit sp q)"
proof -
  let ?a = "q mod CLACK_WIN" and ?b = "s mod CLACK_WIN"
  have same: "?a div 64 = ?b div 64 \<Longrightarrow> ?a mod 64 = ?b mod 64 \<Longrightarrow> ?a = ?b"
    by (metis div_mult_mod_eq)
  have l: "?b div 64 < length (k_ahead sp)" using win_index assms by simp
  have m: "?a mod 64 < 64" "?b mod 64 < 64" by simp_all
  show ?thesis
  proof (cases "?a div 64 = ?b div 64")
    case False
    then have "?a \<noteq> ?b" by auto
    then show ?thesis using False by (simp add: clack_bit_iff clack_bit_set_def Let_def)
  next
    case True
    have "k_ahead (clack_bit_set sp s on) ! (?b div 64) =
        (if on then k_ahead sp ! (?b div 64) OR push_bit (?b mod 64) 1
         else k_ahead sp ! (?b div 64) AND NOT (push_bit (?b mod 64) 1))"
      using l by (simp add: clack_bit_set_def Let_def)
    moreover have "?a mod 64 = ?b mod 64 \<longleftrightarrow> ?a = ?b" using same True by metis
    ultimately show ?thesis
      unfolding clack_bit_iff True using word_bit_change [OF m] by (cases on) auto
  qed
qed

lemma clack_bit_set_sel [simp]:
  "k_oid (clack_bit_set sp s on) = k_oid sp" "k_incarn (clack_bit_set sp s on) = k_incarn sp"
  "k_nahead (clack_bit_set sp s on) = k_nahead sp" "k_mark (clack_bit_set sp s on) = k_mark sp"
  "k_dmark (clack_bit_set sp s on) = k_dmark sp" "k_hi (clack_bit_set sp s on) = k_hi sp"
  "k_wmax (clack_bit_set sp s on) = k_wmax sp" "k_wahead (clack_bit_set sp s on) = k_wahead sp"
  "k_pend (clack_bit_set sp s on) = k_pend sp" "length (k_ahead (clack_bit_set sp s on)) = length (k_ahead sp)"
  by (simp_all add: clack_bit_set_def Let_def)

lemma clack_bit_cong: "k_ahead sp = k_ahead sp' \<Longrightarrow> clack_bit sp q = clack_bit sp' q"
  by (simp add: clack_bit_def)

lemma clack_bit_zero: "k_ahead sp = replicate (CLACK_WIN div 64) 0 \<Longrightarrow> \<not> clack_bit sp q"
  using win_index [of q] by (simp add: clack_bit_iff)

text \<open>Two numbers of one window have bits of their own.\<close>

lemma win_inj:
  assumes "m < p" "p \<le> m + CLACK_WIN" "m < q" "q \<le> m + CLACK_WIN" "p mod CLACK_WIN = q mod CLACK_WIN"
  shows "p = q"
proof -
  have "p = q" if "p \<le> q" "m < p" "q \<le> m + CLACK_WIN" "p mod CLACK_WIN = q mod CLACK_WIN" for p q
  proof -
    have "CLACK_WIN dvd q - p" using that(1,4) by (metis mod_eq_dvd_iff_nat)
    moreover have "q - p < CLACK_WIN" using that(1-3) by linarith
    ultimately have "q - p = 0" using dvd_imp_le by fastforce
    then show ?thesis using that(1) by simp
  qed
  from this [of p q] this [of q p] show ?thesis using assms nat_le_linear [of p q] by auto
qed

lemma finite_ahead [simp]: "finite (ahead_set sp)"
  by (rule finite_subset [of _ "{.. k_mark sp + CLACK_WIN}"]) (auto simp: ahead_set_def)

section \<open>The loops\<close>

lemma ahead_pop:
  assumes "length (k_ahead sp) = CLACK_WIN div 64" "k_mark sp + 1 \<in> ahead_set sp"
    "sp' = (clack_bit_set sp (k_mark sp + 1) False)\<lparr>k_nahead := k_nahead sp - 1, k_mark := k_mark sp + 1\<rparr>"
  shows "ahead_set sp' = ahead_set sp - {k_mark sp + 1}"
proof (intro set_eqI)
  fix q
  have bq: "clack_bit sp' q \<longleftrightarrow> (if q mod CLACK_WIN = (k_mark sp + 1) mod CLACK_WIN then False else clack_bit sp q)"
    using clack_bit_set_bit [OF assms(1), of "k_mark sp + 1" False q] assms(3) clack_bit_cong [of sp' "clack_bit_set sp (k_mark sp + 1) False"]
    by simp
  have far: "(k_mark sp + 1 + CLACK_WIN) mod CLACK_WIN = (k_mark sp + 1) mod CLACK_WIN" by (rule mod_add_self2)
  have mk: "k_mark sp' = k_mark sp + 1" using assms(3) by simp
  have inj: "q = k_mark sp + 1" if "k_mark sp < q" "q \<le> k_mark sp + CLACK_WIN" "q mod CLACK_WIN = (k_mark sp + 1) mod CLACK_WIN"
    using win_inj [of "k_mark sp" q "k_mark sp + 1"] that by (simp add: CLACK_WIN_def)
  show "q \<in> ahead_set sp' \<longleftrightarrow> q \<in> ahead_set sp - {k_mark sp + 1}"
  proof (cases "q = k_mark sp + 1 + CLACK_WIN")
    case True
    then show ?thesis using bq far by (simp add: ahead_set_def)
  next
    case False
    then show ?thesis using inj by (auto simp: ahead_set_def mk bq)
  qed
qed

lemma connect_spec:
  assumes "length (k_ahead sp) = CLACK_WIN div 64" "k_nahead sp = card (ahead_set sp)" "clack_connect sp = (took, sp')"
  shows "sp' = sp\<lparr>k_nahead := k_nahead sp', k_mark := k_mark sp', k_ahead := k_ahead sp'\<rparr> \<and>
    length (k_ahead sp') = CLACK_WIN div 64 \<and> k_nahead sp' = card (ahead_set sp') \<and>
    k_mark sp \<le> k_mark sp' \<and> {k_mark sp <.. k_mark sp'} \<subseteq> ahead_set sp \<and>
    ahead_set sp' = ahead_set sp - {.. k_mark sp'} \<and> k_mark sp' + 1 \<notin> ahead_set sp' \<and>
    (took \<longleftrightarrow> k_mark sp < k_mark sp')"
  using assms
proof (induction sp arbitrary: took sp' rule: clack_connect.induct)
  case (1 sp)
  let ?n = "(clack_bit_set sp (k_mark sp + 1) False)\<lparr>k_nahead := k_nahead sp - 1, k_mark := k_mark sp + 1\<rparr>"
  have next_in: "k_nahead sp \<noteq> 0 \<and> clack_bit sp (k_mark sp + 1) \<longleftrightarrow> k_mark sp + 1 \<in> ahead_set sp"
  proof -
    have "k_mark sp + 1 \<in> ahead_set sp \<longleftrightarrow> clack_bit sp (k_mark sp + 1)" by (simp add: ahead_set_def CLACK_WIN_def)
    moreover have "k_mark sp + 1 \<in> ahead_set sp \<Longrightarrow> card (ahead_set sp) \<noteq> 0"
      by (metis card_0_eq empty_iff finite_ahead)
    ultimately show ?thesis using "1.prems"(2) by auto
  qed
  show ?case
  proof (cases "k_mark sp + 1 \<in> ahead_set sp")
    case False
    then have "took = False" "sp' = sp"
      using "1.prems"(3) next_in clack_connect.simps [of sp] by auto
    moreover have "ahead_set sp - {.. k_mark sp} = ahead_set sp" by (auto simp: ahead_set_def)
    ultimately show ?thesis using False "1.prems"(1,2) by simp
  next
    case True
    then have g: "k_nahead sp \<noteq> 0 \<and> clack_bit sp (k_mark sp + 1)" using next_in by simp
    have step: "clack_connect sp = (True, snd (clack_connect ?n))"
      using g clack_connect.simps [of sp] by (simp add: Let_def)
    obtain tk where rec: "clack_connect ?n = (tk, sp')" "took"
      using "1.prems"(3) step by (cases "clack_connect ?n") auto
    have pop: "ahead_set ?n = ahead_set sp - {k_mark sp + 1}" by (rule ahead_pop [OF "1.prems"(1) True refl])
    have len: "length (k_ahead ?n) = CLACK_WIN div 64" using "1.prems"(1) by simp
    have card: "k_nahead ?n = card (ahead_set ?n)" unfolding pop using True "1.prems"(2) by simp
    have rec2: "clack_connect ((clack_bit_set sp (k_mark sp + 1) False)\<lparr>k_nahead := k_nahead (clack_bit_set sp (k_mark sp + 1) False) - 1,
        k_mark := k_mark (clack_bit_set sp (k_mark sp + 1) False) + 1\<rparr>) = (tk, sp')" using rec(1) by simp
    note ih = "1.IH" [OF g refl _ _ rec2, simplified, OF len [simplified] card [simplified]]
    have "{k_mark sp <.. k_mark sp'} \<subseteq> insert (k_mark sp + 1) {k_mark sp + 1 <.. k_mark sp'}" by auto
    then have sub: "{k_mark sp <.. k_mark sp'} \<subseteq> ahead_set sp" using ih pop True by auto
    have "ahead_set sp' = ahead_set sp - {.. k_mark sp'}" using ih pop by auto
    then show ?thesis using ih rec(2) sub by (auto simp: clack_bit_set_def Let_def)
  qed
qed

lemma connect_fields:
  assumes "clack_connect sp = (took, sp')"
  shows "k_oid sp' = k_oid sp" "k_incarn sp' = k_incarn sp" "k_wmax sp' = k_wmax sp"
proof -
  have "k_oid (snd (clack_connect sp)) = k_oid sp \<and> k_incarn (snd (clack_connect sp)) = k_incarn sp \<and>
    k_wmax (snd (clack_connect sp)) = k_wmax sp"
  proof (induction sp rule: clack_connect.induct)
    case (1 sp)
    then show ?case by (subst (1 2 3) clack_connect.simps) (simp add: Let_def)
  qed
  then show "k_oid sp' = k_oid sp" "k_incarn sp' = k_incarn sp" "k_wmax sp' = k_wmax sp" using assms by auto
qed

lemma ahead_shift:
  assumes "k_mark sp \<le> f" "f \<le> k_mark sp + CLACK_WIN" "\<And>q. k_mark sp < q \<Longrightarrow> q \<le> f \<Longrightarrow> \<not> clack_bit sp q"
    "k_ahead sp' = k_ahead sp" "k_mark sp' = f"
  shows "ahead_set sp' = ahead_set sp"
proof (intro set_eqI iffI)
  note b = clack_bit_cong [OF assms(4)]
  fix q
  show "q \<in> ahead_set sp'" if "q \<in> ahead_set sp"
  proof -
    have "f < q" using that assms(3) [of q] by (force simp: ahead_set_def)
    then show ?thesis using that assms(1,5) by (simp add: ahead_set_def b)
  qed
  assume "q \<in> ahead_set sp'"
  then have q: "f < q" "q \<le> f + CLACK_WIN" "clack_bit sp q" using assms(5) by (auto simp: ahead_set_def b)
  have "q \<le> k_mark sp + CLACK_WIN"
  proof (rule ccontr)
    assume n: "\<not> q \<le> k_mark sp + CLACK_WIN"
    then have "(q - CLACK_WIN) mod CLACK_WIN = q mod CLACK_WIN" by (simp add: le_mod_geq)
    then have "clack_bit sp (q - CLACK_WIN)" using q(3) by (simp add: clack_bit_iff)
    moreover have "k_mark sp < q - CLACK_WIN" "q - CLACK_WIN \<le> f" using n q(2) by linarith+
    ultimately show False using assms(3) by blast
  qed
  then show "q \<in> ahead_set sp" using q assms(1) by (simp add: ahead_set_def)
qed

lemma unhold_spec:
  assumes "length (k_ahead sp) = CLACK_WIN div 64" "k_nahead sp = card (ahead_set sp)" "k_mark sp < s"
    "floor \<le> k_mark sp + CLACK_WIN"
  shows "clack_unhold s floor sp =
      sp\<lparr>k_nahead := k_nahead (clack_unhold s floor sp), k_ahead := k_ahead (clack_unhold s floor sp)\<rparr> \<and>
    length (k_ahead (clack_unhold s floor sp)) = CLACK_WIN div 64 \<and>
    k_nahead (clack_unhold s floor sp) = card (ahead_set (clack_unhold s floor sp)) \<and>
    ahead_set (clack_unhold s floor sp) = ahead_set sp - {s .. floor}"
  using assms
proof (induction s floor sp rule: clack_unhold.induct)
  case (1 s floor sp)
  let ?sp = "if clack_bit sp s then (clack_bit_set sp s False)\<lparr>k_nahead := k_nahead sp - 1\<rparr> else sp"
  show ?case
  proof (cases "s \<le> floor \<and> k_nahead sp \<noteq> 0")
    case False
    then have e: "clack_unhold s floor sp = sp" using clack_unhold.simps [of s floor sp] by auto
    have "ahead_set sp - {s .. floor} = ahead_set sp" using False "1.prems"(2) by (auto simp: card_eq_0_iff)
    then show ?thesis using "1.prems" by (simp add: e)
  next
    case True
    then have e: "clack_unhold s floor sp = clack_unhold (s + 1) floor ?sp" using clack_unhold.simps [of s floor sp] by auto
    have in_win: "s \<le> k_mark sp + CLACK_WIN" using True "1.prems"(4) by simp
    have set1: "ahead_set ?sp = ahead_set sp - {s}"
    proof (cases "clack_bit sp s")
      case True
      let ?t = "(clack_bit_set sp s False)\<lparr>k_nahead := k_nahead sp - 1\<rparr>"
      have b: "clack_bit ?t q \<longleftrightarrow> (if q mod CLACK_WIN = s mod CLACK_WIN then False else clack_bit sp q)" for q
        using clack_bit_set_bit [OF "1.prems"(1), of s False q] clack_bit_cong [of ?t "clack_bit_set sp s False"] by simp
      have "q \<in> ahead_set ?t \<longleftrightarrow> q \<in> ahead_set sp - {s}" for q
        using win_inj [of "k_mark sp" q s] "1.prems"(3) in_win b [of q] by (auto simp: ahead_set_def)
      then show ?thesis using True by auto
    qed (auto simp: ahead_set_def)
    have c: "k_nahead ?sp = card (ahead_set ?sp)"
    proof (cases "clack_bit sp s")
      case True
      then have "s \<in> ahead_set sp" using in_win "1.prems"(3) by (simp add: ahead_set_def)
      then show ?thesis unfolding set1 using "1.prems"(2) True by simp
    next
      case False
      then show ?thesis using "1.prems"(2) by simp
    qed
    have l: "length (k_ahead ?sp) = CLACK_WIN div 64" "k_mark ?sp = k_mark sp" using "1.prems"(1) by simp_all
    note ih = "1.IH" [OF True l(1) c, unfolded l(2)]
    have "k_mark sp < s + 1" using "1.prems"(3) by simp
    note ih = ih [OF this "1.prems"(4)]
    have "{s .. floor} = insert s {s + 1 .. floor}" using True by auto
    then show ?thesis unfolding e using ih set1 by (auto simp: clack_bit_set_def Let_def)
  qed
qed

section \<open>One space keeps its invariant\<close>

lemma held_inv_cong:
  assumes "held_inv sp g" "k_ahead sp' = k_ahead sp" "k_mark sp' = k_mark sp" "k_nahead sp' = k_nahead sp"
    "k_wmax sp' = k_wmax sp" "k_wahead sp' = k_wahead sp" "k_hi sp' = k_hi sp"
  shows "held_inv sp' g"
proof -
  have "ahead_set sp' = ahead_set sp" using assms(2,3) clack_bit_cong [OF assms(2)] by (simp add: ahead_set_def)
  then show ?thesis using assms by (simp add: held_inv_def)
qed

lemma ahead_set_cong: "k_ahead sp' = k_ahead sp \<Longrightarrow> k_mark sp' = k_mark sp \<Longrightarrow> ahead_set sp' = ahead_set sp"
  using clack_bit_cong [of sp' sp] by (simp add: ahead_set_def)

lemma confirm_spec:
  assumes "held_inv sp g" "pend_inv doa synced sp g" "k_mark sp + 1 \<notin> ahead_set sp"
  shows "space_inv doa synced (clack_confirm doa synced sp) g"
proof -
  let ?c = "clack_confirm doa synced sp"
  have same: "k_ahead ?c = k_ahead sp" "k_mark ?c = k_mark sp" "k_nahead ?c = k_nahead sp" "k_wmax ?c = k_wmax sp"
    "k_wahead ?c = k_wahead sp" "k_hi ?c = k_hi sp"
    by (simp_all add: clack_confirm_def Let_def)
  have h: "held_inv ?c g" by (rule held_inv_cong [OF assms(1)]) (simp_all add: same)
  have nx: "k_mark ?c + 1 \<notin> ahead_set ?c" using assms(3) ahead_set_cong [of ?c sp] same by simp
  have all: "within g (k_mark sp) (k_wmax sp)" using assms(1) by (auto simp: held_inv_def within_def)
  show ?thesis
  proof (cases "doa \<or> k_wmax sp \<le> synced")
    case True
    then have c: "?c = sp\<lparr>k_dmark := k_mark sp, k_pend := []\<rparr>" by (simp add: clack_confirm_def)
    have "\<not> doa \<longrightarrow> within g (k_mark sp) synced" using all True by (auto simp: within_def intro: order_trans)
    then have "pend_inv doa synced ?c g" using assms(1,2) by (simp add: c pend_inv_def held_inv_def)
    then show ?thesis using h nx by (simp add: space_inv_def tight_def c)
  next
    case False
    let ?p = "k_pend sp" and ?n = "length (k_pend sp)" and ?new = "(k_mark sp, k_wmax sp)"
    define ps where "ps = (if ?n \<noteq> 0 \<and> (snd (last ?p) = k_wmax sp \<or> ?n = CLACK_PEND) then butlast ?p @ [?new] else ?p @ [?new])"
    have c: "?c = sp\<lparr>k_pend := ps\<rparr>"
      using False
      by (auto simp: clack_confirm_def Let_def ps_def last_conv_nth list_update_append1 CLACK_PEND_def
          butlast_conv_take upd_conv_take_nth_drop)
    have old: "\<forall>p \<in> set ?p. fst p \<le> k_mark sp \<and> synced < snd p \<and> snd p \<le> k_wmax sp \<and> within g (fst p) (snd p)"
      "sorted_wrt (\<lambda>p q. snd p < snd q) ?p" "?n \<le> CLACK_PEND"
      using assms(2) by (auto simp: pend_inv_def)
    have lt: "snd p < k_wmax sp" if "p \<in> set (butlast ps)" for p
    proof (cases "?n \<noteq> 0 \<and> (snd (last ?p) = k_wmax sp \<or> ?n = CLACK_PEND)")
      case True
      then have p: "p \<in> set (butlast ?p)" "?p = butlast ?p @ [last ?p]" using that by (auto simp: ps_def)
      then have "snd p < snd (last ?p)" using old(2) by (metis sorted_wrt_append list.set_intros(1))
      moreover have "snd (last ?p) \<le> k_wmax sp" using old(1) True by auto
      ultimately show ?thesis by simp
    next
      case nr: False
      then have p: "p \<in> set ?p" "?p \<noteq> []" using that by (auto simp: ps_def split: if_splits)
      then have "snd (last ?p) < k_wmax sp" using old(1) nr by (metis last_in_set length_0_conv order_le_neq_trans)
      moreover have "snd p \<le> snd (last ?p)"
      proof (cases "p = last ?p")
        case False
        then have "p \<in> set (butlast ?p)" using p by (metis in_set_butlast_appendI append_butlast_last_id in_set_conv_decomp insert_iff list.simps(15) set_append Un_iff empty_iff empty_set)
        then show ?thesis using old(2) p(2) by (metis append_butlast_last_id less_imp_le list.set_intros(1) sorted_wrt_append)
      qed simp
      ultimately show ?thesis by simp
    qed
    have shape: "ps = butlast ps @ [?new]" "set (butlast ps) \<subseteq> set ?p" "length ps \<le> CLACK_PEND"
      using old(3) by (auto simp: ps_def CLACK_PEND_def dest: in_set_butlastD)
    have "sorted_wrt (\<lambda>p q. snd p < snd q) (butlast ps)"
      using old(2) by (auto simp: ps_def sorted_wrt_append butlast_conv_take intro: sorted_wrt_take)
    then have "sorted_wrt (\<lambda>p q. snd p < snd q) ps" using lt by (subst shape(1)) (simp add: sorted_wrt_append)
    moreover have "\<forall>p \<in> set ps. fst p \<le> k_mark sp \<and> synced < snd p \<and> snd p \<le> k_wmax sp \<and> within g (fst p) (snd p)"
      using old(1) shape(2) all False by (subst shape(1)) auto
    ultimately have "pend_inv doa synced ?c g" using assms(2) shape(3) by (simp add: c pend_inv_def)
    moreover have "ps \<noteq> []" "last ps = ?new" by (subst shape(1), simp)+
    ultimately show ?thesis using h nx by (simp add: space_inv_def tight_def c)
  qed
qed

lemma inv_fields:
  assumes "space_inv doa synced sp g"
  shows "held_inv sp g" "pend_inv doa synced sp g" "k_mark sp + 1 \<notin> ahead_set sp"
    "length (k_ahead sp) = CLACK_WIN div 64" "k_nahead sp = card (ahead_set sp)"
  using assms by (auto simp: space_inv_def tight_def held_inv_def)

lemma held_facts:
  assumes "held_inv sp g"
  shows "\<And>q. k_mark sp < q \<Longrightarrow> q \<in> ahead_set sp \<longleftrightarrow> g_held g q \<noteq> None"
    "\<And>q. g_floor g < q \<Longrightarrow> q \<le> k_mark sp \<Longrightarrow> g_held g q \<noteq> None"
    "\<And>q w. g_held g q = Some w \<Longrightarrow> g_floor g < q \<Longrightarrow> q \<le> k_mark sp \<Longrightarrow> w \<le> k_wmax sp"
    "\<And>q w. g_held g q = Some w \<Longrightarrow> k_mark sp < q \<Longrightarrow> w \<le> k_wahead sp"
    "\<And>q. g_held g q \<noteq> None \<Longrightarrow> q \<le> k_hi sp"
    "k_wmax sp = 0 \<or> k_wmax sp \<in> ran (g_held g)" "k_wahead sp = 0 \<or> k_wahead sp \<in> ran (g_held g)"
    "g_floor g \<le> k_mark sp" "k_mark sp \<le> k_hi sp"
  using assms by (auto simp: held_inv_def)

text \<open>A number held ahead of the mark.\<close>

lemma hold_ahead:
  assumes "space_inv doa synced sp g" "k_mark sp + 1 < seq" "seq \<le> k_mark sp + CLACK_WIN" "\<not> clack_bit sp seq"
    "k_ahead sp' = k_ahead (clack_bit_set sp seq True)" "k_nahead sp' = k_nahead sp + 1" "k_mark sp' = k_mark sp"
    "k_dmark sp' = k_dmark sp" "k_pend sp' = k_pend sp" "k_wmax sp' = k_wmax sp" "k_wahead sp' = max (k_wahead sp) w"
    "k_hi sp' = max (k_hi sp) seq"
  shows "space_inv doa synced sp' (g\<lparr>g_held := (g_held g)(seq \<mapsto> w)\<rparr>)"
proof -
  note i = inv_fields [OF assms(1)]
  let ?g = "g\<lparr>g_held := (g_held g)(seq \<mapsto> w)\<rparr>"
  have b: "clack_bit sp' q \<longleftrightarrow> (if q mod CLACK_WIN = seq mod CLACK_WIN then True else clack_bit sp q)" for q
    using clack_bit_set_bit [OF i(4)] clack_bit_cong [OF assms(5)] by simp
  have "q \<in> ahead_set sp' \<longleftrightarrow> q \<in> insert seq (ahead_set sp)" for q
    using win_inj [of "k_mark sp" q seq] assms(2,3) b [of q] by (auto simp: ahead_set_def assms(7))
  then have a: "ahead_set sp' = insert seq (ahead_set sp)" by blast
  have "seq \<notin> ahead_set sp" using assms(4) by (simp add: ahead_set_def)
  then have c: "k_nahead sp' = card (ahead_set sp')" using i(5) by (simp add: a assms(6))
  have l: "length (k_ahead sp') = CLACK_WIN div 64" using i(4) by (simp add: assms(5))
  have "g_held g seq = None"
    using i(1) assms(2) \<open>seq \<notin> ahead_set sp\<close> by (auto simp: held_inv_def)
  then have r: "ran (g_held ?g) = insert w (ran (g_held g))" by (simp add: ran_map_upd)
  note h = held_facts [OF i(1)]
  have "held_inv sp' ?g"
    unfolding held_inv_def a assms(7,10,11,12) r
  proof (intro conjI allI impI)
    show "length (k_ahead sp') = CLACK_WIN div 64" "k_nahead sp' = card (insert seq (ahead_set sp))" using l c a by simp_all
    show "q \<in> insert seq (ahead_set sp) \<longleftrightarrow> g_held ?g q \<noteq> None" if "k_mark sp < q" for q using h(1) [OF that] by auto
    show "max (k_wahead sp) w = 0 \<or> max (k_wahead sp) w \<in> insert w (ran (g_held g))" using h(7) by (auto simp: max_def)
    show "x \<le> max (k_wahead sp) w" if "g_held ?g q = Some x" "k_mark sp < q" for q x
      using that h(4) [of q x] by (auto split: if_splits)
    show "q \<le> max (k_hi sp) seq" if "g_held ?g q \<noteq> None" for q using that h(5) [of q] by (auto split: if_splits)
  qed (use h(2,3,6,8,9) assms(2) in \<open>auto split: if_splits\<close>)
  moreover have "within ?g q x" if "within g q x" "q \<le> k_mark sp" for q x
    using that assms(2) by (auto simp: within_def split: if_splits)
  then have "pend_inv doa synced sp' ?g"
    using i(2) unfolding pend_inv_def assms(7-10) by simp
  moreover have "tight sp'"
    using assms(1,2) unfolding space_inv_def tight_def a assms(7-10) by simp
  ultimately show ?thesis by (simp add: space_inv_def)
qed

text \<open>The next number, and what it connects.\<close>

lemma take_next:
  assumes "space_inv doa synced sp g" "clack_connect (sp\<lparr>k_hi := max (k_hi sp) (k_mark sp + 1), k_mark := k_mark sp + 1\<rparr>) = (took, sp')"
    "x = (if took \<and> k_wahead sp' > max w (k_wmax sp') then k_wahead sp' else max w (k_wmax sp'))"
    "sp'' = sp'\<lparr>k_wahead := (if k_nahead sp' = 0 then 0 else k_wahead sp'), k_wmax := x\<rparr>"
  shows "space_inv doa synced (clack_confirm doa synced sp'') (g\<lparr>g_held := (g_held g)(k_mark sp + 1 \<mapsto> w)\<rparr>)"
proof -
  note i = inv_fields [OF assms(1)]
  let ?m = "k_mark sp + 1" and ?g = "g\<lparr>g_held := (g_held g)(k_mark sp + 1 \<mapsto> w)\<rparr>"
  let ?n = "sp\<lparr>k_hi := max (k_hi sp) (k_mark sp + 1), k_mark := k_mark sp + 1\<rparr>"
  have nb: "\<not> clack_bit sp ?m" using i(3) by (auto simp: ahead_set_def CLACK_WIN_def)
  have nbq: "\<not> clack_bit sp q" if "k_mark sp < q" "q \<le> ?m" for q
  proof -
    have "q = ?m" using that by linarith
    then show ?thesis using nb by simp
  qed
  define n where "n = ?n"
  have n: "k_mark n = ?m" "k_ahead n = k_ahead sp" "k_nahead n = k_nahead sp" by (simp_all add: n_def)
  have a: "ahead_set n = ahead_set sp"
    by (rule ahead_shift [of _ ?m]) (use nbq in \<open>simp_all add: CLACK_WIN_def n\<close>)
  have "length (k_ahead n) = CLACK_WIN div 64" "k_nahead n = card (ahead_set n)" unfolding a n using i(4,5) by simp_all
  note c = connect_spec [OF this assms(2) [folded n_def], unfolded a n]
  have c: "sp' = n\<lparr>k_nahead := k_nahead sp', k_mark := k_mark sp', k_ahead := k_ahead sp'\<rparr>"
    "length (k_ahead sp') = CLACK_WIN div 64" "k_nahead sp' = card (ahead_set sp')"
    "?m \<le> k_mark sp'" "{?m <.. k_mark sp'} \<subseteq> ahead_set sp" "ahead_set sp' = ahead_set sp - {.. k_mark sp'}"
    "k_mark sp' + 1 \<notin> ahead_set sp'" "took \<longleftrightarrow> ?m < k_mark sp'"
    using c by blast+
  have f: "k_wmax sp' = k_wmax sp" "k_wahead sp' = k_wahead sp" "k_hi sp' = max (k_hi sp) ?m" "k_dmark sp' = k_dmark sp"
    "k_pend sp' = k_pend sp" by (subst c(1), simp add: n_def)+
  have a2: "ahead_set sp'' = ahead_set sp'" using assms(4) ahead_set_cong [of sp'' sp'] by simp
  note h = held_facts [OF i(1)]
  have free: "g_held g ?m = None" using h(1) i(3) by auto
  have cont: "g_held ?g q \<noteq> None" if "g_floor g < q" "q \<le> k_mark sp'" for q
  proof -
    consider "q \<le> k_mark sp" | "q = ?m" | "q \<in> {?m <.. k_mark sp'}" using \<open>q \<le> k_mark sp'\<close> by fastforce
    then show ?thesis using h(1,2) c(5) that(1) by cases (auto simp: subset_iff)
  qed
  have x: "x \<ge> w" "x \<ge> k_wmax sp" "took \<Longrightarrow> x \<ge> k_wahead sp" "x = 0 \<or> x \<in> insert w (ran (g_held g))"
    using assms(3) h(6,7) by (auto simp: f max_def split: if_splits)
  have bound: "y \<le> x" if y: "g_held ?g q = Some y" "g_floor g < q" "q \<le> k_mark sp'" for q y
  proof -
    consider "q = ?m" | "q \<le> k_mark sp" | "?m < q" by linarith
    then show ?thesis
    proof cases
      case 2
      then show ?thesis using h(3) y x(2) by (auto intro: order_trans)
    next
      case 3
      then have "y \<le> k_wahead sp" "took" using h(4) [of q y] y c(8) by auto
      then show ?thesis using x(3) by simp
    qed (use y x(1) in auto)
  qed
  have r: "ran (g_held ?g) = insert w (ran (g_held g))" using free by (simp add: ran_map_upd)
  have "held_inv sp'' ?g"
    unfolding held_inv_def a2
  proof (intro conjI allI impI)
    show "k_wmax sp'' = 0 \<or> k_wmax sp'' \<in> ran (g_held ?g)" using x(4) r by (simp add: assms(4))
    show "k_wahead sp'' = 0 \<or> k_wahead sp'' \<in> ran (g_held ?g)" using h(7) r by (simp add: assms(4) f) blast
    fix q assume q: "k_mark sp'' < q"
    show "q \<in> ahead_set sp' \<longleftrightarrow> g_held ?g q \<noteq> None"
      using q c(4,6) h(1) by (auto simp: assms(4))
  next
    fix q y assume y: "g_held ?g q = Some y" "k_mark sp'' < q"
    then have "q \<in> ahead_set sp'" "y \<le> k_wahead sp" using c(4,6) h(1,4) by (auto simp: assms(4) split: if_splits)
    then have "k_nahead sp' \<noteq> 0" using c(3) by (metis card_0_eq empty_iff finite_ahead)
    then show "y \<le> k_wahead sp''" using \<open>y \<le> k_wahead sp\<close> by (simp add: assms(4) f)
  next
    have "k_mark sp' \<le> k_hi sp'"
    proof (cases took)
      case True
      then have "k_mark sp' \<in> ahead_set sp" using c(5,8) by (auto simp: subset_iff)
      then have "g_held g (k_mark sp') \<noteq> None" using h(1) by (auto simp: ahead_set_def)
      then have "k_mark sp' \<le> k_hi sp" by (rule h(5))
      then show ?thesis by (simp add: f)
    next
      case False
      then show ?thesis using c(4,8) by (simp add: f)
    qed
    then show "k_mark sp'' \<le> k_hi sp''" by (simp add: assms(4))
  next
    show "length (k_ahead sp'') = CLACK_WIN div 64" "k_nahead sp'' = card (ahead_set sp')" using c(2,3) by (simp_all add: assms(4))
    show "g_held ?g q \<noteq> None" if "g_floor ?g < q" "q \<le> k_mark sp''" for q
      using cont [of q] that by (simp add: assms(4))
    show "y \<le> k_wmax sp''" if "g_held ?g q = Some y" "g_floor ?g < q" "q \<le> k_mark sp''" for q y
      using bound [of q y] that by (simp add: assms(4))
    show "q \<le> k_hi sp''" if "g_held ?g q \<noteq> None" for q
      using that h(5) [of q] by (auto simp: assms(4) f split: if_splits)
    show "g_floor ?g \<le> k_mark sp''" using h(8) c(4) by (simp add: assms(4))
  qed
  moreover have "pend_inv doa synced sp'' ?g"
  proof -
    have w: "within ?g q y" if "within g q y" "q \<le> k_mark sp" for q y
      using that by (auto simp: within_def split: if_splits)
    have s: "k_pend sp'' = k_pend sp" "k_dmark sp'' = k_dmark sp" "k_mark sp'' = k_mark sp'" "k_wmax sp'' = x"
      by (simp_all add: assms(4) f)
    show ?thesis
      unfolding pend_inv_def s
    proof (intro conjI ballI impI)
      show "fst p \<le> k_mark sp'" "synced < snd p" "snd p \<le> x" "within ?g (fst p) (snd p)" if "p \<in> set (k_pend sp)" for p
        using i(2) that c(4) x(2) w [of "fst p" "snd p"] by (auto simp: pend_inv_def)
      show "within ?g (k_dmark sp) synced" if "\<not> doa" using i(2) that w by (auto simp: pend_inv_def)
    qed (use i(2) c(4) in \<open>auto simp: pend_inv_def\<close>)
  qed
  moreover have "k_mark sp'' + 1 \<notin> ahead_set sp''" using c(7) a2 by (simp add: assms(4))
  ultimately show ?thesis by (rule confirm_spec)
qed

lemma applied_spec:
  assumes "space_inv doa synced sp g" "space_applied doa synced seq w sp = (rc, sp')" "0 < seq"
  shows "space_inv doa synced sp' (ghost_applied seq w rc g)"
    "rc = CLACK_DUP \<Longrightarrow> sp' = sp \<and> (seq \<le> k_mark sp \<or> g_held g seq \<noteq> None)"
    "rc = CLACK_NEW \<Longrightarrow> g_held g seq = None \<and> k_mark sp < seq"
    "rc \<in> {CLACK_NEW, CLACK_DUP, CLACK_FAR}" "k_oid sp' = k_oid sp \<and> k_incarn sp' = k_incarn sp"
proof -
  note i = inv_fields [OF assms(1)]
  note h = held_facts [OF i(1)]
  consider (dup) "seq \<le> k_mark sp \<or> (seq - k_mark sp \<le> CLACK_WIN \<and> clack_bit sp seq)"
    | (far) "k_mark sp < seq" "seq - k_mark sp > CLACK_WIN"
    | (ahead) "k_mark sp + 1 < seq" "seq - k_mark sp \<le> CLACK_WIN" "\<not> clack_bit sp seq"
    | (nxt) "seq = k_mark sp + 1" "\<not> clack_bit sp seq"
    by linarith
  then have "space_inv doa synced sp' (ghost_applied seq w rc g) \<and>
    (rc = CLACK_DUP \<longrightarrow> sp' = sp \<and> (seq \<le> k_mark sp \<or> g_held g seq \<noteq> None)) \<and>
    (rc = CLACK_NEW \<longrightarrow> g_held g seq = None \<and> k_mark sp < seq) \<and> rc \<in> {CLACK_NEW, CLACK_DUP, CLACK_FAR} \<and>
    k_oid sp' = k_oid sp \<and> k_incarn sp' = k_incarn sp"
  proof cases
    case dup
    then have "rc = CLACK_DUP" "sp' = sp" using assms(2) by (auto simp: space_applied_def)
    moreover have "seq \<le> k_mark sp \<or> g_held g seq \<noteq> None"
    proof (cases "seq \<le> k_mark sp")
      case False
      then have "seq \<in> ahead_set sp" using dup by (auto simp: ahead_set_def)
      then show ?thesis using h(1) False by auto
    qed simp
    ultimately show ?thesis using assms(1) by (simp add: ghost_applied_def)
  next
    case far
    then have r: "rc = CLACK_FAR" "sp' = sp\<lparr>k_hi := max (k_hi sp) seq\<rparr>"
      using assms(2) by (auto simp: space_applied_def Let_def max_def split: if_splits)
    have "ahead_set sp' = ahead_set sp" using r ahead_set_cong [of sp' sp] by simp
    then have "held_inv sp' g" using i(1) by (auto simp: held_inv_def r)
    then have "space_inv doa synced sp' g"
      using assms(1) \<open>ahead_set sp' = ahead_set sp\<close> by (simp add: space_inv_def pend_inv_def tight_def r)
    then show ?thesis using r by (simp add: ghost_applied_def)
  next
    case ahead
    define b where "b = clack_bit_set sp seq True"
    have bs: "k_mark b = k_mark sp" by (simp add: b_def)
    have cb: "clack_bit_set (sp\<lparr>k_hi := x\<rparr>) seq True = b\<lparr>k_hi := x\<rparr>" for x by (simp add: b_def clack_bit_set_def Let_def)
    have "rc = CLACK_NEW" "k_ahead sp' = k_ahead b" "k_nahead sp' = k_nahead sp + 1" "k_mark sp' = k_mark sp"
      "k_dmark sp' = k_dmark sp" "k_pend sp' = k_pend sp" "k_wmax sp' = k_wmax sp" "k_wahead sp' = max (k_wahead sp) w"
      "k_hi sp' = max (k_hi sp) seq" "k_oid sp' = k_oid sp" "k_incarn sp' = k_incarn sp"
      using assms(2) ahead
      by (auto simp: space_applied_def Let_def max_def cb b_def [symmetric] clack_bit_cong [of "sp\<lparr>k_hi := seq\<rparr>" sp] split: if_splits)
        (auto simp: b_def)
    note f = this
    have "space_inv doa synced sp' (g\<lparr>g_held := (g_held g)(seq \<mapsto> w)\<rparr>)"
      by (rule hold_ahead [OF assms(1) ahead(1) _ ahead(3) f(2) [unfolded b_def] f(3-9)]) (use ahead in linarith)
    moreover have "seq \<notin> ahead_set sp" using ahead(3) by (simp add: ahead_set_def)
    ultimately show ?thesis using f(1,10,11) h(1) [of seq] ahead(1) by (simp add: ghost_applied_def)
  next
    case nxt
    obtain took c where c: "clack_connect (sp\<lparr>k_hi := max (k_hi sp) (k_mark sp + 1), k_mark := k_mark sp + 1\<rparr>) = (took, c)"
      by fastforce
    have cw: "k_wmax c = k_wmax sp" "k_oid c = k_oid sp" "k_incarn c = k_incarn sp"
      using connect_fields [OF c] by simp_all
    define x where "x = (if took \<and> k_wahead c > max w (k_wmax c) then k_wahead c else max w (k_wmax c))"
    define d where "d = c\<lparr>k_wahead := (if k_nahead c = 0 then 0 else k_wahead c), k_wmax := x\<rparr>"
    have mx: "(if k_wmax sp < w then w else k_wmax sp) = max w (k_wmax sp)" by (simp add: max_def)
    have "space_applied doa synced seq w sp = (CLACK_NEW, clack_confirm doa synced d)"
    proof (cases "k_hi sp < k_mark sp + 1")
      case True
      then have "clack_connect (sp\<lparr>k_hi := k_mark sp + 1, k_mark := k_mark sp + 1\<rparr>) = (took, c)" using c by (simp add: max_def)
      then show ?thesis
        using True nxt by (simp add: space_applied_def Let_def mx CLACK_WIN_def) (simp add: d_def x_def cw)
    next
      case False
      then have "clack_connect (sp\<lparr>k_mark := k_mark sp + 1\<rparr>) = (took, c)" using c by (simp add: max_def)
      then show ?thesis
        using False nxt by (simp add: space_applied_def Let_def mx CLACK_WIN_def) (simp add: d_def x_def cw)
    qed
    then have "rc = CLACK_NEW \<and> sp' = clack_confirm doa synced d" using assms(2) by simp
    moreover have "k_oid (clack_confirm doa synced d) = k_oid sp" "k_incarn (clack_confirm doa synced d) = k_incarn sp"
      by (simp_all add: clack_confirm_def Let_def d_def cw)
    moreover have "k_mark sp + 1 \<notin> ahead_set sp" by (rule i(3))
    ultimately show ?thesis
      using take_next [OF assms(1) c x_def d_def] h(1) [of "k_mark sp + 1"] nxt(1) by (simp add: ghost_applied_def)
  qed
  then show "space_inv doa synced sp' (ghost_applied seq w rc g)"
    "rc = CLACK_DUP \<Longrightarrow> sp' = sp \<and> (seq \<le> k_mark sp \<or> g_held g seq \<noteq> None)"
    "rc = CLACK_NEW \<Longrightarrow> g_held g seq = None \<and> k_mark sp < seq"
    "rc \<in> {CLACK_NEW, CLACK_DUP, CLACK_FAR}" "k_oid sp' = k_oid sp \<and> k_incarn sp' = k_incarn sp" by blast+
qed

lemma fold_dmark:
  "(d :: nat) \<le> foldl (\<lambda>d p. if fst p > d then fst p else d) d ps \<and>
   (\<forall>p \<in> set ps. fst p \<le> foldl (\<lambda>d p. if fst p > d then fst p else d) d ps) \<and>
   foldl (\<lambda>d p. if fst p > d then fst p else d) d ps \<in> insert d (fst ` set ps)"
proof (induction ps arbitrary: d)
  case (Cons a ps)
  show ?case using Cons.IH [of "if fst a > d then fst a else d"] by (auto split: if_splits)
qed simp

lemma synced_spec:
  assumes "space_inv doa synced sp g" "synced < W"
  shows "space_inv doa W (space_synced W sp) g" "k_wmax sp \<le> W \<Longrightarrow> k_dmark (space_synced W sp) = k_mark sp"
    "k_oid (space_synced W sp) = k_oid sp \<and> k_incarn (space_synced W sp) = k_incarn sp \<and> k_mark (space_synced W sp) = k_mark sp"
proof -
  note i = inv_fields [OF assms(1)]
  let ?p = "k_pend sp" and ?d = "takeWhile (\<lambda>p. snd p \<le> W) (k_pend sp)"
  let ?dm = "foldl (\<lambda>d p. if fst p > d then fst p else d) (k_dmark sp) ?d"
  define r where "r = dropWhile (\<lambda>p. snd p \<le> W) ?p"
  have split: "?p = ?d @ r" unfolding r_def by (rule takeWhile_dropWhile_id [symmetric])
  have S: "space_synced W sp = sp\<lparr>k_dmark := ?dm, k_pend := r\<rparr>" by (simp add: space_synced_def Let_def r_def dropWhile_eq_drop)
  have old: "\<And>p. p \<in> set ?p \<Longrightarrow> fst p \<le> k_mark sp \<and> synced < snd p \<and> snd p \<le> k_wmax sp \<and> within g (fst p) (snd p)"
    "sorted_wrt (\<lambda>p q. snd p < snd q) ?p" "length ?p \<le> CLACK_PEND" "k_dmark sp \<le> k_mark sp" "g_floor g \<le> k_dmark sp"
    "\<not> doa \<Longrightarrow> within g (k_dmark sp) synced"
    using i(2) by (auto simp: pend_inv_def)
  have dW: "snd p \<le> W" if "p \<in> set ?d" for p using that by (auto dest: set_takeWhileD)
  have sub: "set ?d \<subseteq> set ?p" "set r \<subseteq> set ?p" by (auto dest: set_takeWhileD set_dropWhileD simp: r_def)
  have rW: "W < snd p" if "p \<in> set r" for p
  proof -
    obtain h t where r: "r = h # t" using \<open>p \<in> set r\<close> by (cases r) auto
    then have "W < snd h" using hd_dropWhile [of "\<lambda>p. snd p \<le> W" ?p] by (simp add: r_def)
    moreover have "sorted_wrt (\<lambda>p q. snd p < snd q) r" using old(2) by (simp add: r_def sorted_wrt_dropWhile)
    then have "p = h \<or> snd h < snd p" using that r by auto
    ultimately show ?thesis by auto
  qed
  have dm: "?dm \<in> insert (k_dmark sp) (fst ` set ?d)" "k_dmark sp \<le> ?dm" using fold_dmark [of "k_dmark sp" ?d] by blast+
  have up: "within g q y" if "within g q x" "x \<le> y" for q x y using that by (auto simp: within_def intro: order_trans)
  have "within g (fst p) W" if "p \<in> set ?d" for p using up [of "fst p" "snd p" W] old(1) [of p] dW that sub(1) by auto
  then have "\<not> doa \<Longrightarrow> within g ?dm W"
    using dm(1) old(6) up [of "k_dmark sp" synced W] assms(2) by auto
  moreover have "?dm \<le> k_mark sp" using dm(1) old(1,4) sub(1) by auto
  moreover have "sorted_wrt (\<lambda>p q. snd p < snd q) r" "length r \<le> CLACK_PEND"
    using old(2,3) unfolding r_def by (auto simp: sorted_wrt_dropWhile intro: le_trans [OF length_dropWhile_le])
  ultimately have P: "pend_inv doa W (space_synced W sp) g"
    using dm(2) old(1,5) sub(2) rW unfolding pend_inv_def S by auto
  have H: "held_inv (space_synced W sp) g" by (rule held_inv_cong [OF i(1)]) (simp_all add: S)
  have A: "ahead_set (space_synced W sp) = ahead_set sp" by (rule ahead_set_cong) (simp_all add: S)
  have emp: "?dm = k_mark sp" if "r = []"
  proof (cases "?p = []")
    case True
    then show ?thesis using assms(1) by (simp add: space_inv_def tight_def)
  next
    case False
    then have "last ?p = (k_mark sp, k_wmax sp)" using assms(1) by (simp add: space_inv_def tight_def)
    moreover have "?p = ?d" using split that by (metis append_Nil2)
    ultimately have "(k_mark sp, k_wmax sp) \<in> set ?d" using False by (metis last_in_set)
    then have "k_mark sp \<le> ?dm" using fold_dmark [of "k_dmark sp" ?d] by fastforce
    then show ?thesis using \<open>?dm \<le> k_mark sp\<close> by simp
  qed
  have "tight (space_synced W sp)"
  proof (cases "r = []")
    case True
    then show ?thesis using emp i(3) A by (simp add: tight_def S)
  next
    case False
    then have "last r = last ?p" "?p \<noteq> []" using split by (metis last_append, metis append_is_Nil_conv)
    then have "last r = (k_mark sp, k_wmax sp)" using assms(1) by (simp add: space_inv_def tight_def)
    then show ?thesis using False i(3) A by (simp add: tight_def S)
  qed
  then show "space_inv doa W (space_synced W sp) g" using H P by (simp add: space_inv_def)
  show "k_dmark (space_synced W sp) = k_mark sp" if "k_wmax sp \<le> W"
  proof -
    have "r = []" using rW old(1) sub(2) that by (metis hd_in_set le_trans linorder_not_less subsetD)
    then show ?thesis using emp by (simp add: S)
  qed
  show "k_oid (space_synced W sp) = k_oid sp \<and> k_incarn (space_synced W sp) = k_incarn sp \<and> k_mark (space_synced W sp) = k_mark sp"
    by (simp add: S)
qed

lemma restore_spec: "space_inv doa synced (space_restore m sp) (ghost_restore m)"
proof -
  have "ahead_set (space_restore m sp) = {}"
    using clack_bit_zero [of "space_restore m sp"] by (simp add: ahead_set_def space_restore_def)
  then show ?thesis
    by (simp add: space_inv_def held_inv_def pend_inv_def tight_def within_def ghost_restore_def space_restore_def)
qed

lemma fresh_spec: "space_inv doa synced (zero_space oid incarn) (ghost_restore 0)"
proof -
  have "ahead_set (zero_space oid incarn) = {}"
    using clack_bit_zero [of "zero_space oid incarn"] by (simp add: ahead_set_def zero_space_def)
  then show ?thesis
    by (simp add: space_inv_def held_inv_def pend_inv_def tight_def within_def ghost_restore_def zero_space_def)
qed

text \<open>What is left of the window when the floor passes the mark.\<close>

lemma floor_window:
  assumes "space_inv doa synced sp g" "k_mark sp < f"
    "sp' = (if f - k_mark sp > CLACK_WIN then sp\<lparr>k_ahead := replicate (CLACK_WIN div 64) 0, k_nahead := 0\<rparr>
            else clack_unhold (k_mark sp + 1) f sp)"
  shows "sp' = sp\<lparr>k_nahead := k_nahead sp', k_ahead := k_ahead sp'\<rparr>" "length (k_ahead sp') = CLACK_WIN div 64"
    "k_nahead sp' = card (ahead_set (sp'\<lparr>k_mark := f\<rparr>))" "ahead_set (sp'\<lparr>k_mark := f\<rparr>) = ahead_set sp - {.. f}"
proof -
  note i = inv_fields [OF assms(1)]
  have "sp' = sp\<lparr>k_nahead := k_nahead sp', k_ahead := k_ahead sp'\<rparr> \<and> length (k_ahead sp') = CLACK_WIN div 64 \<and>
    k_nahead sp' = card (ahead_set (sp'\<lparr>k_mark := f\<rparr>)) \<and> ahead_set (sp'\<lparr>k_mark := f\<rparr>) = ahead_set sp - {.. f}"
  proof (cases "f - k_mark sp > CLACK_WIN")
    case True
    then have s: "sp' = sp\<lparr>k_ahead := replicate (CLACK_WIN div 64) 0, k_nahead := 0\<rparr>" using assms(3) by simp
    have "\<not> clack_bit (sp'\<lparr>k_mark := f\<rparr>) q" for q by (rule clack_bit_zero) (simp add: s)
    then have "ahead_set (sp'\<lparr>k_mark := f\<rparr>) = {}" by (simp add: ahead_set_def)
    moreover have "ahead_set sp - {.. f} = {}" using True by (auto simp: ahead_set_def)
    ultimately show ?thesis by (simp add: s)
  next
    case False
    then have s: "sp' = clack_unhold (k_mark sp + 1) f sp" "f \<le> k_mark sp + CLACK_WIN" using assms(2,3) by auto
    note u = unhold_spec [OF i(4,5) less_add_one s(2), folded s(1)]
    have mk: "k_mark sp' = k_mark sp" by (subst conjunct1 [OF u]) simp
    have u2: "ahead_set sp' = ahead_set sp - {k_mark sp + 1 .. f}" by (rule conjunct2 [OF conjunct2 [OF conjunct2 [OF u]]])
    have nb: "\<not> clack_bit sp' q" if "k_mark sp' < q" "q \<le> f" for q
    proof
      assume "clack_bit sp' q"
      then have "q \<in> ahead_set sp'" using that s(2) mk by (simp add: ahead_set_def)
      then show False using that mk unfolding u2 by simp
    qed
    have A: "ahead_set (sp'\<lparr>k_mark := f\<rparr>) = ahead_set sp'"
      by (rule ahead_shift [of _ f]) (use nb s(2) mk assms(2) in simp_all)
    have B: "ahead_set sp - {k_mark sp + 1 .. f} = ahead_set sp - {.. f}" by (auto simp: ahead_set_def)
    show ?thesis
    proof (intro conjI)
      show "sp' = sp\<lparr>k_nahead := k_nahead sp', k_ahead := k_ahead sp'\<rparr>" by (rule conjunct1 [OF u])
      show "length (k_ahead sp') = CLACK_WIN div 64" "k_nahead sp' = card (ahead_set (sp'\<lparr>k_mark := f\<rparr>))"
        unfolding A by (rule conjunct1 [OF conjunct2 [OF u]], rule conjunct1 [OF conjunct2 [OF conjunct2 [OF u]]])
      show "ahead_set (sp'\<lparr>k_mark := f\<rparr>) = ahead_set sp - {.. f}" unfolding A u2 by (rule B)
    qed
  qed
  then show "sp' = sp\<lparr>k_nahead := k_nahead sp', k_ahead := k_ahead sp'\<rparr>" "length (k_ahead sp') = CLACK_WIN div 64"
    "k_nahead sp' = card (ahead_set (sp'\<lparr>k_mark := f\<rparr>))" "ahead_set (sp'\<lparr>k_mark := f\<rparr>) = ahead_set sp - {.. f}" by blast+
qed

lemma wahead_reset:
  assumes "space_inv doa synced sp g" "k_nahead sp = 0"
  shows "space_inv doa synced (sp\<lparr>k_wahead := 0\<rparr>) g"
proof -
  note i = inv_fields [OF assms(1)]
  have A: "ahead_set (sp\<lparr>k_wahead := 0\<rparr>) = ahead_set sp" by (rule ahead_set_cong) simp_all
  have "ahead_set sp = {}" using i(5) assms(2) by (simp add: card_eq_0_iff)
  then have "held_inv (sp\<lparr>k_wahead := 0\<rparr>) g"
    using i(1) unfolding held_inv_def A by auto
  then show ?thesis using assms(1) by (simp add: space_inv_def pend_inv_def tight_def A)
qed

lemma floor_spec:
  assumes "space_inv doa synced sp g" "space_floor doa synced f sp = (rc, sp')"
  shows "space_inv doa synced sp' (ghost_floor f rc g)" "rc \<in> {CLACK_NEW, CLACK_DUP}"
    "rc = CLACK_DUP \<Longrightarrow> sp' = sp \<and> f \<le> k_mark sp" "rc = CLACK_NEW \<Longrightarrow> f \<le> k_dmark sp'"
    "k_oid sp' = k_oid sp \<and> k_incarn sp' = k_incarn sp"
proof -
  note i = inv_fields [OF assms(1)]
  note h = held_facts [OF i(1)]
  have "space_inv doa synced sp' (ghost_floor f rc g) \<and> rc \<in> {CLACK_NEW, CLACK_DUP} \<and>
    (rc = CLACK_DUP \<longrightarrow> sp' = sp \<and> f \<le> k_mark sp) \<and> (rc = CLACK_NEW \<longrightarrow> f \<le> k_dmark sp') \<and>
    k_oid sp' = k_oid sp \<and> k_incarn sp' = k_incarn sp"
  proof (cases "f \<le> k_mark sp")
    case True
    then show ?thesis using assms by (auto simp: space_floor_def ghost_floor_def)
  next
    case False
    define u where "u = (if f - k_mark sp > CLACK_WIN then sp\<lparr>k_ahead := replicate (CLACK_WIN div 64) 0, k_nahead := 0\<rparr>
            else clack_unhold (k_mark sp + 1) f sp)"
    have mf: "k_mark sp < f" using False by simp
    note w = floor_window [OF assms(1) mf u_def]
    have uf: "k_hi u = k_hi sp" "k_dmark u = k_dmark sp" "k_pend u = k_pend sp" "k_wmax u = k_wmax sp" "k_wahead u = k_wahead sp"
      "k_oid u = k_oid sp" "k_incarn u = k_incarn sp"
      by (subst w(1), simp)+
    define v where "v = u\<lparr>k_mark := f, k_hi := max (k_hi sp) f, k_dmark := f, k_pend := []\<rparr>"
    have dm: "k_dmark sp \<le> k_mark sp" "\<And>p. p \<in> set (k_pend sp) \<Longrightarrow> fst p \<le> k_mark sp" using i(2) by (auto simp: pend_inv_def)
    then have nop: "filter (\<lambda>p. f < fst p) (k_pend sp) = []" using False by (fastforce simp: filter_empty_conv)
    obtain took c where c: "clack_connect v = (took, c)" by fastforce
    define d where "d = (if took then clack_confirm doa synced (c\<lparr>k_wmax := max (k_wmax c) (k_wahead c)\<rparr>) else c)"
    define e where "e = (if k_nahead d = 0 then d\<lparr>k_wahead := 0\<rparr> else d)"
    have vv: "u\<lparr>k_mark := f, k_hi := if k_hi u < f then f else k_hi u, k_dmark := if k_dmark u < f then f else k_dmark u,
        k_pend := filter (\<lambda>p. f < fst p) (k_pend u)\<rparr> = v"
      using mf dm(1) by (simp add: v_def uf nop max_def)
    have wm: "(if k_wmax c < k_wahead c then c\<lparr>k_wmax := k_wahead c\<rparr> else c) = c\<lparr>k_wmax := max (k_wmax c) (k_wahead c)\<rparr>"
      by (simp add: max_def)
    have "space_floor doa synced f sp = (CLACK_NEW, e)"
      using False unfolding space_floor_def Let_def u_def [symmetric] vv c prod.case e_def d_def wm by simp
    then have res: "rc = CLACK_NEW" "sp' = e" using assms(2) by simp_all
    have "ahead_set v = ahead_set (u\<lparr>k_mark := f\<rparr>)" by (rule ahead_set_cong) (simp_all add: v_def)
    then have va: "ahead_set v = ahead_set sp - {.. f}" "k_nahead v = card (ahead_set v)" "length (k_ahead v) = CLACK_WIN div 64"
      using w(2-4) by (simp_all add: v_def)
    have vm: "k_mark v = f" by (simp add: v_def)
    note k = connect_spec [OF va(3,2) c, unfolded va(1) vm]
    have cs: "c = v\<lparr>k_nahead := k_nahead c, k_mark := k_mark c, k_ahead := k_ahead c\<rparr>"
      "length (k_ahead c) = CLACK_WIN div 64" "k_nahead c = card (ahead_set c)" "f \<le> k_mark c"
      "{f <.. k_mark c} \<subseteq> ahead_set sp - {.. f}" "ahead_set c = ahead_set sp - {.. f} - {.. k_mark c}" "k_mark c + 1 \<notin> ahead_set c"
      "took \<longleftrightarrow> f < k_mark c"
      using k by blast+
    have c6: "ahead_set c = ahead_set sp - {.. k_mark c}" unfolding cs(6) using cs(4) by auto
    have cf: "k_wmax c = k_wmax sp" "k_wahead c = k_wahead sp" "k_hi c = max (k_hi sp) f" "k_dmark c = f" "k_pend c = []"
      "k_oid c = k_oid sp" "k_incarn c = k_incarn sp"
      by (subst cs(1), simp add: v_def uf)+
    let ?g = "g\<lparr>g_floor := f\<rparr>"
    define x where "x = (if took then max (k_wmax c) (k_wahead c) else k_wmax c)"
    have H: "held_inv (c\<lparr>k_wmax := x\<rparr>) ?g"
    proof -
      have A: "ahead_set (c\<lparr>k_wmax := x\<rparr>) = ahead_set sp - {.. k_mark c}" using c6 ahead_set_cong [of "c\<lparr>k_wmax := x\<rparr>" c] by simp
      have between: "q \<in> ahead_set sp" "took" if "f < q" "q \<le> k_mark c" for q using that cs(5,8) by auto
      show ?thesis
        unfolding held_inv_def A
      proof (intro conjI allI impI)
        show "length (k_ahead (c\<lparr>k_wmax := x\<rparr>)) = CLACK_WIN div 64" "k_nahead (c\<lparr>k_wmax := x\<rparr>) = card (ahead_set sp - {.. k_mark c})"
          using cs(2,3) c6 by simp_all
        show "q \<in> ahead_set sp - {.. k_mark c} \<longleftrightarrow> g_held ?g q \<noteq> None" if "k_mark (c\<lparr>k_wmax := x\<rparr>) < q" for q
          using h(1) [of q] that cs(4) mf by auto
        show "g_held ?g q \<noteq> None" if "g_floor ?g < q" "q \<le> k_mark (c\<lparr>k_wmax := x\<rparr>)" for q
          using between [of q] that h(1) [of q] mf by auto
        show "y \<le> k_wmax (c\<lparr>k_wmax := x\<rparr>)" if "g_held ?g q = Some y" "g_floor ?g < q" "q \<le> k_mark (c\<lparr>k_wmax := x\<rparr>)" for q y
          using between(2) [of q] that h(4) [of q y] mf by (auto simp: x_def cf)
        show "y \<le> k_wahead (c\<lparr>k_wmax := x\<rparr>)" if "g_held ?g q = Some y" "k_mark (c\<lparr>k_wmax := x\<rparr>) < q" for q y
          using that h(4) [of q y] cs(4) mf by (simp add: cf)
        show "q \<le> k_hi (c\<lparr>k_wmax := x\<rparr>)" if "g_held ?g q \<noteq> None" for q using h(5) [of q] that by (simp add: cf)
        show "k_wmax (c\<lparr>k_wmax := x\<rparr>) = 0 \<or> k_wmax (c\<lparr>k_wmax := x\<rparr>) \<in> ran (g_held ?g)"
          using h(6,7) by (auto simp: x_def cf max_def)
        show "k_wahead (c\<lparr>k_wmax := x\<rparr>) = 0 \<or> k_wahead (c\<lparr>k_wmax := x\<rparr>) \<in> ran (g_held ?g)" using h(7) by (simp add: cf)
        show "g_floor ?g \<le> k_mark (c\<lparr>k_wmax := x\<rparr>)" using cs(4) by simp
        show "k_mark (c\<lparr>k_wmax := x\<rparr>) \<le> k_hi (c\<lparr>k_wmax := x\<rparr>)"
        proof (cases took)
          case True
          then have "g_held g (k_mark c) \<noteq> None" using between(1) [of "k_mark c"] cs(8) h(1) [of "k_mark c"] mf by auto
          then show ?thesis using h(5) [of "k_mark c"] by (simp add: cf)
        next
          case False
          then show ?thesis using cs(4,8) by (simp add: cf)
        qed
      qed
    qed
    have P: "pend_inv doa synced (c\<lparr>k_wmax := x\<rparr>) ?g"
      using cs(4) by (simp add: pend_inv_def within_def cf)
    have N: "k_mark (c\<lparr>k_wmax := x\<rparr>) + 1 \<notin> ahead_set (c\<lparr>k_wmax := x\<rparr>)"
      using cs(7) ahead_set_cong [of "c\<lparr>k_wmax := x\<rparr>" c] by simp
    have D: "space_inv doa synced d ?g"
    proof (cases took)
      case True
      then show ?thesis using confirm_spec [OF H P N] by (simp add: d_def x_def)
    next
      case False
      then have "k_mark c = f" "c\<lparr>k_wmax := x\<rparr> = c" using cs(4,8) by (simp_all add: x_def)
      then show ?thesis using H P N False by (simp add: space_inv_def tight_def d_def cf)
    qed
    have E: "space_inv doa synced e ?g" unfolding e_def using wahead_reset [OF D] D by simp
    moreover have "k_oid e = k_oid sp" "k_incarn e = k_incarn sp"
      by (simp_all add: e_def d_def clack_confirm_def Let_def cf)
    moreover have "f \<le> k_dmark e" using E by (simp add: space_inv_def pend_inv_def)
    ultimately show ?thesis using res by (simp add: ghost_floor_def)
  qed
  then show "space_inv doa synced sp' (ghost_floor f rc g)" "rc \<in> {CLACK_NEW, CLACK_DUP}"
    "rc = CLACK_DUP \<Longrightarrow> sp' = sp \<and> f \<le> k_mark sp" "rc = CLACK_NEW \<Longrightarrow> f \<le> k_dmark sp'"
    "k_oid sp' = k_oid sp \<and> k_incarn sp' = k_incarn sp" by blast+
qed

section \<open>The table of spaces\<close>

abbreviation space_key :: "clack_space \<Rightarrow> u64 \<times> u32" where
  "space_key sp \<equiv> (k_oid sp, k_incarn sp)"

lemma find_from:
  "clack_find_from n sps oid incarn = Some i \<Longrightarrow> n \<le> i \<and> i - n < length sps \<and> space_key (sps ! (i - n)) = (oid, incarn)"
  "clack_find_from n sps oid incarn = None \<Longrightarrow> (oid, incarn) \<notin> space_key ` set sps"
proof (induction sps arbitrary: n)
  case (Cons sp sps)
  { case 1 then show ?case using Cons.IH(1) [of "Suc n"] by (auto simp: nth_Cons' split: if_splits) }
  { case 2 then show ?case using Cons.IH(2) [of "Suc n"] by (auto split: if_splits) }
qed simp_all

lemma find_Some: "clack_find a oid incarn = Some i \<Longrightarrow> i < length (ck_s a) \<and> space_key (ck_s a ! i) = (oid, incarn)"
  using find_from(1) [of 0 "ck_s a" oid incarn i] by (simp add: clack_find_def)

lemma find_None: "clack_find a oid incarn = None \<Longrightarrow> (oid, incarn) \<notin> space_key ` set (ck_s a)"
  using find_from(2) [of 0 "ck_s a" oid incarn] by (simp add: clack_find_def)

lemma found_inv:
  assumes "clack_inv a G" "clack_find a oid incarn = Some i"
  shows "space_inv (ck_doa a) (ck_synced a) (ck_s a ! i) (G (oid, incarn))"
  using assms find_Some [OF assms(2)] by (auto simp: clack_inv_def dest!: bspec [of _ _ "ck_s a ! i"])

lemma put_space_inv:
  assumes "clack_inv a G" "i < length (ck_s a)" "space_key sp = key" "space_key (ck_s a ! i) = key"
    "space_inv (ck_doa a) (ck_synced a) sp g"
  shows "clack_inv (put_space i sp a) (G(key := g))"
proof -
  have k: "map space_key ((ck_s a)[i := sp]) = map space_key (ck_s a)"
    unfolding map_update using assms(2-4) by (intro list_update_same_conv [THEN iffD2]) simp_all
  have d: "distinct (map space_key (ck_s a))" using assms(1) by (simp add: clack_inv_def)
  have "space_inv (ck_doa a) (ck_synced a) q ((G(key := g)) (space_key q))" if "q \<in> set ((ck_s a)[i := sp])" for q
  proof -
    obtain j where j: "j < length (ck_s a)" "q = (ck_s a)[i := sp] ! j"
      using \<open>q \<in> set ((ck_s a)[i := sp])\<close> by (metis in_set_conv_nth length_list_update)
    show ?thesis
    proof (cases "j = i")
      case True
      then show ?thesis using assms(2,3,5) j by simp
    next
      case False
      then have q: "q = ck_s a ! j" using j by simp
      have "map space_key (ck_s a) ! j \<noteq> map space_key (ck_s a) ! i"
        using d j(1) assms(2) False by (simp only: nth_eq_iff_index_eq length_map) simp
      then have "space_key q \<noteq> key" using q j(1) assms(2,4) by simp
      then show ?thesis using assms(1) j(1) q by (simp add: clack_inv_def)
    qed
  qed
  moreover have s: "space_key ` set ((ck_s a)[i := sp]) = space_key ` set (ck_s a)" using arg_cong [OF k, of set] by simp
  moreover have "(G(key := g)) k' = ghost_restore 0" if "k' \<notin> space_key ` set (ck_s a)" for k'
  proof -
    have "key \<in> space_key ` set (ck_s a)" using assms(2,4) by force
    then have "k' \<noteq> key" using that by blast
    then show ?thesis using assms(1) that by (cases k') (simp add: clack_inv_def)
  qed
  moreover have "length (ck_s a) \<le> CLACK_SPACES" using assms(1) by (simp add: clack_inv_def)
  ultimately show ?thesis unfolding clack_inv_def put_space_def using d by (simp add: s k)
qed

lemma get_spec:
  assumes "clack_inv a G" "clack_get mem a oid incarn = (r, a')"
  shows "clack_inv a' G" "ck_doa a' = ck_doa a" "ck_synced a' = ck_synced a"
    "r = Some i \<Longrightarrow> i < length (ck_s a') \<and> space_key (ck_s a' ! i) = (oid, incarn)"
    "r = Some i \<Longrightarrow> space_inv (ck_doa a') (ck_synced a') (ck_s a' ! i) (G (oid, incarn))"
proof -
  have "clack_inv a' G \<and> ck_doa a' = ck_doa a \<and> ck_synced a' = ck_synced a \<and>
    (\<forall>i. r = Some i \<longrightarrow> i < length (ck_s a') \<and> space_key (ck_s a' ! i) = (oid, incarn) \<and>
       space_inv (ck_doa a') (ck_synced a') (ck_s a' ! i) (G (oid, incarn)))"
  proof (cases "clack_find a oid incarn")
    case (Some j)
    then have "a' = a" "r = Some j" using assms(2) by (auto simp: clack_get_def)
    then show ?thesis using find_Some [OF Some] found_inv [OF assms(1) Some] assms(1) by simp
  next
    case None
    show ?thesis
    proof (cases "length (ck_s a) = CLACK_SPACES \<or> \<not> mem")
      case True
      then have "a' = a\<lparr>ck_full := ck_full a + 1\<rparr>" "r = None" using assms(2) None by (auto simp: clack_get_def)
      then show ?thesis using assms(1) by (simp add: clack_inv_def)
    next
      case False
      then have a': "a' = a\<lparr>ck_s := ck_s a @ [zero_space oid incarn]\<rparr>" "r = Some (length (ck_s a))"
        using assms(2) None by (auto simp: clack_get_def)
      have zk: "space_key (zero_space oid incarn) = (oid, incarn)" by (simp add: zero_space_def)
      have g: "G (oid, incarn) = ghost_restore 0" using find_None [OF None] assms(1) by (simp add: clack_inv_def)
      have "length (ck_s a) < CLACK_SPACES" using False assms(1) by (simp add: clack_inv_def)
      then have "clack_inv a' G"
        using assms(1) find_None [OF None] fresh_spec [of "ck_doa a" "ck_synced a" oid incarn] g zk
        by (auto simp: clack_inv_def a')
      then show ?thesis using fresh_spec [of "ck_doa a" "ck_synced a" oid incarn] g zk by (simp add: a')
    qed
  qed
  then show "clack_inv a' G" "ck_doa a' = ck_doa a" "ck_synced a' = ck_synced a"
    "r = Some i \<Longrightarrow> i < length (ck_s a') \<and> space_key (ck_s a' ! i) = (oid, incarn)"
    "r = Some i \<Longrightarrow> space_inv (ck_doa a') (ck_synced a') (ck_s a' ! i) (G (oid, incarn))" by blast+
qed

lemma clack_inv_counts:
  "clack_inv a G \<Longrightarrow> clack_inv (a\<lparr>ck_dups := n\<rparr>) G" "clack_inv a G \<Longrightarrow> clack_inv (a\<lparr>ck_far := n\<rparr>) G"
  "clack_inv a G \<Longrightarrow> clack_inv (a\<lparr>ck_applied := n\<rparr>) G"
  by (simp_all add: clack_inv_def)

lemma applied_inv:
  assumes "clack_inv a G" "clack_applied mem a oid incarn seq w = (rc, a')"
  shows "clack_inv a' (G((oid, incarn) := ghost_applied seq w rc (G (oid, incarn))))"
proof (cases "seq = 0")
  case True
  then show ?thesis using assms by (simp add: clack_applied_def ghost_applied_def)
next
  case False
  obtain r b where b: "clack_get mem a oid incarn = (r, b)" by fastforce
  note g = get_spec [OF assms(1) b]
  show ?thesis
  proof (cases r)
    case None
    then show ?thesis using assms(2) False b g(1) by (simp add: clack_applied_def ghost_applied_def)
  next
    case (Some i)
    obtain c sp where sp: "space_applied (ck_doa b) (ck_synced b) seq w (ck_s b ! i) = (c, sp)" by fastforce
    note s = applied_spec [OF g(5) [OF Some] sp]
    have k: "space_key sp = (oid, incarn)" using s(5) g(4) [OF Some] False by simp
    have "clack_inv (put_space i sp b) (G((oid, incarn) := ghost_applied seq w c (G (oid, incarn))))"
      by (rule put_space_inv [OF g(1) _ k _ s(1)]) (use g(4) [OF Some] False in simp_all)
    then show ?thesis
      using assms(2) False b Some sp k
      by (cases c) (auto simp: clack_applied_def Let_def intro: clack_inv_counts)
  qed
qed

lemma floor_inv:
  assumes "clack_inv a G" "clack_floor mem a oid incarn f = (rc, a')"
  shows "clack_inv a' (G((oid, incarn) := ghost_floor f rc (G (oid, incarn))))"
proof -
  obtain r b where b: "clack_get mem a oid incarn = (r, b)" by fastforce
  note g = get_spec [OF assms(1) b]
  show ?thesis
  proof (cases r)
    case None
    then show ?thesis using assms(2) b g(1) by (simp add: clack_floor_def ghost_floor_def)
  next
    case (Some i)
    obtain c sp where sp: "space_floor (ck_doa b) (ck_synced b) f (ck_s b ! i) = (c, sp)" by fastforce
    note s = floor_spec [OF g(5) [OF Some] sp]
    have k: "space_key sp = (oid, incarn)" using s(5) g(4) [OF Some] by simp
    have "clack_inv (put_space i sp b) (G((oid, incarn) := ghost_floor f c (G (oid, incarn))))"
      by (rule put_space_inv [OF g(1) _ k _ s(1)]) (use g(4) [OF Some] in simp_all)
    then show ?thesis using assms(2) b Some sp k by (simp add: clack_floor_def)
  qed
qed

lemma restore_inv:
  assumes "clack_inv a G" "clack_restore mem a oid incarn m = (rc, a')"
  shows "clack_inv a' (if rc = CLACK_NEW then G((oid, incarn) := ghost_restore m) else G)"
proof -
  obtain r b where b: "clack_get mem a oid incarn = (r, b)" by fastforce
  note g = get_spec [OF assms(1) b]
  show ?thesis
  proof (cases r)
    case None
    then show ?thesis using assms(2) b g(1) by (auto simp: clack_restore_def)
  next
    case (Some i)
    let ?sp = "space_restore m (ck_s b ! i)"
    have k: "space_key ?sp = (oid, incarn)" using g(4) [OF Some] by (simp add: space_restore_def)
    have "clack_inv (put_space i ?sp b) (G((oid, incarn) := ghost_restore m))"
      by (rule put_space_inv [OF g(1) _ k _ restore_spec]) (use g(4) [OF Some] in simp_all)
    then show ?thesis using assms(2) b Some k by (auto simp: clack_restore_def)
  qed
qed

lemma synced_inv:
  assumes "clack_inv a G"
  shows "clack_inv (clack_synced a W) G"
proof (cases "W \<le> ck_synced a")
  case False
  then have lt: "ck_synced a < W" by simp
  have kk: "k_oid (space_synced W sp) = k_oid sp" "k_incarn (space_synced W sp) = k_incarn sp" for sp
    by (simp_all add: space_synced_def Let_def)
  have "space_inv (ck_doa a) W (space_synced W sp) (G (space_key sp))" if "sp \<in> set (ck_s a)" for sp
    using synced_spec(1) [OF _ lt] assms that by (simp add: clack_inv_def)
  then show ?thesis
    using assms False by (simp add: clack_synced_def clack_inv_def kk comp_def image_image)
qed (simp add: clack_synced_def assms)

lemma drop_keys:
  assumes "distinct (map f xs)" "i < length xs"
  shows "set (butlast (xs[i := last xs])) = set xs - {xs ! i}" "distinct (map f (butlast (xs[i := last xs])))"
proof -
  have ne: "xs \<noteq> []" using assms(2) by auto
  then obtain ys z where xs: "xs = ys @ [z]" by (metis append_butlast_last_id)
  have "set (butlast (xs[i := last xs])) = set xs - {xs ! i} \<and> distinct (map f (butlast (xs[i := last xs])))"
  proof (cases "i < length ys")
    case True
    have d: "distinct (map f ys)" "f z \<notin> f ` set ys" "distinct ys" "z \<notin> set ys"
      using assms(1) by (auto simp: xs distinct_map)
    have b: "butlast (xs[i := last xs]) = ys[i := z]" using True by (simp add: xs list_update_append1)
    have "set (ys[i := z]) = insert z (set ys - {ys ! i})" using d(3) True by (rule set_update_distinct)
    moreover have "distinct ((map f ys)[i := f z])" using d by (intro distinct_list_update) auto
    moreover have "xs ! i = ys ! i" "set xs = insert z (set ys)" "ys ! i \<in> set ys" using True by (simp_all add: xs nth_append)
    moreover have "ys ! i \<noteq> z" using d(4) \<open>ys ! i \<in> set ys\<close> by auto
    ultimately show ?thesis unfolding b by (simp add: map_update insert_Diff_if)
  next
    case False
    then have "i = length ys" using assms(2) xs by simp
    then show ?thesis using assms(1) by (auto simp: xs distinct_map)
  qed
  then show "set (butlast (xs[i := last xs])) = set xs - {xs ! i}" "distinct (map f (butlast (xs[i := last xs])))" by auto
qed

lemma drop_inv:
  assumes "clack_inv a G"
  shows "clack_inv (clack_drop a oid incarn) (G((oid, incarn) := ghost_restore 0))"
proof (cases "clack_find a oid incarn")
  case None
  then have "(oid, incarn) \<notin> space_key ` set (ck_s a)" by (rule find_None)
  then have "G (oid, incarn) = ghost_restore 0" using assms by (simp add: clack_inv_def)
  then have "G((oid, incarn) := ghost_restore 0) = G" by (auto simp: fun_eq_iff)
  then show ?thesis using assms None by (simp add: clack_drop_def)
next
  case (Some i)
  note f = find_Some [OF Some]
  have d: "distinct (map space_key (ck_s a))" using assms by (simp add: clack_inv_def)
  let ?s = "butlast ((ck_s a)[i := last (ck_s a)])"
  note k = drop_keys [OF d conjunct1 [OF f]]
  have key: "space_key q \<noteq> (oid, incarn)" if "q \<in> set ?s" for q
  proof
    assume e: "space_key q = (oid, incarn)"
    have "q \<in> set (ck_s a)" "q \<noteq> ck_s a ! i" using that k(1) by auto
    moreover have "inj_on space_key (set (ck_s a))" using d by (simp add: distinct_map)
    ultimately show False using f e by (auto simp: inj_on_def)
  qed
  show ?thesis
    unfolding clack_inv_def
  proof (intro conjI ballI allI impI)
    have drop: "clack_drop a oid incarn = a\<lparr>ck_s := ?s\<rparr>" by (simp add: clack_drop_def Some)
    show "distinct (map space_key (ck_s (clack_drop a oid incarn)))" using k(2) by (simp add: drop)
    show "length (ck_s (clack_drop a oid incarn)) \<le> CLACK_SPACES" using assms by (auto simp: drop clack_inv_def)
    show "space_inv (ck_doa (clack_drop a oid incarn)) (ck_synced (clack_drop a oid incarn)) sp
        ((G((oid, incarn) := ghost_restore 0)) (space_key sp))" if "sp \<in> set (ck_s (clack_drop a oid incarn))" for sp
    proof -
      have sp: "sp \<in> set ?s" using that by (simp add: drop)
      then have "(G((oid, incarn) := ghost_restore 0)) (space_key sp) = G (space_key sp)" using key [OF sp] by (simp only: fun_upd_apply if_False)
      then show ?thesis using sp k(1) assms by (simp add: drop clack_inv_def)
    qed
    fix x assume x: "x \<notin> space_key ` set (ck_s (clack_drop a oid incarn))"
    show "(G((oid, incarn) := ghost_restore 0)) x = ghost_restore 0"
    proof (cases "x = (oid, incarn)")
      case False
      then have "x \<notin> space_key ` set (ck_s a)" using x f k(1) by (auto simp: drop)
      then show ?thesis using assms False by (cases x) (simp add: clack_inv_def)
    qed simp
  qed
qed

lemma reach_inv: "clack_reach a G \<Longrightarrow> clack_inv a G"
proof (induction rule: clack_reach.induct)
  case (new doa)
  then show ?case by (simp add: clack_inv_def clack_new_def)
next
  case (applied a G mem oid incarn seq w rc a')
  then show ?case using applied_inv by blast
next
  case (floor a G mem oid incarn f rc a')
  then show ?case using floor_inv by blast
next
  case (restore a G mem oid incarn m rc a')
  then show ?case using restore_inv by blast
next
  case (forget a G oid incarn)
  then show ?case using drop_inv by blast
qed (rule synced_inv)

lemma sample_space_steps:
  "space_applied False 0 1 5 (zero_space 7 1) =
     (CLACK_NEW, (zero_space 7 1)\<lparr>k_mark := 1, k_hi := 1, k_wmax := 5, k_pend := [(1, 5)]\<rparr>)"
  "space_applied False 0 3 6 ((zero_space 7 1)\<lparr>k_mark := 1, k_hi := 1, k_wmax := 5, k_pend := [(1, 5)]\<rparr>) =
     (CLACK_NEW, (zero_space 7 1)\<lparr>k_mark := 1, k_hi := 3, k_wmax := 5, k_pend := [(1, 5)],
         k_nahead := 1, k_wahead := 6, k_ahead := (replicate 64 0)[0 := 8]\<rparr>)"
proof -
  define r where "r = replicate 64 (0 :: u64)"
  have r0: "r ! 0 = 0" "replicate (CLACK_WIN div 64) 0 = r" by (simp_all add: r_def CLACK_WIN_def)
  note z = zero_space_def [unfolded r0(2)]
  have bit: "\<not> clack_bit sp (Suc 0)" "\<not> clack_bit sp 3" if "k_ahead sp = r" for sp
    using that by (simp_all add: clack_bit_def CLACK_WIN_def r0)
  have "clack_connect sp = (False, sp)" if "k_nahead sp = 0" for sp
    using that by (subst clack_connect.simps) simp
  then show "space_applied False 0 1 5 (zero_space 7 1) =
     (CLACK_NEW, (zero_space 7 1)\<lparr>k_mark := 1, k_hi := 1, k_wmax := 5, k_pend := [(1, 5)]\<rparr>)"
    by (simp add: space_applied_def z bit CLACK_WIN_def CLACK_PEND_def clack_confirm_def Let_def)
  show "space_applied False 0 3 6 ((zero_space 7 1)\<lparr>k_mark := 1, k_hi := 1, k_wmax := 5, k_pend := [(1, 5)]\<rparr>) =
     (CLACK_NEW, (zero_space 7 1)\<lparr>k_mark := 1, k_hi := 3, k_wmax := 5, k_pend := [(1, 5)],
         k_nahead := 1, k_wahead := 6, k_ahead := (replicate 64 0)[0 := 8]\<rparr>)"
    unfolding r_def [symmetric]
    by (simp add: space_applied_def z r0(1) bit clack_bit_set_def Let_def CLACK_WIN_def)
qed

lemma sample_steps:
  "clack_applied True (clack_new False) 7 1 1 5 =
      (CLACK_NEW, (clack_new False)\<lparr>ck_applied := 1, ck_s := [(zero_space 7 1)\<lparr>k_mark := 1, k_hi := 1, k_wmax := 5, k_pend := [(1, 5)]\<rparr>]\<rparr>)"
    "clack_applied True (snd (clack_applied True (clack_new False) 7 1 1 5)) 7 1 3 6 =
      (CLACK_NEW, (clack_new False)\<lparr>ck_applied := 2, ck_s := [(zero_space 7 1)\<lparr>k_mark := 1, k_hi := 3, k_wmax := 5, k_pend := [(1, 5)],
         k_nahead := 1, k_wahead := 6, k_ahead := (replicate 64 0)[0 := 8]\<rparr>]\<rparr>)"
proof -
  have k: "k_oid (zero_space 7 1) = 7" "k_incarn (zero_space 7 1) = 1" by (simp_all add: zero_space_def)
  show 1: "clack_applied True (clack_new False) 7 1 1 5 =
      (CLACK_NEW, (clack_new False)\<lparr>ck_applied := 1, ck_s := [(zero_space 7 1)\<lparr>k_mark := 1, k_hi := 1, k_wmax := 5, k_pend := [(1, 5)]\<rparr>]\<rparr>)"
    using sample_space_steps(1)
    by (simp add: clack_applied_def clack_get_def clack_find_def clack_new_def put_space_def CLACK_SPACES_def)
  show "clack_applied True (snd (clack_applied True (clack_new False) 7 1 1 5)) 7 1 3 6 =
      (CLACK_NEW, (clack_new False)\<lparr>ck_applied := 2, ck_s := [(zero_space 7 1)\<lparr>k_mark := 1, k_hi := 3, k_wmax := 5, k_pend := [(1, 5)],
         k_nahead := 1, k_wahead := 6, k_ahead := (replicate 64 0)[0 := 8]\<rparr>]\<rparr>)"
    unfolding 1 using sample_space_steps(2)
    by (simp add: clack_applied_def clack_get_def clack_find_def clack_new_def put_space_def k)
qed

lemma sample_space:
  "ck_s sample_clack = [(zero_space 7 1)\<lparr>k_mark := 1, k_hi := 3, k_wmax := 5, k_pend := [(1, 5)],
         k_nahead := 1, k_wahead := 6, k_ahead := (replicate 64 0)[0 := 8]\<rparr>]"
  unfolding sample_clack_def sample_steps(2) by simp

lemma sample_find: "clack_find sample_clack 7 1 = Some 0"
  by (simp add: clack_find_def sample_space zero_space_def)

lemma sample_reach: "clack_reach sample_clack sample_ghost"
proof -
  note s = clack_reach.applied [OF clack_reach.applied [OF clack_reach.new sample_steps(1)] sample_steps(2) [unfolded sample_steps(1) snd_conv]]
  have "clack_reach sample_clack (((\<lambda>_. ghost_restore 0)((7, 1) := ghost_applied 1 5 CLACK_NEW (ghost_restore 0)))
     ((7, 1) := ghost_applied 3 6 CLACK_NEW (((\<lambda>_. ghost_restore 0)((7 :: u64, 1 :: u32) := ghost_applied 1 5 CLACK_NEW (ghost_restore 0))) (7, 1))))"
    unfolding sample_clack_def sample_steps(2) snd_conv by (rule s)
  then show ?thesis by (simp add: sample_ghost_def)
qed

lemma sample_mark: "clack_mark (clack_synced sample_clack 9) 7 1 = Some 1"
proof -
  have "ck_synced sample_clack = 0" unfolding sample_clack_def sample_steps(2) by (simp add: clack_new_def)
  then show ?thesis
    by (simp add: clack_mark_def clack_synced_def clack_find_def sample_space space_synced_def Let_def zero_space_def)
qed

section \<open>Properties\<close>

text \<open>C3: Nothing is confirmed too early.  Whatever a member applied, synced, restored, was told
  of as a floor or dropped, in any order: the mark it reports for a space covers only numbers
  that the fleet vouched for (at or below the floor) or that it applied itself with a record
  the WAL has synced (or any record, when the table confirms on apply).  No hole is ever
  below the mark.\<close>

theorem clack_confirms_only_durable:
  assumes "clack_reach a G" "clack_mark a oid incarn = Some m" "g_floor (G (oid, incarn)) < q" "q \<le> m"
  shows "\<exists>w. g_held (G (oid, incarn)) q = Some w \<and> (ck_doa a \<or> w \<le> ck_synced a)"
proof -
  obtain i where i: "clack_find a oid incarn = Some i" "m = k_dmark (ck_s a ! i)"
    using assms(2) by (auto simp: clack_mark_def)
  note s = found_inv [OF reach_inv [OF assms(1)] i(1)]
  have "m \<le> k_mark (ck_s a ! i)" "\<not> ck_doa a \<longrightarrow> within (G (oid, incarn)) m (ck_synced a)"
    using s by (auto simp: space_inv_def pend_inv_def i(2))
  moreover have "g_held (G (oid, incarn)) q \<noteq> None"
    using held_facts(2) [OF inv_fields(1) [OF s], of q] assms(3,4) \<open>m \<le> k_mark (ck_s a ! i)\<close> by simp
  ultimately show ?thesis using assms(3,4) by (auto simp: within_def)
qed

theorem clack_confirms_only_durable_witness:
  "\<exists>a G. clack_reach a G \<and> clack_mark a 7 1 = Some 1 \<and> (\<exists>w. g_held (G (7, 1)) 1 = Some w \<and> (ck_doa a \<or> w \<le> ck_synced a))"
proof -
  note r = sample_reach
  have "\<exists>w. g_held (sample_ghost (7, 1)) 1 = Some w \<and> (ck_doa (clack_synced sample_clack 9) \<or> w \<le> ck_synced (clack_synced sample_clack 9))"
    by (rule clack_confirms_only_durable [OF clack_reach.synced [OF r] sample_mark]) (simp_all add: sample_ghost_def ghost_restore_def ghost_applied_def)
  then show ?thesis using clack_reach.synced [OF r] sample_mark by blast
qed

text \<open>C14: The mark catches up.  Once the WAL is synced through every record a space applied, the
  member reports the highest number up to which nothing is missing: everything above the
  floor up to it is applied and the next number is not.\<close>

theorem clack_mark_catches_up:
  assumes "clack_reach a G" "clack_find a oid incarn = Some i" "\<And>q w. g_held (G (oid, incarn)) q = Some w \<Longrightarrow> w \<le> W"
  shows "\<exists>m. clack_mark (clack_synced a W) oid incarn = Some m \<and> g_floor (G (oid, incarn)) \<le> m \<and>
    (\<forall>q. g_floor (G (oid, incarn)) < q \<and> q \<le> m \<longrightarrow> g_held (G (oid, incarn)) q \<noteq> None) \<and>
    g_held (G (oid, incarn)) (m + 1) = None"
proof -
  let ?b = "clack_synced a W" and ?g = "G (oid, incarn)"
  have key: "map space_key (ck_s ?b) = map space_key (ck_s a)"
    by (auto simp: clack_synced_def space_synced_def Let_def)
  have "clack_find_from n (map (space_synced W) xs) oid incarn = clack_find_from n xs oid incarn" for n xs
    by (induction xs arbitrary: n) (auto simp: space_synced_def Let_def)
  then have fb: "clack_find ?b oid incarn = Some i" using assms(2) by (auto simp: clack_find_def clack_synced_def)
  note s = found_inv [OF reach_inv [OF clack_reach.synced [OF assms(1)]] fb]
  note h = held_facts [OF inv_fields(1) [OF s]]
  let ?sp = "ck_s ?b ! i"
  have "k_wmax ?sp \<le> W" using h(6) assms(3) by (auto simp: ran_def)
  moreover have "W \<le> ck_synced ?b" by (simp add: clack_synced_def)
  moreover have "\<And>p. p \<in> set (k_pend ?sp) \<Longrightarrow> ck_synced ?b < snd p \<and> snd p \<le> k_wmax ?sp"
    using inv_fields(2) [OF s] by (auto simp: pend_inv_def)
  ultimately have "k_pend ?sp = []" by (metis last_in_set leD order_less_le_trans order_trans)
  then have dm: "k_dmark ?sp = k_mark ?sp" using s by (simp add: space_inv_def tight_def)
  have "g_held ?g (k_mark ?sp + 1) = None" using inv_fields(3) [OF s] h(1) [of "k_mark ?sp + 1"] by simp
  then show ?thesis using fb dm h(2,8) by (auto simp: clack_mark_def)
qed

theorem clack_mark_catches_up_witness:
  "\<exists>m. clack_mark (clack_synced sample_clack 9) 7 1 = Some m \<and> g_held (sample_ghost (7, 1)) (m + 1) = None"
proof -
  have "\<And>q w. g_held (sample_ghost (7, 1)) q = Some w \<Longrightarrow> w \<le> 9"
    by (auto simp: sample_ghost_def ghost_restore_def ghost_applied_def split: if_splits)
  then show ?thesis using clack_mark_catches_up [OF sample_reach sample_find, of 9] by blast
qed

text \<open>C15: A gap request names the first hole exactly: it starts right above the mark, none of the
  numbers it asks for has been applied, and the number after it has been, or it ends at the
  highest number seen.  (The window must not pass the end of the 64-bit range.)\<close>

theorem clack_gap_is_first_hole:
  assumes "clack_reach a G" "clack_gap a oid incarn = Some (from, last_q)" "clack_find a oid incarn = Some i"
    "k_mark (ck_s a ! i) + CLACK_WIN < 2 ^ 64"
  shows "from = k_mark (ck_s a ! i) + 1 \<and> from \<le> last_q \<and> (\<forall>q. from \<le> q \<and> q \<le> last_q \<longrightarrow> g_held (G (oid, incarn)) q = None) \<and>
    (g_held (G (oid, incarn)) (last_q + 1) \<noteq> None \<or> last_q = k_hi (ck_s a ! i))"
proof -
  let ?sp = "ck_s a ! i" and ?g = "G (oid, incarn)"
  note s = found_inv [OF reach_inv [OF assms(1)] assms(3)]
  note h = held_facts [OF inv_fields(1) [OF s]]
  note n = inv_fields(3,5) [OF s]
  have gap: "space_gap ?sp = Some (from, last_q)" using assms(2,3) by (simp add: clack_gap_def)
  then have hi: "k_mark ?sp < k_hi ?sp" and fr: "from = k_mark ?sp + 1" by (auto simp: space_gap_def split: if_splits)
  define R where "R = [k_mark ?sp + 2 ..< k_mark ?sp + CLACK_WIN + 1]"
  have r: "[(k_mark ?sp + 2) mod 2 ^ 64 ..< (k_mark ?sp + CLACK_WIN) mod 2 ^ 64 + 1] = R"
    using assms(4) by (simp add: R_def CLACK_WIN_def)
  have R: "set R = {k_mark ?sp + 2 .. k_mark ?sp + CLACK_WIN}" "\<And>j. j < length R \<Longrightarrow> R ! j = k_mark ?sp + 2 + j"
    by (auto simp: R_def simp del: upt_Suc)
  have up: "last_q = (if k_nahead ?sp \<noteq> 0 then (case find (clack_bit ?sp) R of Some s \<Rightarrow> s - 1 | None \<Rightarrow> k_hi ?sp) else k_hi ?sp)"
    using gap hi unfolding space_gap_def r by simp
  have held: "g_held ?g q \<noteq> None \<longleftrightarrow> q \<in> set R \<and> clack_bit ?sp q" if "k_mark ?sp < q" for q
  proof (cases "q = k_mark ?sp + 1")
    case True
    then show ?thesis using h(1) [of q] n(1) by (simp add: R)
  next
    case False
    then show ?thesis using h(1) [of q] that by (auto simp: ahead_set_def R)
  qed
  show ?thesis
  proof (cases "find (clack_bit ?sp) R")
    case None
    then have none: "\<And>q. q \<in> set R \<Longrightarrow> \<not> clack_bit ?sp q" unfolding find_None_iff by blast
    have "last_q = k_hi ?sp" unfolding up None by simp
    moreover have "g_held ?g q = None" if "from \<le> q" for q using held [of q] none [of q] that fr by (cases "g_held ?g q") auto
    ultimately show ?thesis using hi fr by simp
  next
    case (Some t)
    then obtain j where j: "j < length R" "clack_bit ?sp (R ! j)" "t = R ! j" "\<forall>k < j. \<not> clack_bit ?sp (R ! k)"
      unfolding find_Some_iff by blast
    then have t: "t = k_mark ?sp + 2 + j" by (simp add: R)
    have tin: "t \<in> set R" using j by simp
    have ht: "g_held ?g t \<noteq> None" using held [of t] tin j(2,3) t by simp
    then have "t \<in> ahead_set ?sp" using h(1) [of t] t by simp
    then have "k_nahead ?sp \<noteq> 0" using n(2) by (metis card_0_eq empty_iff finite_ahead)
    then have up: "last_q = t - 1" unfolding up Some by simp
    have "g_held ?g q = None" if "from \<le> q" "q \<le> last_q" for q
    proof (rule ccontr)
      assume "g_held ?g q \<noteq> None"
      then have q: "q \<in> set R" "clack_bit ?sp q" using held [of q] that(1) fr by auto
      let ?k = "q - (k_mark ?sp + 2)"
      have k: "?k < j" "q = k_mark ?sp + 2 + ?k" using that(2) up t q(1) R(1) by auto
      then have "R ! ?k = q" using R(2) [of ?k] j(1) by simp
      then show False using j(4) q(2) k(1) by auto
    qed
    then show ?thesis using fr up t ht by simp
  qed
qed

theorem clack_gap_is_first_hole_witness:
  "clack_gap sample_clack 7 1 = Some (2, 2) \<and> g_held (sample_ghost (7, 1)) 2 = None"
proof -
  let ?sp = "ck_s sample_clack ! 0"
  have m: "k_mark ?sp = 1" "k_hi ?sp = 3" "k_nahead ?sp = 1" "clack_bit ?sp 3"
    by (simp_all add: sample_space clack_bit_def CLACK_WIN_def)
  have a: "(k_mark ?sp + 2) mod 2 ^ 64 = 3" "3 < (k_mark ?sp + CLACK_WIN) mod 2 ^ 64 + 1"
    by (simp_all add: m CLACK_WIN_def)
  have xs: "[(k_mark ?sp + 2) mod 2 ^ 64 ..< (k_mark ?sp + CLACK_WIN) mod 2 ^ 64 + 1] =
      3 # [Suc 3 ..< (k_mark ?sp + CLACK_WIN) mod 2 ^ 64 + 1]"
    unfolding a(1) by (rule upt_conv_Cons [OF a(2)])
  have f: "find (clack_bit ?sp) [(k_mark ?sp + 2) mod 2 ^ 64 ..< (k_mark ?sp + CLACK_WIN) mod 2 ^ 64 + 1] = Some 3"
    unfolding xs by (simp only: find.simps m(4) if_True)
  have "space_gap ?sp = Some (2, 2)" unfolding space_gap_def f by (simp add: m)
  then have g: "clack_gap sample_clack 7 1 = Some (2, 2)" "k_mark ?sp + CLACK_WIN < 2 ^ 64"
    using m(1) by (simp_all add: clack_gap_def sample_find CLACK_WIN_def)
  from clack_gap_is_first_hole [OF sample_reach g(1) sample_find g(2)] show ?thesis using g(1) by simp
qed

end
