(* ===== verification/Tables.thy ===== *)
theory Tables
  imports Prelude "HOL-Library.Multiset"
begin

text \<open>
  Small tables kept as arrays: the linear search, and what replacing, appending and
  swap-removing an entry do to the map from keys to entries the array stands for.
\<close>

text \<open>A linear search; the index stands for the pointer the C code returns.\<close>

fun find_index :: "('a \<Rightarrow> bool) \<Rightarrow> nat \<Rightarrow> 'a list \<Rightarrow> nat option" where
  "find_index P i [] = None"
| "find_index P i (x # xs) = (if P x then Some i else find_index P (i + 1) xs)"

definition swap_out :: "nat \<Rightarrow> 'a list \<Rightarrow> 'a list" where
  "swap_out i xs = butlast (xs[i := last xs])"

definition table_map :: "('a \<Rightarrow> 'k) \<Rightarrow> ('a \<Rightarrow> 'v) \<Rightarrow> 'a list \<Rightarrow> 'k \<Rightarrow> 'v option" where
  "table_map k v xs = map_of (map (\<lambda>x. (k x, v x)) xs)"

lemma find_index_None: "find_index P i xs = None \<longleftrightarrow> (\<forall>x \<in> set xs. \<not> P x)"
  by (induction xs arbitrary: i) auto

lemma find_index_from: "find_index P i xs = Some j \<Longrightarrow> i \<le> j \<and> j - i < length xs \<and> P (xs ! (j - i)) \<and> (\<forall>m < j - i. \<not> P (xs ! m))"
proof (induction xs arbitrary: i)
  case (Cons x xs)
  show ?case
  proof (cases "P x")
    case False
    then have *: "i + 1 \<le> j" "j - (i + 1) < length xs" "P (xs ! (j - (i + 1)))" "\<forall>m < j - (i + 1). \<not> P (xs ! m)"
      using Cons.IH [of "i + 1"] Cons.prems by auto
    then have "j - i = Suc (j - (i + 1))" by simp
    then show ?thesis using * False by (auto simp: less_Suc_eq_0_disj)
  qed (use Cons.prems in auto)
qed simp

lemma find_index_Some: "find_index P 0 xs = Some j \<Longrightarrow> j < length xs \<and> P (xs ! j) \<and> (\<forall>m < j. \<not> P (xs ! m))"
  using find_index_from [of P 0 xs j] by simp

lemma table_map_simps [simp]:
  "table_map k v [] = Map.empty" "table_map k v (x # xs) = (table_map k v xs)(k x \<mapsto> v x)"
  by (simp_all add: table_map_def)

lemma table_map_None: "table_map k v xs a = None \<longleftrightarrow> a \<notin> k ` set xs"
  by (auto simp: table_map_def map_of_eq_None_iff image_image)

lemma table_map_Some: "distinct (map k xs) \<Longrightarrow> table_map k v xs a = Some b \<longleftrightarrow> (\<exists>x \<in> set xs. k x = a \<and> v x = b)"
  by (induction xs) (auto simp: image_iff)

lemma table_map_nth: "distinct (map k xs) \<Longrightarrow> i < length xs \<Longrightarrow> table_map k v xs (k (xs ! i)) = Some (v (xs ! i))"
  by (auto simp: table_map_Some)

lemma table_map_find:
  assumes "distinct (map k xs)"
  shows "table_map k v xs a = map_option (\<lambda>i. v (xs ! i)) (find_index (\<lambda>x. k x = a) 0 xs)"
proof (cases "find_index (\<lambda>x. k x = a) 0 xs")
  case None
  then have "a \<notin> k ` set xs" by (auto simp: find_index_None)
  then show ?thesis using None by (simp add: table_map_None)
next
  case (Some i)
  then show ?thesis using find_index_Some [OF Some] table_map_nth [OF assms, of i] by auto
qed

lemma table_map_snoc: "k y \<notin> k ` set xs \<Longrightarrow> table_map k v (xs @ [y]) = (table_map k v xs)(k y \<mapsto> v y)"
  by (induction xs) (auto simp: fun_upd_twist)

lemma map_update_key: "i < length xs \<Longrightarrow> k y = k (xs ! i) \<Longrightarrow> map k (xs[i := y]) = map k xs"
  by (simp add: map_update list_update_same_conv)

lemma table_map_update:
  assumes "distinct (map k xs)" "i < length xs" "k y = k (xs ! i)"
  shows "table_map k v (xs[i := y]) = (table_map k v xs)(k y \<mapsto> v y)"
  using assms
proof (induction xs arbitrary: i)
  case (Cons x xs)
  show ?case
  proof (cases i)
    case (Suc j)
    have "k (xs ! j) \<in> k ` set xs" using Cons.prems Suc by simp
    moreover have "k y = k (xs ! j)" "k x \<notin> k ` set xs" using Cons.prems Suc by simp_all
    ultimately have "k y \<noteq> k x" by metis
    then show ?thesis using Cons Suc by (simp add: fun_eq_iff)
  qed (use Cons.prems in \<open>simp add: fun_eq_iff\<close>)
qed simp

lemma mset_swap_out:
  assumes "i < length xs"
  shows "mset (swap_out i xs) = mset xs - {# xs ! i #}"
proof -
  let ?ys = "xs[i := last xs]"
  have ne: "?ys \<noteq> []" using assms by auto
  have "last ?ys = last xs" using assms by (subst last_list_update) auto
  moreover have "mset ?ys = mset (butlast ?ys @ [last ?ys])" by (subst append_butlast_last_id [OF ne]) (rule refl)
  ultimately have "mset ?ys = add_mset (last xs) (mset (butlast ?ys))" by simp
  moreover have "mset ?ys = add_mset (last xs) (mset xs - {# xs ! i #})" using assms by (rule mset_update)
  ultimately show ?thesis by (simp add: swap_out_def)
qed

lemma swap_out_set:
  assumes "distinct (map k xs)" "i < length xs"
  shows "set (swap_out i xs) = set xs - {xs ! i}" "distinct (map k (swap_out i xs))"
    "length (swap_out i xs) = length xs - 1"
proof -
  have d: "distinct xs" using assms(1) by (simp add: distinct_map)
  have m: "mset (swap_out i xs) = mset (remove1 (xs ! i) xs)" using mset_swap_out [OF assms(2)] by simp
  show s: "set (swap_out i xs) = set xs - {xs ! i}"
    using mset_eq_setD [OF m] set_remove1_eq [OF d] by simp
  have "distinct (swap_out i xs)" using mset_eq_imp_distinct_iff [OF m] d by simp
  then show "distinct (map k (swap_out i xs))"
    using assms(1) s by (auto simp: distinct_map inj_on_def)
  show "length (swap_out i xs) = length xs - 1" by (simp add: swap_out_def)
qed

lemma table_map_swap_out:
  assumes "distinct (map k xs)" "i < length xs"
  shows "table_map k v (swap_out i xs) = (table_map k v xs)(k (xs ! i) := None)"
proof
  fix a
  note s = swap_out_set [OF assms]
  show "table_map k v (swap_out i xs) a = ((table_map k v xs)(k (xs ! i) := None)) a"
  proof (cases "a = k (xs ! i)")
    case True
    have "k (xs ! i) \<notin> k ` (set xs - {xs ! i})" using assms by (auto simp: distinct_map inj_on_def)
    then show ?thesis using True by (simp add: table_map_None s(1))
  next
    case False
    then have "table_map k v (swap_out i xs) a = Some b \<longleftrightarrow> table_map k v xs a = Some b" for b
      by (auto simp: table_map_Some [OF s(2)] table_map_Some [OF assms(1)] s(1))
    then have "table_map k v (swap_out i xs) a = table_map k v xs a" by (metis not_None_eq)
    then show ?thesis using False by simp
  qed
qed

end
