(* ===== verification/Clackf.thy ===== *)
theory Clackf
  imports Tables
begin

text \<open>
  The members' announced marks (\<open>src/src/clackf.c\<close>): for every member of the fleet and
  every numbering space, the mark it last reported.  A delete record is dropped once
  \<open>clackf_min\<close> covers it, so what this table says decides what is forgotten.  The
  entries are lists in array order; marks are naturals, times are integers in milliseconds;
  whether \<open>realloc\<close> succeeds is a parameter.
\<close>

section \<open>The table\<close>

definition CLACKF_MEMBERS :: nat where "CLACKF_MEMBERS = 513"
definition CLACKF_SPACES :: nat where "CLACKF_SPACES = 1026"

record fmark =
  fm_oid :: u64
  fm_sincarn :: u32
  fm_mark :: nat
  fm_moved :: int

record fmember =
  fb_member :: u64
  fb_incarn :: u32
  fb_cap :: nat
  fb_m :: "fmark list"
  fb_heard :: int

record clackf =
  cf_mb :: "fmember list"
  cf_reports :: nat
  cf_lowered :: nat
  cf_resets :: nat
  cf_refused :: nat

definition mfind :: "clackf \<Rightarrow> u64 \<Rightarrow> nat option" where
  "mfind f member = find_index (\<lambda>m. fb_member m = member) 0 (cf_mb f)"

definition sfind :: "fmember \<Rightarrow> u64 \<Rightarrow> u32 \<Rightarrow> nat option" where
  "sfind m oid sincarn = find_index (\<lambda>s. fm_oid s = oid \<and> fm_sincarn s = sincarn) 0 (fb_m m)"

definition clackf_new :: clackf where
  "clackf_new = \<lparr>cf_mb = [], cf_reports = 0, cf_lowered = 0, cf_resets = 0, cf_refused = 0\<rparr>"

definition put_member :: "nat \<Rightarrow> fmember \<Rightarrow> clackf \<Rightarrow> clackf" where
  "put_member i m f = f\<lparr>cf_mb := (cf_mb f)[i := m]\<rparr>"

definition clackf_member :: "clackf \<Rightarrow> u64 \<Rightarrow> u32 \<Rightarrow> int \<times> clackf" where
  "clackf_member f member incarn =
    (case mfind f member of
       None \<Rightarrow>
         if length (cf_mb f) = CLACKF_MEMBERS then (- 1, f\<lparr>cf_refused := cf_refused f + 1\<rparr>)
         else (0, f\<lparr>cf_mb := cf_mb f @
           [\<lparr>fb_member = member, fb_incarn = incarn, fb_cap = 0, fb_m = [], fb_heard = 0\<rparr>]\<rparr>)
     | Some i \<Rightarrow>
         let m = cf_mb f ! i in
         if fb_incarn m = incarn then (0, f)
         else (1, (put_member i (m\<lparr>fb_incarn := incarn, fb_m := []\<rparr>) f)\<lparr>cf_resets := cf_resets f + 1\<rparr>))"

definition clackf_heard :: "clackf \<Rightarrow> u64 \<Rightarrow> int \<Rightarrow> int \<times> clackf" where
  "clackf_heard f member now =
    (case mfind f member of
       None \<Rightarrow> (0, f)
     | Some i \<Rightarrow> (fb_heard (cf_mb f ! i), put_member i ((cf_mb f ! i)\<lparr>fb_heard := now\<rparr>) f))"

definition clackf_report :: "bool \<Rightarrow> clackf \<Rightarrow> u64 \<Rightarrow> u64 \<Rightarrow> u32 \<Rightarrow> nat \<Rightarrow> int \<Rightarrow> int \<times> clackf" where
  "clackf_report mem f member oid sincarn mark now =
    (case mfind f member of
       None \<Rightarrow> (- 1, f)
     | Some i \<Rightarrow>
         let m = cf_mb f ! i; f = f\<lparr>cf_reports := cf_reports f + 1\<rparr> in
         case sfind m oid sincarn of
           Some k \<Rightarrow>
             let s = fb_m m ! k; down = mark < fm_mark s;
                 s = (if mark \<noteq> fm_mark s then s\<lparr>fm_moved := now\<rparr> else s);
                 s = s\<lparr>fm_mark := mark\<rparr>
             in (of_bool down,
                 (put_member i (m\<lparr>fb_m := (fb_m m)[k := s]\<rparr>) f)\<lparr>cf_lowered := cf_lowered f + of_bool down\<rparr>)
         | None \<Rightarrow>
             let n = length (fb_m m);
                 cap = (if fb_cap m \<noteq> 0 then fb_cap m * 2 else 4);
                 cap = (if cap > CLACKF_SPACES then CLACKF_SPACES else cap);
                 new = \<lparr>fm_oid = oid, fm_sincarn = sincarn, fm_mark = mark, fm_moved = now\<rparr> in
             if n = fb_cap m then
               (if n = cap \<or> \<not> mem then (- 1, f\<lparr>cf_refused := cf_refused f + 1\<rparr>)
                else (0, put_member i (m\<lparr>fb_cap := cap, fb_m := fb_m m @ [new]\<rparr>) f))
             else (0, put_member i (m\<lparr>fb_m := fb_m m @ [new]\<rparr>) f))"

definition clackf_clear :: "clackf \<Rightarrow> u64 \<Rightarrow> clackf" where
  "clackf_clear f member =
    (case mfind f member of None \<Rightarrow> f | Some i \<Rightarrow> put_member i ((cf_mb f ! i)\<lparr>fb_m := []\<rparr>) f)"

definition clackf_forget :: "clackf \<Rightarrow> u64 \<Rightarrow> clackf" where
  "clackf_forget f member =
    (case mfind f member of
       None \<Rightarrow> f
     | Some i \<Rightarrow> f\<lparr>cf_mb := swap_out i (cf_mb f)\<rparr>)"

section \<open>Reading it\<close>

text \<open>The entry of a space a member has reported, if any.\<close>

definition cf_entry :: "clackf \<Rightarrow> u64 \<Rightarrow> u64 \<Rightarrow> u32 \<Rightarrow> fmark option" where
  "cf_entry f member oid sincarn =
    (case mfind f member of
       None \<Rightarrow> None
     | Some i \<Rightarrow> map_option (\<lambda>k. fb_m (cf_mb f ! i) ! k) (sfind (cf_mb f ! i) oid sincarn))"

definition clackf_mark :: "clackf \<Rightarrow> u64 \<Rightarrow> u64 \<Rightarrow> u32 \<Rightarrow> nat option" where
  "clackf_mark f member oid sincarn = map_option fm_mark (cf_entry f member oid sincarn)"

definition clackf_moved :: "clackf \<Rightarrow> u64 \<Rightarrow> u64 \<Rightarrow> u32 \<Rightarrow> int option" where
  "clackf_moved f member oid sincarn = map_option fm_moved (cf_entry f member oid sincarn)"

fun min_marks :: "clackf \<Rightarrow> u64 \<Rightarrow> u32 \<Rightarrow> u64 list \<Rightarrow> nat \<Rightarrow> nat" where
  "min_marks f oid sincarn [] lo = lo"
| "min_marks f oid sincarn (m # ms) lo =
     (case clackf_mark f m oid sincarn of
        None \<Rightarrow> 0
      | Some v \<Rightarrow> min_marks f oid sincarn ms (if v < lo then v else lo))"

definition clackf_min :: "clackf \<Rightarrow> u64 \<Rightarrow> u32 \<Rightarrow> u64 list \<Rightarrow> nat" where
  "clackf_min f oid sincarn members =
    (if length members \<le> 0 then 0 else min_marks f oid sincarn members (2 ^ 64 - 1))"

text \<open>\<open>None\<close> for the members stands for the null pointer: every member of the table.\<close>

definition clackf_max :: "clackf \<Rightarrow> u64 \<Rightarrow> u32 \<Rightarrow> u64 list option \<Rightarrow> nat" where
  "clackf_max f oid sincarn members =
    foldl (\<lambda>hi s. case s of None \<Rightarrow> hi | Some s \<Rightarrow> if fm_mark s > hi then fm_mark s else hi) 0
      (case members of
         Some ms \<Rightarrow> map (\<lambda>m. cf_entry f m oid sincarn) ms
       | None \<Rightarrow> map (\<lambda>m. map_option (\<lambda>k. fb_m m ! k) (sfind m oid sincarn)) (cf_mb f))"

fun each_mark :: "(fmark \<Rightarrow> 'c \<Rightarrow> int \<times> 'c) \<Rightarrow> fmark list \<Rightarrow> 'c \<Rightarrow> int \<times> 'c" where
  "each_mark cb [] c = (0, c)"
| "each_mark cb (s # ss) c = (case cb s c of (rc, c) \<Rightarrow> if rc \<noteq> 0 then (rc, c) else each_mark cb ss c)"

fun each_member :: "(u64 \<Rightarrow> u32 \<Rightarrow> u64 \<Rightarrow> u32 \<Rightarrow> nat \<Rightarrow> 'c \<Rightarrow> int \<times> 'c) \<Rightarrow> fmember list \<Rightarrow> 'c \<Rightarrow> int \<times> 'c" where
  "each_member cb [] c = (0, c)"
| "each_member cb (m # ms) c =
    (case each_mark (\<lambda>s. cb (fb_member m) (fb_incarn m) (fm_oid s) (fm_sincarn s) (fm_mark s)) (fb_m m) c of
       (rc, c) \<Rightarrow> if rc \<noteq> 0 then (rc, c) else each_member cb ms c)"

definition clackf_each :: "clackf \<Rightarrow> (u64 \<Rightarrow> u32 \<Rightarrow> u64 \<Rightarrow> u32 \<Rightarrow> nat \<Rightarrow> 'c \<Rightarrow> int \<times> 'c) \<Rightarrow> 'c \<Rightarrow> int \<times> 'c" where
  "clackf_each f cb c = each_member cb (cf_mb f) c"

section \<open>The stuck members\<close>

record stuck =
  sk_member :: u64
  sk_mark :: nat
  sk_moved :: int

definition stuck_latest :: "clackf \<Rightarrow> u64 \<Rightarrow> u32 \<Rightarrow> u64 list \<Rightarrow> int \<Rightarrow> int" where
  "stuck_latest f oid sincarn members also =
    foldl (\<lambda>latest m. case cf_entry f m oid sincarn of
        Some s \<Rightarrow> if fm_moved s > latest then fm_moved s else latest
      | None \<Rightarrow> latest) also members"

text \<open>One member's entry, when the member is to be listed.\<close>

definition stuck_one :: "clackf \<Rightarrow> u64 \<Rightarrow> u32 \<Rightarrow> nat \<Rightarrow> int \<Rightarrow> int \<Rightarrow> int \<Rightarrow> u64 \<Rightarrow> stuck option" where
  "stuck_one f oid sincarn head latest now still_ms m =
    (case cf_entry f m oid sincarn of
       None \<Rightarrow> None
     | Some s \<Rightarrow>
         if fm_mark s \<ge> head \<or> fm_moved s = 0 \<or> fm_moved s > now - still_ms \<or> latest \<le> fm_moved s then None
         else Some \<lparr>sk_member = m, sk_mark = fm_mark s, sk_moved = fm_moved s\<rparr>)"

text \<open>Moving the later ones up, and the place that falls free.\<close>

fun stuck_shift :: "stuck list \<Rightarrow> nat \<Rightarrow> int \<Rightarrow> stuck list \<times> nat" where
  "stuck_shift out 0 moved = (out, 0)"
| "stuck_shift out (Suc j) moved =
    (if sk_moved (out ! j) > moved then stuck_shift (out[Suc j := out ! j]) j moved else (out, Suc j))"

definition stuck_add :: "nat \<Rightarrow> stuck \<Rightarrow> nat \<times> stuck list \<Rightarrow> nat \<times> stuck list" where
  "stuck_add mx x st =
    (case st of (k, out) \<Rightarrow>
       let j = (if k < mx then k else mx) in
       if j = mx then
         (if mx \<le> 0 \<or> sk_moved (out ! (mx - 1)) \<le> sk_moved x then (k + 1, out)
          else case stuck_shift out (mx - 1) (sk_moved x) of (out, j) \<Rightarrow> (k + 1, out[j := x]))
       else case stuck_shift out j (sk_moved x) of (out, j) \<Rightarrow> (k + 1, out[j := x]))"

definition clackf_stuck :: "clackf \<Rightarrow> u64 \<Rightarrow> u32 \<Rightarrow> u64 list \<Rightarrow> nat \<Rightarrow> int \<Rightarrow> int \<Rightarrow> int \<Rightarrow>
    stuck list \<Rightarrow> nat \<Rightarrow> nat \<times> stuck list" where
  "clackf_stuck f oid sincarn members head also now still_ms out mx =
    (let latest = stuck_latest f oid sincarn members also in
     foldl (\<lambda>st m. case stuck_one f oid sincarn head latest now still_ms m of
         None \<Rightarrow> st | Some x \<Rightarrow> stuck_add mx x st) (0, out) members)"

section \<open>What the table stands for\<close>

text \<open>For each member its incarnation and its mark of each space.\<close>

type_synonym fleet = "u64 \<Rightarrow> (u32 \<times> (u64 \<times> u32 \<Rightarrow> nat option)) option"

definition marks_of :: "fmember \<Rightarrow> u64 \<times> u32 \<Rightarrow> nat option" where
  "marks_of m = table_map (\<lambda>s. (fm_oid s, fm_sincarn s)) fm_mark (fb_m m)"

definition fleet_of :: "clackf \<Rightarrow> fleet" where
  "fleet_of f = table_map fb_member (\<lambda>m. (fb_incarn m, marks_of m)) (cf_mb f)"

definition member_inv :: "fmember \<Rightarrow> bool" where
  "member_inv m \<longleftrightarrow> distinct (map (\<lambda>s. (fm_oid s, fm_sincarn s)) (fb_m m)) \<and>
     length (fb_m m) \<le> fb_cap m \<and> fb_cap m \<le> CLACKF_SPACES"

definition cf_inv :: "clackf \<Rightarrow> bool" where
  "cf_inv f \<longleftrightarrow> distinct (map fb_member (cf_mb f)) \<and> length (cf_mb f) \<le> CLACKF_MEMBERS \<and>
     (\<forall>m \<in> set (cf_mb f). member_inv m)"

text \<open>The list filled so far: the front of the stable sort of the entries seen.\<close>

definition stuck_front :: "nat \<Rightarrow> stuck list \<Rightarrow> nat \<times> stuck list \<Rightarrow> bool" where
  "stuck_front mx zs st \<longleftrightarrow> fst st = length zs \<and> mx \<le> length (snd st) \<and>
     take (min mx (length zs)) (snd st) = take mx (sort_key sk_moved zs)"

text \<open>Two members: one whose mark of a space last moved at 10, one at 50.\<close>

definition sample_fleet :: clackf where
  "sample_fleet = clackf_new\<lparr>cf_mb :=
    [\<lparr>fb_member = 5, fb_incarn = 1, fb_cap = 4, fb_m = [\<lparr>fm_oid = 7, fm_sincarn = 1, fm_mark = 2, fm_moved = 10\<rparr>], fb_heard = 0\<rparr>,
     \<lparr>fb_member = 6, fb_incarn = 2, fb_cap = 4, fb_m = [\<lparr>fm_oid = 7, fm_sincarn = 1, fm_mark = 9, fm_moved = 50\<rparr>], fb_heard = 0\<rparr>]\<rparr>"

definition sample_stuck :: stuck where
  "sample_stuck = \<lparr>sk_member = 0, sk_mark = 0, sk_moved = 0\<rparr>"

section \<open>Lookups\<close>

lemma mfind_fleet:
  assumes "cf_inv f"
  shows "mfind f a = None \<longleftrightarrow> fleet_of f a = None"
    "mfind f a = Some i \<Longrightarrow> i < length (cf_mb f) \<and> fb_member (cf_mb f ! i) = a \<and> member_inv (cf_mb f ! i) \<and>
       fleet_of f a = Some (fb_incarn (cf_mb f ! i), marks_of (cf_mb f ! i))"
proof -
  have d: "distinct (map fb_member (cf_mb f))" using assms by (simp add: cf_inv_def)
  note t = table_map_find [OF d, of "\<lambda>m. (fb_incarn m, marks_of m)" a]
  show "mfind f a = None \<longleftrightarrow> fleet_of f a = None" by (simp add: fleet_of_def t mfind_def)
  assume i: "mfind f a = Some i"
  then show "i < length (cf_mb f) \<and> fb_member (cf_mb f ! i) = a \<and> member_inv (cf_mb f ! i) \<and>
       fleet_of f a = Some (fb_incarn (cf_mb f ! i), marks_of (cf_mb f ! i))"
    using assms find_index_Some [OF i [unfolded mfind_def]] by (auto simp: fleet_of_def t mfind_def cf_inv_def)
qed

lemma sfind_marks:
  assumes "member_inv m"
  shows "sfind m oid si = None \<longleftrightarrow> marks_of m (oid, si) = None"
    "sfind m oid si = Some k \<Longrightarrow> k < length (fb_m m) \<and> (fm_oid (fb_m m ! k), fm_sincarn (fb_m m ! k)) = (oid, si) \<and>
       marks_of m (oid, si) = Some (fm_mark (fb_m m ! k))"
proof -
  have d: "distinct (map (\<lambda>s. (fm_oid s, fm_sincarn s)) (fb_m m))" using assms by (simp add: member_inv_def)
  note t = table_map_find [OF d, of fm_mark "(oid, si)"]
  show "sfind m oid si = None \<longleftrightarrow> marks_of m (oid, si) = None" by (simp add: marks_of_def t sfind_def)
  assume k: "sfind m oid si = Some k"
  then show "k < length (fb_m m) \<and> (fm_oid (fb_m m ! k), fm_sincarn (fb_m m ! k)) = (oid, si) \<and>
       marks_of m (oid, si) = Some (fm_mark (fb_m m ! k))"
    using find_index_Some [OF k [unfolded sfind_def]] by (auto simp: marks_of_def t sfind_def)
qed

lemma mark_fleet:
  assumes "cf_inv f"
  shows "clackf_mark f a oid si = (case fleet_of f a of None \<Rightarrow> None | Some (inc, ms) \<Rightarrow> ms (oid, si))"
proof (cases "mfind f a")
  case (Some i)
  note i = mfind_fleet(2) [OF assms Some]
  then show ?thesis
    using sfind_marks [of "cf_mb f ! i" oid si] by (cases "sfind (cf_mb f ! i) oid si") (auto simp: clackf_mark_def cf_entry_def Some)
qed (use mfind_fleet(1) [OF assms, of a] in \<open>auto simp: clackf_mark_def cf_entry_def\<close>)

section \<open>Changing one member\<close>

lemma put_member_fleet:
  assumes "cf_inv f" "i < length (cf_mb f)" "fb_member m = fb_member (cf_mb f ! i)" "member_inv m"
  shows "cf_inv (put_member i m f)" "fleet_of (put_member i m f) = (fleet_of f)(fb_member m \<mapsto> (fb_incarn m, marks_of m))"
proof -
  have "set ((cf_mb f)[i := m]) \<subseteq> insert m (set (cf_mb f))" by (rule set_update_subset_insert)
  moreover have "map fb_member ((cf_mb f)[i := m]) = map fb_member (cf_mb f)"
    using assms(2,3) by (intro map_update_key) auto
  ultimately show "cf_inv (put_member i m f)" using assms by (auto simp: cf_inv_def put_member_def)
  show "fleet_of (put_member i m f) = (fleet_of f)(fb_member m \<mapsto> (fb_incarn m, marks_of m))"
    using assms table_map_update [of fb_member "cf_mb f" i m "\<lambda>m. (fb_incarn m, marks_of m)"]
    by (simp add: fleet_of_def put_member_def cf_inv_def)
qed

lemma counters_only [simp]:
  "fleet_of (f\<lparr>cf_reports := n\<rparr>) = fleet_of f" "fleet_of (f\<lparr>cf_lowered := n\<rparr>) = fleet_of f"
  "fleet_of (f\<lparr>cf_resets := n\<rparr>) = fleet_of f" "fleet_of (f\<lparr>cf_refused := n\<rparr>) = fleet_of f"
  "cf_inv (f\<lparr>cf_reports := n\<rparr>) = cf_inv f" "cf_inv (f\<lparr>cf_lowered := n\<rparr>) = cf_inv f"
  "cf_inv (f\<lparr>cf_resets := n\<rparr>) = cf_inv f" "cf_inv (f\<lparr>cf_refused := n\<rparr>) = cf_inv f"
  by (simp_all add: fleet_of_def cf_inv_def)

lemma marks_of_Nil [simp]: "fb_m m = [] \<Longrightarrow> marks_of m = Map.empty"
  by (simp add: marks_of_def)

lemma member_step:
  assumes "cf_inv f" "clackf_member f a inc = (rc, f')"
  shows "cf_inv f' \<and>
    (case fleet_of f a of
       None \<Rightarrow> rc = - 1 \<and> length (cf_mb f) = CLACKF_MEMBERS \<and> fleet_of f' = fleet_of f \<or>
               rc = 0 \<and> fleet_of f' = (fleet_of f)(a \<mapsto> (inc, Map.empty))
     | Some (was, ms) \<Rightarrow> if was = inc then rc = 0 \<and> f' = f else rc = 1 \<and> fleet_of f' = (fleet_of f)(a \<mapsto> (inc, Map.empty)))"
proof (cases "mfind f a")
  case None
  then have n: "fleet_of f a = None" using mfind_fleet(1) [OF assms(1)] by blast
  then have "a \<notin> fb_member ` set (cf_mb f)" by (simp add: fleet_of_def table_map_None)
  then show ?thesis
    using assms n None table_map_snoc [of fb_member "\<lparr>fb_member = a, fb_incarn = inc, fb_cap = 0, fb_m = [], fb_heard = 0\<rparr>" "cf_mb f"
        "\<lambda>m. (fb_incarn m, marks_of m)"]
    by (auto simp: clackf_member_def cf_inv_def fleet_of_def member_inv_def split: if_splits)
next
  case (Some i)
  note i = mfind_fleet(2) [OF assms(1) Some]
  let ?m = "(cf_mb f ! i)\<lparr>fb_incarn := inc, fb_m := []\<rparr>"
  have "member_inv ?m" using i by (simp add: member_inv_def)
  then have "cf_inv (put_member i ?m f)" "fleet_of (put_member i ?m f) = (fleet_of f)(a \<mapsto> (inc, Map.empty))"
    using put_member_fleet [OF assms(1), of i ?m] i by auto
  then show ?thesis using assms i Some by (auto simp: clackf_member_def Let_def split: if_splits)
qed

lemma report_step:
  assumes "cf_inv f" "clackf_report mem f a oid si mark now = (rc, f')"
  shows "cf_inv f' \<and>
    (if rc = - 1 then fleet_of f' = fleet_of f \<and>
       (\<forall>inc ms. fleet_of f a = Some (inc, ms) \<longrightarrow> ms (oid, si) = None \<and> (\<not> mem \<or> card (dom ms) = CLACKF_SPACES))
     else \<exists>inc ms. fleet_of f a = Some (inc, ms) \<and> fleet_of f' = (fleet_of f)(a \<mapsto> (inc, ms((oid, si) \<mapsto> mark))) \<and>
       rc = of_bool (\<exists>old. ms (oid, si) = Some old \<and> mark < old))"
proof (cases "mfind f a")
  case None
  then show ?thesis using assms mfind_fleet(1) [OF assms(1), of a] by (auto simp: clackf_report_def)
next
  case (Some i)
  note i = mfind_fleet(2) [OF assms(1) Some]
  define m where "m = cf_mb f ! i"
  have m: "member_inv m" "fb_member m = a" "i < length (cf_mb f)" "fleet_of f a = Some (fb_incarn m, marks_of m)"
    using i by (simp_all add: m_def)
  have dist: "distinct (map (\<lambda>s. (fm_oid s, fm_sincarn s)) (fb_m m))" using m(1) by (simp add: member_inv_def)
  have put: "cf_inv (put_member i m' g)" "fleet_of (put_member i m' g) = (fleet_of f)(a \<mapsto> (fb_incarn m', marks_of m'))"
    if "fb_member m' = a" "member_inv m'" "cf_mb g = cf_mb f" for m' g
    using put_member_fleet [of g i m'] that m assms(1) by (auto simp: cf_inv_def fleet_of_def m_def)
  show ?thesis
  proof (cases "sfind m oid si")
    case (Some k)
    note k = sfind_marks(2) [OF m(1) Some]
    define s where "s = (if mark \<noteq> fm_mark (fb_m m ! k) then (fb_m m ! k)\<lparr>fm_moved := now\<rparr> else fb_m m ! k)\<lparr>fm_mark := mark\<rparr>"
    have s: "(fm_oid s, fm_sincarn s) = (oid, si)" "fm_mark s = mark" using k by (auto simp: s_def)
    have ks: "map (\<lambda>s. (fm_oid s, fm_sincarn s)) ((fb_m m)[k := s]) = map (\<lambda>s. (fm_oid s, fm_sincarn s)) (fb_m m)"
      using k s by (intro map_update_key) auto
    then have inv: "member_inv (m\<lparr>fb_m := (fb_m m)[k := s]\<rparr>)" using m(1) unfolding member_inv_def by simp
    have mk: "marks_of (m\<lparr>fb_m := (fb_m m)[k := s]\<rparr>) = (marks_of m)((oid, si) \<mapsto> mark)"
      using table_map_update [OF dist, of k s fm_mark] k s by (simp add: marks_of_def)
    show ?thesis
      using assms \<open>mfind f a = Some i\<close> Some k m put [OF _ inv]
      by (auto simp: clackf_report_def Let_def m_def [symmetric] s_def [symmetric] mk of_bool_def split: if_splits)
  next
    case None
    define new where "new = \<lparr>fm_oid = oid, fm_sincarn = si, fm_mark = mark, fm_moved = now\<rparr>"
    have fresh: "(oid, si) \<notin> (\<lambda>s. (fm_oid s, fm_sincarn s)) ` set (fb_m m)" and none: "marks_of m (oid, si) = None"
      using None sfind_marks(1) [OF m(1)] by (simp_all add: marks_of_def table_map_None)
    have mk: "marks_of (m\<lparr>fb_cap := c, fb_m := fb_m m @ [new]\<rparr>) = (marks_of m)((oid, si) \<mapsto> mark)" for c
      using table_map_snoc [of "\<lambda>s. (fm_oid s, fm_sincarn s)" new "fb_m m" fm_mark] fresh by (simp add: marks_of_def new_def)
    have inv: "member_inv (m\<lparr>fb_cap := c, fb_m := fb_m m @ [new]\<rparr>)" if "length (fb_m m) < c" "c \<le> CLACKF_SPACES" for c
      using that m(1) fresh by (auto simp: member_inv_def new_def)
    define cap where "cap = (let c = (if fb_cap m \<noteq> 0 then fb_cap m * 2 else 4) in if c > CLACKF_SPACES then CLACKF_SPACES else c)"
    have cap: "cap \<le> CLACKF_SPACES" "length (fb_m m) = fb_cap m \<Longrightarrow> length (fb_m m) \<noteq> cap \<Longrightarrow> length (fb_m m) < cap"
      "length (fb_m m) = fb_cap m \<Longrightarrow> length (fb_m m) = cap \<Longrightarrow> length (fb_m m) = CLACKF_SPACES"
      using m(1) by (auto simp: cap_def Let_def member_inv_def CLACKF_SPACES_def split: if_splits)
    have card: "card (dom (marks_of m)) = length (fb_m m)"
    proof -
      have "dom (marks_of m) = set (map (\<lambda>s. (fm_oid s, fm_sincarn s)) (fb_m m))"
        by (auto simp: marks_of_def dom_def table_map_None simp flip: not_None_eq)
      then show ?thesis using distinct_card [OF dist] by simp
    qed
    have rep: "clackf_report mem f a oid si mark now =
      (let f = f\<lparr>cf_reports := cf_reports f + 1\<rparr> in
       if length (fb_m m) = fb_cap m then
         (if length (fb_m m) = cap \<or> \<not> mem then (- 1, f\<lparr>cf_refused := cf_refused f + 1\<rparr>)
          else (0, put_member i (m\<lparr>fb_cap := cap, fb_m := fb_m m @ [new]\<rparr>) f))
       else (0, put_member i (m\<lparr>fb_cap := fb_cap m, fb_m := fb_m m @ [new]\<rparr>) f))"
      by (simp add: clackf_report_def \<open>mfind f a = Some i\<close> m_def [symmetric] None Let_def cap_def new_def)
    have le: "length (fb_m m) \<le> fb_cap m" "fb_cap m \<le> CLACKF_SPACES" using m(1) by (simp_all add: member_inv_def)
    show ?thesis
      using assms(1) assms(2) [unfolded rep Let_def] m none card cap le
        put [OF _ inv, of "fb_cap m" "f\<lparr>cf_reports := cf_reports f + 1\<rparr>"] put [OF _ inv, of cap "f\<lparr>cf_reports := cf_reports f + 1\<rparr>"]
      by (auto simp: mk mk [of "fb_cap m", simplified] split: if_splits)
  qed
qed

lemma clear_step:
  assumes "cf_inv f"
  shows "cf_inv (clackf_clear f a) \<and>
    fleet_of (clackf_clear f a) = (fleet_of f)(a := map_option (\<lambda>(inc, ms). (inc, Map.empty)) (fleet_of f a))"
proof (cases "mfind f a")
  case None
  then show ?thesis using assms mfind_fleet(1) [OF assms, of a] by (auto simp: clackf_clear_def fun_eq_iff)
next
  case (Some i)
  note i = mfind_fleet(2) [OF assms Some]
  let ?m = "(cf_mb f ! i)\<lparr>fb_m := []\<rparr>"
  have "member_inv ?m" using i by (simp add: member_inv_def)
  then show ?thesis using put_member_fleet [OF assms, of i ?m] i Some by (simp add: clackf_clear_def)
qed

lemma forget_step:
  assumes "cf_inv f"
  shows "cf_inv (clackf_forget f a) \<and> fleet_of (clackf_forget f a) = (fleet_of f)(a := None)"
proof (cases "mfind f a")
  case None
  then show ?thesis using assms mfind_fleet(1) [OF assms, of a] by (auto simp: clackf_forget_def fun_eq_iff)
next
  case (Some i)
  note i = mfind_fleet(2) [OF assms Some]
  have d: "distinct (map fb_member (cf_mb f))" using assms by (simp add: cf_inv_def)
  show ?thesis
    using i Some assms swap_out_set [OF d, of i] table_map_swap_out [OF d, of i "\<lambda>m. (fb_incarn m, marks_of m)"]
    by (auto simp: clackf_forget_def cf_inv_def fleet_of_def)
qed

lemma heard_step:
  assumes "cf_inv f"
  shows "cf_inv (snd (clackf_heard f a now)) \<and> fleet_of (snd (clackf_heard f a now)) = fleet_of f"
proof (cases "mfind f a")
  case None
  then show ?thesis using assms by (simp add: clackf_heard_def)
next
  case (Some i)
  note i = mfind_fleet(2) [OF assms Some]
  let ?m = "(cf_mb f ! i)\<lparr>fb_heard := now\<rparr>"
  have "member_inv ?m" "marks_of ?m = marks_of (cf_mb f ! i)" using i by (simp_all add: member_inv_def marks_of_def)
  then show ?thesis using put_member_fleet [OF assms, of i ?m] i Some by (auto simp: clackf_heard_def fun_eq_iff)
qed

section \<open>The lowest mark\<close>

lemma min_marks_le:
  "0 < q \<Longrightarrow> q \<le> min_marks f oid si ms lo \<longleftrightarrow>
    q \<le> lo \<and> (\<forall>m \<in> set ms. \<exists>v. clackf_mark f m oid si = Some v \<and> q \<le> v)"
proof (induction ms arbitrary: lo)
  case (Cons m ms)
  show ?case
  proof (cases "clackf_mark f m oid si")
    case None
    then show ?thesis using Cons.prems by simp
  next
    case (Some v)
    have "q \<le> (if v < lo then v else lo) \<longleftrightarrow> q \<le> lo \<and> q \<le> v" by auto
    then show ?thesis using Cons.IH [OF Cons.prems, of "if v < lo then v else lo"] Some by simp
  qed
qed simp

section \<open>The stuck list is the front of a stable sort\<close>

lemma shift_spec:
  assumes "sorted (map sk_moved xs)"
  shows "\<exists>as bs h. xs = as @ bs \<and> stuck_shift (xs @ g # rest) (length xs) x = (as @ h # bs @ rest, length as) \<and>
    (\<forall>y \<in> set as. sk_moved y \<le> x) \<and> (\<forall>y \<in> set bs. x < sk_moved y)"
  using assms
proof (induction xs arbitrary: g rest rule: rev_induct)
  case (snoc y ys)
  show ?case
  proof (cases "sk_moved y > x")
    case True
    obtain as bs h where "ys = as @ bs" "stuck_shift (ys @ y # y # rest) (length ys) x = (as @ h # bs @ y # rest, length as)"
      "\<forall>y \<in> set as. sk_moved y \<le> x" "\<forall>y \<in> set bs. x < sk_moved y"
      using snoc.IH [of y "y # rest"] snoc.prems by (auto simp: sorted_append)
    then show ?thesis
      using True by (intro exI [of _ as] exI [of _ "bs @ [y]"] exI [of _ h]) (auto simp: nth_append list_update_append)
  next
    case False
    then have "\<forall>z \<in> set (ys @ [y]). sk_moved z \<le> x" using snoc.prems by (auto simp: sorted_append)
    then show ?thesis
      using False by (intro exI [of _ "ys @ [y]"] exI [of _ "[]"] exI [of _ g]) (auto simp: nth_append)
  qed
qed simp

lemma sorted_cut:
  "sorted (map f xs) \<Longrightarrow> \<exists>as bs. xs = as @ bs \<and> (\<forall>y \<in> set as. f y \<le> (v :: int)) \<and> (\<forall>y \<in> set bs. v < f y)"
proof (induction xs)
  case (Cons x xs)
  then obtain as bs where ab: "xs = as @ bs" "\<forall>y \<in> set as. f y \<le> v" "\<forall>y \<in> set bs. v < f y" by auto
  show ?case
  proof (cases "f x \<le> v")
    case True
    then show ?thesis using ab by (intro exI [of _ "x # as"] exI [of _ bs]) auto
  next
    case False
    then have "\<forall>y \<in> set (x # xs). v < f y" using Cons.prems by auto
    then show ?thesis by (intro exI [of _ "[]"] exI [of _ "x # xs"]) simp
  qed
qed simp

lemma sort_insert:
  assumes "sort_key f zs = as @ bs" "\<forall>y \<in> set as. f y \<le> f x" "\<forall>y \<in> set bs. f x < f y"
  shows "sort_key f (zs @ [x]) = as @ x # bs"
proof (rule properties_for_sort_key)
  have "mset zs = mset as + mset bs" using assms(1) by (metis mset_append mset_sort)
  then show "mset (as @ x # bs) = mset (zs @ [x])" by simp
  have "sorted (map f (as @ bs))" using assms(1) by (metis sorted_sort_key)
  then show "sorted (map f (as @ x # bs))" using assms(2,3) by (auto simp: sorted_append intro: less_imp_le)
  fix k assume "k \<in> set (as @ x # bs)"
  have "filter (\<lambda>y. f y = f k) (as @ bs) = filter (\<lambda>y. f y = f k) zs" using assms(1) sort_key_stable by metis
  moreover have "f k = f x \<Longrightarrow> filter (\<lambda>y. f y = f k) bs = []" using assms(3) by (auto simp: filter_empty_conv)
  ultimately have "filter (\<lambda>y. f y = f k) (as @ x # bs) = filter (\<lambda>y. f y = f k) (zs @ [x])" by auto
  then show "filter (\<lambda>y. f k = f y) (as @ x # bs) = filter (\<lambda>y. f k = f y) (zs @ [x])" by (simp only: eq_commute)
qed

lemma stuck_add_front:
  assumes "stuck_front mx zs st"
  shows "stuck_front mx (zs @ [x]) (stuck_add mx x st)"
proof -
  obtain k out where st: "st = (k, out)" by (cases st)
  let ?S = "sort_key sk_moved zs"
  have k: "k = length zs" "mx \<le> length out" "take (min mx k) out = take mx ?S"
    using assms by (simp_all add: stuck_front_def st)
  have sorted: "sorted (map sk_moved ?S)" by simp
  show ?thesis
  proof (cases "k < mx")
    case True
    then have S: "take k out = ?S" using k by simp
    obtain g rest where out: "out = ?S @ g # rest"
      using True k(2) S by (metis append_take_drop_id Cons_nth_drop_Suc less_le_trans)
    obtain as bs h where ab: "?S = as @ bs" "stuck_shift out k (sk_moved x) = (as @ h # bs @ rest, length as)"
      "\<forall>y \<in> set as. sk_moved y \<le> sk_moved x" "\<forall>y \<in> set bs. sk_moved x < sk_moved y"
      using shift_spec [OF sorted, of g rest "sk_moved x"] k(1) unfolding out [symmetric] by auto
    have len: "Suc (length zs) = length as + Suc (length bs)" using ab(1) k(1) by (metis add_Suc_right length_append length_sort)
    have "stuck_add mx x st = (Suc k, as @ x # bs @ rest)" using True ab(2) by (simp add: stuck_add_def st)
    moreover have "length out = length (as @ x # bs @ rest)" using out ab(1) by simp
    moreover have "take (Suc (length zs)) (as @ x # bs @ rest) = as @ x # bs" unfolding len by simp
    moreover have "take mx (as @ x # bs) = as @ x # bs" using True k(1) len by simp
    ultimately show ?thesis
      using True k(1,2) sort_insert [OF ab(1,3,4)] by (simp add: stuck_front_def min_absorb2)
  next
    case False
    then have T: "take mx out = take mx ?S" "mx \<le> length ?S" using k by (simp_all add: min_absorb1)
    show ?thesis
    proof (cases "mx = 0")
      case True
      then show ?thesis using k by (simp add: stuck_front_def stuck_add_def st)
    next
      case mx: False
      define T' where "T' = take (mx - 1) ?S"
      define l where "l = ?S ! (mx - 1)"
      define U where "U = drop mx ?S"
      have S: "?S = T' @ l # U" 
        using mx T(2) id_take_nth_drop [of "mx - 1" ?S] by (simp add: T'_def l_def U_def)
      have lT: "length T' = mx - 1" using T(2) by (simp add: T'_def)
      have "take (mx - 1) (take mx out) = take (mx - 1) (take mx ?S)" "take mx out ! (mx - 1) = take mx ?S ! (mx - 1)"
        using T(1) by simp_all
      then have o1: "take (mx - 1) out = T'" "out ! (mx - 1) = l" using mx by (simp_all add: T'_def l_def)
      have out: "out = T' @ l # drop mx out"
        using o1 mx k(2) id_take_nth_drop [of "mx - 1" out] by simp
      have so: "\<forall>y \<in> set T'. sk_moved y \<le> sk_moved l" "\<forall>y \<in> set U. sk_moved l \<le> sk_moved y" "sorted (map sk_moved T')" "sorted (map sk_moved U)"
        using sorted unfolding S by (auto simp: sorted_append)
      show ?thesis
      proof (cases "sk_moved l \<le> sk_moved x")
        case True
        obtain as bs where U: "U = as @ bs" and ab: "\<forall>y \<in> set as. sk_moved y \<le> sk_moved x" "\<forall>y \<in> set bs. sk_moved x < sk_moved y"
          using sorted_cut [OF so(4)] by blast
        have "\<forall>y \<in> set (T' @ l # as). sk_moved y \<le> sk_moved x"
          using so(1) True ab(1) by auto
        then have "sort_key sk_moved (zs @ [x]) = (T' @ l # as) @ x # bs"
          using S U ab(2) by (intro sort_insert) simp_all
        moreover have "take mx ((T' @ l # as) @ x # bs) = T' @ [l]" using lT mx by (simp add: take_Cons')
        moreover have "take mx out = T' @ [l]" by (subst out) (use lT mx in \<open>simp add: take_Cons'\<close>)
        moreover have "stuck_add mx x st = (Suc k, out)" using True False mx o1(2) by (simp add: stuck_add_def st)
        ultimately show ?thesis using k(1,2) False by (simp add: stuck_front_def min_absorb1)
      next
        case less: False
        obtain as bs h where ab: "T' = as @ bs" "stuck_shift out (mx - 1) (sk_moved x) = (as @ h # bs @ drop mx out, length as)"
          "\<forall>y \<in> set as. sk_moved y \<le> sk_moved x" "\<forall>y \<in> set bs. sk_moved x < sk_moved y"
          using shift_spec [OF so(3), of l "drop mx out" "sk_moved x"] lT unfolding out [symmetric] by auto
        have "sort_key sk_moved (zs @ [x]) = as @ x # (bs @ l # U)"
          using S ab less so(2) by (intro sort_insert) auto
        moreover have len: "mx = length as + Suc (length bs)" using ab(1) lT mx by simp
        have "take mx (as @ x # (bs @ V)) = as @ x # bs" for V unfolding len by simp
        moreover have "stuck_add mx x st = (Suc k, as @ x # bs @ drop mx out)"
          using less False mx o1(2) ab(2) by (simp add: stuck_add_def st)
        moreover have "length (as @ x # bs @ drop mx out) = length out" using len k(2) by simp
        ultimately show ?thesis using k(1,2) False by (simp add: stuck_front_def min_absorb1)
      qed
    qed
  qed
qed

lemma stuck_all_front:
  "foldl (\<lambda>st m. case g m of None \<Rightarrow> st | Some x \<Rightarrow> stuck_add mx x st) st ms = st' \<Longrightarrow> stuck_front mx zs st \<Longrightarrow>
    stuck_front mx (zs @ List.map_filter g ms) st'"
proof (induction ms arbitrary: st zs)
  case (Cons m ms)
  show ?case
  proof (cases "g m")
    case (Some x)
    then show ?thesis
      using Cons.IH [OF _ stuck_add_front [OF Cons.prems(2)], of x] Cons.prems(1) by (simp add: List.map_filter_simps)
  qed (use Cons in \<open>simp add: List.map_filter_simps\<close>)
qed (simp add: List.map_filter_simps)

lemma Max_insert_max: "finite B \<Longrightarrow> Max (insert (max a b) B) = Max (insert a (insert (b :: int) B))"
  by (cases "B = {}") (simp_all add: max.assoc)

lemma latest_max:
  "stuck_latest f oid si ms al = Max (insert al {fm_moved s | s m. m \<in> set ms \<and> cf_entry f m oid si = Some s})"
proof (induction ms arbitrary: al)
  case Nil
  then show ?case by (simp add: stuck_latest_def)
next
  case (Cons m ms)
  let ?A = "\<lambda>ms. {fm_moved s | s m. m \<in> set ms \<and> cf_entry f m oid si = Some s}"
  have fin: "finite (?A ms)" for ms
    by (rule finite_subset [of _ "(\<lambda>m. fm_moved (the (cf_entry f m oid si))) ` set ms"]) (force simp: image_iff)+
  have step: "stuck_latest f oid si (m # ms) al = stuck_latest f oid si ms
      (case cf_entry f m oid si of Some s \<Rightarrow> max al (fm_moved s) | None \<Rightarrow> al)"
    by (auto simp: stuck_latest_def max_def split: option.splits)
  show ?case
  proof (cases "cf_entry f m oid si")
    case None
    then have "?A (m # ms) = ?A ms" by auto
    then show ?thesis using step None Cons.IH by simp
  next
    case (Some s)
    then have A: "?A (m # ms) = insert (fm_moved s) (?A ms)" by auto
    have "stuck_latest f oid si (m # ms) al = Max (insert (max al (fm_moved s)) (?A ms))" using step Some Cons.IH by simp
    also have "\<dots> = Max (insert al (insert (fm_moved s) (?A ms)))"
      by (rule Max_insert_max [OF fin])
    finally show ?thesis by (simp only: A)
  qed
qed

section \<open>Properties\<close>

text \<open>C17: The table is the fleet's last word.  A keepalive from a new member adds it with no
  marks, one from another incarnation of a known member forgets everything the old one said;
  a report sets exactly that member's mark of that space and answers 1 precisely when it went
  down, or refuses and changes nothing, and then only for an unknown member, a full table or no memory;
  clearing and forgetting change only their member; no mark is ever attributed to another
  member, space or incarnation.\<close>

theorem fleet_ops_refine:
  assumes "cf_inv f" "clackf_member f a inc = (rc, f1)" "clackf_report mem f a oid si mark now = (rr, f2)"
  shows "cf_inv clackf_new \<and> fleet_of clackf_new = Map.empty \<and>
    cf_inv f1 \<and>
    (case fleet_of f a of
       None \<Rightarrow> rc = - 1 \<and> length (cf_mb f) = CLACKF_MEMBERS \<and> fleet_of f1 = fleet_of f \<or>
               rc = 0 \<and> fleet_of f1 = (fleet_of f)(a \<mapsto> (inc, Map.empty))
     | Some (was, ms) \<Rightarrow> if was = inc then rc = 0 \<and> f1 = f else rc = 1 \<and> fleet_of f1 = (fleet_of f)(a \<mapsto> (inc, Map.empty))) \<and>
    cf_inv f2 \<and>
    (if rr = - 1 then fleet_of f2 = fleet_of f \<and>
       (\<forall>inc ms. fleet_of f a = Some (inc, ms) \<longrightarrow> ms (oid, si) = None \<and> (\<not> mem \<or> card (dom ms) = CLACKF_SPACES))
     else \<exists>inc ms. fleet_of f a = Some (inc, ms) \<and> fleet_of f2 = (fleet_of f)(a \<mapsto> (inc, ms((oid, si) \<mapsto> mark))) \<and>
       rr = of_bool (\<exists>old. ms (oid, si) = Some old \<and> mark < old)) \<and>
    cf_inv (clackf_clear f a) \<and>
    fleet_of (clackf_clear f a) = (fleet_of f)(a := map_option (\<lambda>(inc, ms). (inc, Map.empty)) (fleet_of f a)) \<and>
    cf_inv (clackf_forget f a) \<and> fleet_of (clackf_forget f a) = (fleet_of f)(a := None)"
proof -
  have "cf_inv clackf_new" "fleet_of clackf_new = Map.empty" by (simp_all add: cf_inv_def clackf_new_def fleet_of_def)
  then show ?thesis
    using member_step [OF assms(1,2)] report_step [OF assms(1,3)] clear_step [OF assms(1), of a] forget_step [OF assms(1), of a]
    by blast
qed

theorem fleet_ops_refine_witness:
  "cf_inv clackf_new \<and> fleet_of (snd (clackf_member clackf_new 5 1)) 5 = Some (1, Map.empty)"
proof -
  have inv: "cf_inv clackf_new" and e: "fleet_of clackf_new 5 = None" and n: "length (cf_mb clackf_new) \<noteq> CLACKF_MEMBERS"
    by (simp_all add: cf_inv_def clackf_new_def fleet_of_def CLACKF_MEMBERS_def)
  obtain rc f1 where 1: "clackf_member clackf_new 5 1 = (rc, f1)" by fastforce
  obtain rr f2 where 2: "clackf_report True clackf_new 5 7 1 3 0 = (rr, f2)" by fastforce
  show ?thesis using fleet_ops_refine [OF inv 1 2] inv e n 1 by simp
qed

text \<open>C16: A delete is forgotten only when everyone has it.  A number is at or below the lowest
  mark of a space exactly when there is at least one member in the set asked about and each of
  them, in its present incarnation, has reported a mark of that space at or above it.\<close>

theorem fleet_min_exact:
  assumes "cf_inv f" "0 < q" "q < 2 ^ 64"
  shows "q \<le> clackf_min f oid si members \<longleftrightarrow>
    members \<noteq> [] \<and> (\<forall>m \<in> set members. \<exists>inc ms v. fleet_of f m = Some (inc, ms) \<and> ms (oid, si) = Some v \<and> q \<le> v)"
proof -
  have "clackf_mark f m oid si = Some v \<longleftrightarrow> (\<exists>inc ms. fleet_of f m = Some (inc, ms) \<and> ms (oid, si) = Some v)" for m v
    by (auto simp: mark_fleet [OF assms(1)] split: option.splits)
  then show ?thesis
    using min_marks_le [OF assms(2), of f oid si members "2 ^ 64 - 1"] assms(2,3) by (auto simp: clackf_min_def)
qed

theorem fleet_min_exact_witness: "2 \<le> clackf_min sample_fleet 7 1 [6, 5]"
proof -
  have "cf_inv sample_fleet" "(0 :: nat) < 2" "(2 :: nat) < 2 ^ 64"
    by (simp_all add: cf_inv_def member_inv_def sample_fleet_def clackf_new_def CLACKF_MEMBERS_def CLACKF_SPACES_def)
  from fleet_min_exact [OF this, of 7 1 "[6, 5]"] show ?thesis
    by (simp add: fleet_of_def marks_of_def sample_fleet_def clackf_new_def)
qed

text \<open>C18: The list of stuck members is exact.  However many members qualify, the count is their
  number and the list is the first \<open>max\<close> of them in a stable sort by the time their mark last
  moved: the shifting insertion into the fixed array equals sorting everything and cutting.  A member qualifies when
  its mark is below the head, has not moved for the given time, and another moved later.\<close>

theorem stuck_list_is_sorted_front:
  assumes "mx \<le> length out" "clackf_stuck f oid si members head also now still_ms out mx = (k, out')"
  shows "let latest = Max (insert also {fm_moved s | s m. m \<in> set members \<and> cf_entry f m oid si = Some s});
      zs = List.map_filter (stuck_one f oid si head latest now still_ms) members
    in k = length zs \<and> length out' \<ge> mx \<and> take (min mx k) out' = take mx (sort_key sk_moved zs)"
proof -
  have "stuck_front mx [] (0, out)" using assms(1) by (simp add: stuck_front_def)
  then have "stuck_front mx ([] @ List.map_filter (stuck_one f oid si head (stuck_latest f oid si members also) now still_ms) members) (k, out')"
    using assms(2) by (intro stuck_all_front) (auto simp: clackf_stuck_def Let_def)
  then show ?thesis by (simp add: stuck_front_def Let_def latest_max)
qed

theorem stuck_list_is_sorted_front_witness:
  "\<exists>out'. clackf_stuck sample_fleet 7 1 [6, 5] 9 0 100 50 [sample_stuck] 1 = (1, out') \<and> sk_member (hd out') = 5"
proof -
  have c: "clackf_stuck sample_fleet 7 1 [6, 5] 9 0 100 50 [sample_stuck] 1 =
      (1, [\<lparr>sk_member = 5, sk_mark = 2, sk_moved = 10\<rparr>])"
    by (simp add: clackf_stuck_def stuck_latest_def stuck_one_def cf_entry_def mfind_def sfind_def sample_fleet_def clackf_new_def
        stuck_add_def Let_def)
  have "(1 :: nat) \<le> length [sample_stuck]" by simp
  from stuck_list_is_sorted_front [OF this c] show ?thesis using c by simp
qed

end
