(* ===== verification/Decimal.thy ===== *)
theory Decimal
  imports Drain_Inv
begin

text \<open>
  Decimal text and signed words: what a run of digits stands for, that printing a number and
  reading its digits are inverse, and when a signed 64-bit sum is the true sum.  Shared by the
  theories of the texts the daemon writes and parses.
\<close>

text \<open>The number a run of digits stands for.\<close>

fun dval :: "bytes \<Rightarrow> nat \<Rightarrow> nat" where
  "dval [] a = a"
| "dval (c # cs) a = dval cs (a * 10 + unat (c - 48))"

lemma dval_mono: "a \<le> dval cs a"
proof (induction cs arbitrary: a)
  case (Cons c cs)
  have "a \<le> a * 10 + unat (c - 48)" by simp
  also note Cons.IH
  finally show ?case by simp
qed simp

lemma dval_snoc: "dval (cs @ [c]) a = dval cs a * 10 + unat (c - 48)"
  by (induction cs arbitrary: a) auto

lemma digit_value:
  assumes "is_digit c"
  obtains d where "d < 10" "c = 48 + of_nat d" "unat (c - 48) = d"
proof -
  have "unat (c - 48) = unat c - 48" "48 \<le> unat c" "unat c \<le> 57"
    using assms unat_sub [of 48 c] by (auto simp: is_digit_def word_le_nat_alt)
  moreover from this have "c = 48 + of_nat (unat c - 48)" by (simp add: of_nat_diff)
  ultimately show thesis using that [of "unat c - 48"] by simp
qed

lemma dec_dval:
  assumes "\<forall>c \<in> set cs. is_digit c" "cs \<noteq> []" "hd cs \<noteq> 48 \<or> length cs = 1"
  shows "dec (dval cs 0) = cs \<and> (hd cs \<noteq> 48 \<longrightarrow> 0 < dval cs 0)"
  using assms
proof (induction cs rule: rev_induct)
  case (snoc c cs)
  obtain d where d: "d < 10" "c = 48 + of_nat d" "unat (c - 48) = d" using digit_value [of c] snoc.prems(1) by auto
  show ?case
  proof (cases "cs = []")
    case True
    then show ?thesis using d by (auto simp: dec.simps [of d] intro: Suc_leI gr0I)
  next
    case False
    then have IH: "dec (dval cs 0) = cs" "0 < dval cs 0" using snoc by auto
    then show ?thesis using d by (simp add: dval_snoc dec.simps [of "dval cs 0 * 10 + d"])
  qed
qed simp

lemma dec_shape: "(\<forall>c \<in> set (dec n). is_digit c) \<and> dval (dec n) 0 = n \<and> dec n \<noteq> [] \<and> (hd (dec n) \<noteq> 48 \<or> n = 0)"
proof (induction n rule: dec.induct)
  case (1 n)
  have b: "is_digit (48 + of_nat m)" "unat (of_nat m :: u8) = m" "of_nat m = (0 :: u8) \<longleftrightarrow> m = 0" if "m < 10" for m
    using that digit_byte(1) unat_of_nat_small [of m, where 'a = 8] by (auto simp: unat_eq_0 [symmetric])
  show ?case
  proof (cases "n < 10")
    case True
    then show ?thesis using b [OF True] by (auto simp: dec.simps [of n])
  next
    case False
    then show ?thesis using 1 b [of "n mod 10"] by (subst (1 2 3 4) dec.simps) (auto simp: dval_snoc)
  qed
qed

lemma sint_small: "- (2 ^ 63) \<le> k \<Longrightarrow> k < 2 ^ 63 \<Longrightarrow> sint (word_of_int k :: u64) = k"
  by (simp add: sint_uint uint_word_of_int_eq signed_take_bit_take_bit signed_take_bit_int_eq_self)

lemma sint_range: "- (2 ^ 63) \<le> sint (v :: u64)" "sint (v :: u64) < 2 ^ 63"
  using sint_greater_eq [of v] sint_less [of v] by simp_all

lemma signed_sum:
  fixes a b :: u64
  shows "(sint b > 0 \<and> sint a > (2 ^ 63 - 1) - sint b) \<or> (sint b < 0 \<and> sint a < - (2 ^ 63) - sint b) \<longleftrightarrow>
      \<not> (- (2 ^ 63) \<le> sint a + sint b \<and> sint a + sint b < 2 ^ 63)"
    "- (2 ^ 63) \<le> sint a + sint b \<Longrightarrow> sint a + sint b < 2 ^ 63 \<Longrightarrow> sint (a + b) = sint a + sint b"
proof -
  show "(sint b > 0 \<and> sint a > (2 ^ 63 - 1) - sint b) \<or> (sint b < 0 \<and> sint a < - (2 ^ 63) - sint b) \<longleftrightarrow>
      \<not> (- (2 ^ 63) \<le> sint a + sint b \<and> sint a + sint b < 2 ^ 63)"
    using sint_range [of a] sint_range [of b] by linarith
  assume "- (2 ^ 63) \<le> sint a + sint b" "sint a + sint b < 2 ^ 63"
  then have "sint (word_of_int (sint a + sint b) :: u64) = sint a + sint b" by (rule sint_small)
  then show "sint (a + b) = sint a + sint b" by simp
qed

end
