(* ===== verification/Clterm.thy ===== *)
theory Clterm
  imports Codec Decimal
begin

text \<open>
  The mastership term (\<open>src/src/clterm.c\<close>) and the hash of its file
  (\<open>src/src/fnv1a.h\<close>).  The state directory is the content of the one file in it, which
  survives a restart; whether a write that ends in the rename succeeds, whether the file can be
  opened and whether it can be read are parameters of each step.  A write that fails leaves the
  old file (it is made under another name).
\<close>

unbundle bit_operations_syntax

section \<open>FNV-1a\<close>

definition FNV1A64_BASIS :: u64 where "FNV1A64_BASIS = 14695981039346656037"
definition FNV1A64_PRIME :: u64 where "FNV1A64_PRIME = 1099511628211"

definition fnv1a64_byte :: "u64 \<Rightarrow> u8 \<Rightarrow> u64" where
  "fnv1a64_byte h b = (h XOR ucast b) * FNV1A64_PRIME"

definition fnv1a64_more :: "u64 \<Rightarrow> bytes \<Rightarrow> u64" where
  "fnv1a64_more h p = foldl fnv1a64_byte h p"

definition fnv1a64 :: "bytes \<Rightarrow> u64" where
  "fnv1a64 p = fnv1a64_more FNV1A64_BASIS p"

section \<open>The file\<close>

definition bytes_of :: "string \<Rightarrow> bytes" where
  "bytes_of s = map of_char s"

definition TERM_MAGIC :: u32 where "TERM_MAGIC = 0x4D544350"
definition TERM_HEADER :: bytes where "TERM_HEADER = bytes_of ''perfcached-node-term 1''"
definition PC_TERM_MAX_JUMP :: u32 where "PC_TERM_MAX_JUMP = 1000000"

definition term_w32 :: "bytes \<Rightarrow> nat \<Rightarrow> u32 \<Rightarrow> bytes" where
  "term_w32 p i v = (((p[i := ucast v])[i + 1 := ucast (drop_bit 8 v)])
     [i + 2 := ucast (drop_bit 16 v)])[i + 3 := ucast (drop_bit 24 v)]"

definition term_r32 :: "bytes \<Rightarrow> nat \<Rightarrow> u32" where
  "term_r32 p i = ucast (p ! i) OR push_bit 8 (ucast (p ! (i + 1))) OR
     push_bit 16 (ucast (p ! (i + 2))) OR push_bit 24 (ucast (p ! (i + 3)))"

definition term_check :: "u32 \<Rightarrow> u64" where
  "term_check t = fnv1a64 (term_w32 (replicate 4 0) 0 t)"

definition hexval :: "u8 \<Rightarrow> nat option" where
  "hexval c =
    (if c \<ge> 48 \<and> c \<le> 57 then Some (unat (c - 48))
     else if c \<ge> 97 \<and> c \<le> 102 then Some (unat (c - 97) + 10)
     else if c \<ge> 65 \<and> c \<le> 70 then Some (unat (c - 65) + 10)
     else None)"

text \<open>The digits up to the end of the line: how many, and their value.\<close>

fun term_digits :: "bytes \<Rightarrow> nat \<Rightarrow> u64 \<Rightarrow> (nat \<times> u64) option" where
  "term_digits [] d v = Some (d, v)"
| "term_digits (c # cs) d v =
    (if c = 10 then Some (d, v)
     else if c < 48 \<or> c > 57 \<or> d \<ge> 10 then None
     else term_digits cs (d + 1) (v * 10 + ucast (c - 48)))"

fun term_hex :: "bytes \<Rightarrow> u64 \<Rightarrow> u64 option" where
  "term_hex [] want = Some want"
| "term_hex (c # cs) want =
    (case hexval c of None \<Rightarrow> None | Some x \<Rightarrow> term_hex cs (push_bit 4 want OR of_nat x))"

definition term_parse :: "bytes \<Rightarrow> u32 option" where
  "term_parse buf =
    (let hl = length TERM_HEADER in
     if length buf < hl + 1 \<or> take hl buf \<noteq> TERM_HEADER \<or> buf ! hl \<noteq> 10 then None
     else
       let s = drop (hl + 1) buf in
       if length s < 5 + 1 + 1 \<or> take 5 s \<noteq> bytes_of ''term '' then None
       else
         let s = drop 5 s in
         case term_digits s 0 0 of
           None \<Rightarrow> None
         | Some (d, v) \<Rightarrow>
             if d = 0 \<or> d \<ge> length s \<or> (d > 1 \<and> s ! 0 = 48) \<or> v > 0xFFFFFFFF then None
             else
               let s = drop (d + 1) s in
               if length s \<noteq> 6 + 16 + 1 \<or> take 6 s \<noteq> bytes_of ''check '' \<or> s ! (6 + 16) \<noteq> 10 then None
               else case term_hex (take 16 (drop 6 s)) 0 of
                 None \<Rightarrow> None
               | Some want \<Rightarrow> if want \<noteq> term_check (ucast v) then None else Some (ucast v))"

text \<open>\<open>"%016llx"\<close>, and the text \<open>term_store\<close> prints.\<close>

definition hexdigit :: "nat \<Rightarrow> u8" where
  "hexdigit x = (if x < 10 then 48 + of_nat x else 87 + of_nat x)"

fun hex_digits :: "nat \<Rightarrow> nat \<Rightarrow> bytes" where
  "hex_digits 0 w = []"
| "hex_digits (Suc n) w = hex_digits n (w div 16) @ [hexdigit (w mod 16)]"

definition term_text :: "u32 \<Rightarrow> bytes" where
  "term_text t = TERM_HEADER @ [10] @ bytes_of ''term '' @ dec (unat t) @ [10] @ bytes_of ''check '' @
     hex_digits 16 (unat (term_check t)) @ [10]"

section \<open>The term\<close>

record term_st =
  t_term :: u32
  t_durable :: bool
  t_dir :: bool
  t_file :: "bytes option"
  t_rejected :: nat

definition term_store :: "bool \<Rightarrow> u32 \<Rightarrow> term_st \<Rightarrow> bool \<times> term_st" where
  "term_store io t st =
    (if \<not> t_dir st then (False, st)
     else if io then (True, st\<lparr>t_file := Some (term_text t)\<rparr>)
     else (False, st))"

definition pc_term_init :: "bool \<Rightarrow> bool \<Rightarrow> bool \<Rightarrow> bool \<Rightarrow> term_st \<Rightarrow> int \<times> term_st" where
  "pc_term_init opn rd io state_dir st =
    (let st = st\<lparr>t_term := 0, t_durable := False, t_dir := False\<rparr> in
     if \<not> state_dir then (0, st)
     else
       let st = st\<lparr>t_dir := True\<rparr> in
       if t_file st = None \<or> \<not> opn then
         (case term_store io 0 st of (ok, st) \<Rightarrow> (0, st\<lparr>t_durable := ok\<rparr>))
       else
         let buf = take 128 (the (t_file st)) in
         if \<not> rd then (- 1, st)
         else if length buf = 8 \<and> term_r32 buf 0 = TERM_MAGIC then
           let st = st\<lparr>t_term := term_r32 buf 4\<rparr> in
           (case term_store io (t_term st) st of (ok, st) \<Rightarrow>
              if \<not> ok then (- 1, st) else (0, st\<lparr>t_durable := True\<rparr>))
         else case term_parse buf of
           None \<Rightarrow> (- 1, st)
         | Some t \<Rightarrow> (0, st\<lparr>t_term := t, t_durable := True\<rparr>))"

definition pc_term_plausible :: "u32 \<Rightarrow> term_st \<Rightarrow> bool \<times> term_st" where
  "pc_term_plausible seen st =
    (if seen \<le> t_term st \<or> seen - t_term st \<le> PC_TERM_MAX_JUMP then (True, st)
     else (False, st\<lparr>t_rejected := t_rejected st + 1\<rparr>))"

definition pc_term_observe :: "bool \<Rightarrow> u32 \<Rightarrow> term_st \<Rightarrow> int \<times> term_st" where
  "pc_term_observe io seen st =
    (if seen \<le> t_term st then (0, st)
     else case pc_term_plausible seen st of (ok, st) \<Rightarrow>
       if \<not> ok then (- 1, st)
       else case (if t_dir st then term_store io seen st else (True, st)) of (ok, st) \<Rightarrow>
         if \<not> ok then (- 1, st) else (1, st\<lparr>t_term := seen\<rparr>))"

definition pc_term_claim :: "bool \<Rightarrow> term_st \<Rightarrow> u32 \<times> term_st" where
  "pc_term_claim io st =
    (let nxt = t_term st + 1 in
     if nxt < t_term st then (0, st)
     else if t_dir st then
       (case term_store io nxt st of (ok, st) \<Rightarrow> if \<not> ok then (0, st) else (nxt, st\<lparr>t_term := nxt\<rparr>))
     else if t_durable st then (0, st)
     else (nxt, st\<lparr>t_term := nxt\<rparr>))"

definition PC_TERM_STALE :: int where "PC_TERM_STALE = - 1"
definition PC_TERM_SAME :: int where "PC_TERM_SAME = 0"
definition PC_TERM_AHEAD :: int where "PC_TERM_AHEAD = 1"

definition pc_term_cmp :: "u32 \<Rightarrow> u32 \<Rightarrow> int" where
  "pc_term_cmp mine theirs =
    (if theirs < mine then PC_TERM_STALE else if theirs > mine then PC_TERM_AHEAD else PC_TERM_SAME)"

definition pc_term_must_stepdown :: "bool \<Rightarrow> u32 \<Rightarrow> u32 \<Rightarrow> bool" where
  "pc_term_must_stepdown is_master mine theirs \<longleftrightarrow> is_master \<and> theirs > mine"

section \<open>A node through restarts\<close>

text \<open>A node with a state directory, and the terms it has claimed or adopted so far, newest
  first.  It may stop at any point, also between writing a term and taking it; it starts again
  when initialisation accepts the file, which it could open.\<close>

definition fresh_node :: term_st where
  "fresh_node = \<lparr>t_term = 0, t_durable = False, t_dir = False, t_file = None, t_rejected = 0\<rparr>"

inductive term_reach :: "term_st \<Rightarrow> u32 list \<Rightarrow> bool" where
  first: "pc_term_init True rd io True fresh_node = (0, st) \<Longrightarrow> term_reach st []"
| claim: "term_reach st h \<Longrightarrow> pc_term_claim io st = (t, st') \<Longrightarrow> t \<noteq> 0 \<Longrightarrow> term_reach st' (t # h)"
| no_claim: "term_reach st h \<Longrightarrow> pc_term_claim io st = (0, st') \<Longrightarrow> term_reach st' h"
| adopt: "term_reach st h \<Longrightarrow> pc_term_observe io seen st = (1, st') \<Longrightarrow> term_reach st' (seen # h)"
| ignore: "term_reach st h \<Longrightarrow> pc_term_observe io seen st = (rc, st') \<Longrightarrow> rc \<noteq> 1 \<Longrightarrow> term_reach st' h"
| restart: "term_reach st h \<Longrightarrow> pc_term_init True rd io True st = (0, st') \<Longrightarrow> term_reach st' h"
| torn: "term_reach st h \<Longrightarrow> t_term st < t \<Longrightarrow> term_store True t st = (True, st1) \<Longrightarrow>
    pc_term_init True rd io True st1 = (0, st') \<Longrightarrow> term_reach st' h"

definition term_inv :: "term_st \<Rightarrow> u32 list \<Rightarrow> bool" where
  "term_inv st h \<longleftrightarrow> t_dir st \<and> sorted_wrt (>) h \<and> (\<forall>t \<in> set h. t \<le> t_term st) \<and>
     (case t_file st of None \<Rightarrow> t_term st = 0 \<and> h = [] | Some b \<Rightarrow> b = term_text (t_term st))"

section \<open>The text reads back\<close>

lemma hexval_digit: "x < 16 \<Longrightarrow> hexval (hexdigit x) = Some x"
proof -
  assume "x < 16"
  then have "x = 0 \<or> x = 1 \<or> x = 2 \<or> x = 3 \<or> x = 4 \<or> x = 5 \<or> x = 6 \<or> x = 7 \<or> x = 8 \<or> x = 9 \<or> x = 10 \<or>
      x = 11 \<or> x = 12 \<or> x = 13 \<or> x = 14 \<or> x = 15" by arith
  then show ?thesis by (elim disjE; simp add: hexval_def hexdigit_def)
qed

lemma term_hex_snoc: "term_hex (xs @ [c]) a =
    (case term_hex xs a of None \<Rightarrow> None | Some w \<Rightarrow> map_option (\<lambda>x. push_bit 4 w OR of_nat x) (hexval c))"
  by (induction xs arbitrary: a) (auto split: option.splits)

lemma or_nibble: "r < 16 \<Longrightarrow> push_bit 4 (of_nat q) OR of_nat r = (of_nat (q * 16 + r) :: u64)"
proof -
  assume r: "r < 16"
  have "\<not> bit (of_nat r :: u64) n" if "4 \<le> n" for n
  proof -
    have "r div 2 ^ n = 0" using r that power_increasing [of 4 n "2 :: nat"] by (intro div_less) simp
    then show ?thesis using r by (simp add: bit_odd_unat unat_of_nat_small)
  qed
  then have "push_bit 4 (of_nat q :: u64) AND of_nat r = 0"
    by (intro bit_word_eqI) (auto simp: bit_simps)
  then have "push_bit 4 (of_nat q :: u64) OR of_nat r = push_bit 4 (of_nat q) + of_nat r"
    by (simp add: disjunctive_add_eq_or)
  then show ?thesis by (simp add: push_bit_eq_mult)
qed

lemma hex_back: "w < 16 ^ n \<Longrightarrow> term_hex (hex_digits n w) 0 = Some (of_nat w)"
proof (induction n arbitrary: w)
  case (Suc n)
  then have "w div 16 < 16 ^ n" by (simp add: less_mult_imp_div_less mult.commute)
  from Suc.IH [OF this] show ?case by (simp add: term_hex_snoc hexval_digit or_nibble)
qed simp

lemma length_hex [simp]: "length (hex_digits n w) = n"
  by (induction n arbitrary: w) auto

lemma digits_to_eol:
  "str2ll_digits cs v = Some w \<Longrightarrow> d + length cs \<le> 10 \<Longrightarrow> term_digits (cs @ 10 # r) d v = Some (d + length cs, w)"
  by (induction cs arbitrary: d v) (auto simp: is_digit_def split: if_splits)

lemma text_back: "term_parse (term_text t) = Some t"
proof -
  define ds where "ds = dec (unat t)"
  define tl where "tl = bytes_of ''check '' @ hex_digits 16 (unat (term_check t)) @ [10]"
  have t: "unat t < 2 ^ 32" using unsigned_less [of t, where 'a = nat] by simp
  then have "length ds \<le> 10" unfolding ds_def by (intro dec_length) simp_all
  then have d: "term_digits (ds @ 10 # tl) 0 0 = Some (length ds, ucast t)"
    using digits_to_eol [OF digits_dec [of "unat t"], of 0 tl] by (simp add: ds_def)
  have sh: "ds \<noteq> []" "length ds > 1 \<Longrightarrow> ds ! 0 \<noteq> 48"
    using dec_shape [of "unat t"] by (auto simp: ds_def hd_conv_nth dec.simps [of 0])
  have v: "\<not> (ucast t :: u64) > 0xFFFFFFFF" using t by (simp add: word_less_nat_alt unat_ucast_up)
  have u: "(ucast (ucast t :: u64) :: u32) = t" by (rule bit_word_eqI) (auto simp: bit_simps)
  have x: "term_hex (hex_digits 16 (unat (term_check t))) 0 = Some (term_check t)"
    using hex_back [of "unat (term_check t)" 16] unsigned_less [of "term_check t"] by simp
  have l: "length (bytes_of ''term '') = 5" "length (bytes_of ''check '') = 6" by (simp_all add: bytes_of_def)
  have tl: "length tl = 23" "take 6 tl = bytes_of ''check ''" "tl ! 22 = 10" "take 16 (drop 6 tl) = hex_digits 16 (unat (term_check t))"
    by (simp_all add: tl_def l nth_append)
  have "term_text t = TERM_HEADER @ 10 # bytes_of ''term '' @ ds @ 10 # tl" by (simp add: term_text_def ds_def tl_def)
  moreover have "ds ! 0 = (ds @ 10 # tl) ! 0" using sh(1) by (simp add: nth_append)
  ultimately show ?thesis
    using d sh v u x by (simp add: term_parse_def l tl Let_def nth_append)
qed

lemma text_length: "40 \<le> length (term_text t)" "length (term_text t) \<le> 128"
proof -
  have t: "unat t < 2 ^ 32" using unsigned_less [of t, where 'a = nat] by simp
  then have "length (dec (unat t)) \<le> 10" by (intro dec_length) simp_all
  then show "40 \<le> length (term_text t)" "length (term_text t) \<le> 128"
    by (simp_all add: term_text_def TERM_HEADER_def bytes_of_def)
qed

section \<open>Terms only go up\<close>

lemma init_text:
  assumes "t_file st = Some (term_text t)"
  shows "pc_term_init True True io True st = (0, st\<lparr>t_term := t, t_durable := True, t_dir := True\<rparr>)"
    "\<not> rd \<Longrightarrow> fst (pc_term_init True rd io True st) = - 1"
  using assms text_length [of t] by (simp_all add: pc_term_init_def Let_def text_back)

lemma inv_first: "pc_term_init True rd io True fresh_node = (0, st) \<Longrightarrow> term_inv st []"
  by (cases io) (auto simp: pc_term_init_def fresh_node_def term_store_def term_inv_def)

lemma next_above: "\<not> t + 1 < t \<Longrightarrow> t < t + (1 :: u32)"
  by (metis add_cancel_right_right linorder_less_linear zero_neq_one)

lemma inv_claim:
  assumes "term_inv st h" "pc_term_claim io st = (t, st')"
  shows "(t = 0 \<longrightarrow> term_inv st' h) \<and> (t \<noteq> 0 \<longrightarrow> term_inv st' (t # h))"
proof -
  have d: "t_dir st" using assms(1) by (simp add: term_inv_def)
  show ?thesis
  proof (cases "t_term st + 1 < t_term st \<or> \<not> io")
    case True
    then show ?thesis using assms d by (auto simp: pc_term_claim_def term_store_def Let_def split: if_splits)
  next
    case False
    then have up: "t_term st < t_term st + 1" by (intro next_above) simp
    then have "t_term st + 1 \<noteq> 0" by (metis word_not_simps(1))
    moreover have "t = t_term st + 1" "st' = st\<lparr>t_file := Some (term_text t), t_term := t\<rparr>"
      using False assms(2) d by (auto simp: pc_term_claim_def term_store_def Let_def)
    ultimately show ?thesis using assms(1) up by (auto simp: term_inv_def intro: order_le_less_trans less_imp_le)
  qed
qed

lemma inv_observe:
  assumes "term_inv st h" "pc_term_observe io seen st = (rc, st')"
  shows "(rc = 1 \<longrightarrow> term_inv st' (seen # h)) \<and> (rc \<noteq> 1 \<longrightarrow> term_inv st' h)"
proof -
  have d: "t_dir st" using assms(1) by (simp add: term_inv_def)
  have keep: "term_inv (st\<lparr>t_rejected := n\<rparr>) h" for n using assms(1) by (auto simp: term_inv_def split: option.splits)
  show ?thesis
    using assms d keep
    by (auto simp: pc_term_observe_def pc_term_plausible_def term_store_def term_inv_def split: if_splits option.splits
        intro: order_le_less_trans less_imp_le)
qed

lemma inv_restart:
  assumes "term_inv st h" "pc_term_init True rd io True st = (0, st')"
  shows "term_inv st' h"
proof (cases "t_file st")
  case None
  then show ?thesis
    using assms by (cases io) (auto simp: pc_term_init_def term_store_def term_inv_def)
next
  case (Some b)
  then have b: "t_file st = Some (term_text (t_term st))" using assms(1) by (simp add: term_inv_def)
  then have r: "rd = True" using init_text(2) [OF b, of rd io] assms(2) by (cases rd) simp_all
  have "st' = st\<lparr>t_term := t_term st, t_durable := True, t_dir := True\<rparr>"
    using init_text(1) [OF b, of io] assms(2) by (simp add: r)
  then show ?thesis using assms(1) by (simp add: term_inv_def b)
qed

lemma inv_torn:
  assumes "term_inv st h" "t_term st < t" "term_store True t st = (True, st1)" "pc_term_init True rd io True st1 = (0, st')"
  shows "term_inv st' h"
proof -
  have "t_dir st" using assms(1) by (simp add: term_inv_def)
  then have b: "t_file st1 = Some (term_text t)" "st1 = st\<lparr>t_file := Some (term_text t)\<rparr>"
    using assms(3) by (auto simp: term_store_def split: if_splits)
  have r: "rd = True" using init_text(2) [OF b(1), of rd io] assms(4) by (cases rd) simp_all
  have "st' = st\<lparr>t_file := Some (term_text t), t_term := t, t_durable := True, t_dir := True\<rparr>"
    using init_text(1) [OF b(1), of io] assms(4) b(2) by (simp add: r)
  then show ?thesis using assms(1,2) by (auto simp: term_inv_def intro: order_trans less_imp_le)
qed

lemma reach_term_inv: "term_reach st h \<Longrightarrow> term_inv st h"
proof (induction rule: term_reach.induct)
  case (claim st h io t st')
  then show ?case using inv_claim by blast
next
  case (no_claim st h io st')
  then show ?case using inv_claim by blast
next
  case (adopt st h io seen st')
  then show ?case using inv_observe by blast
next
  case (ignore st h io seen rc st')
  then show ?case using inv_observe by blast
qed (auto intro: inv_first inv_restart inv_torn)

text \<open>Opening the file may fail for another reason than its absence.  Initialisation then takes it
  for absent, starts from zero and writes that over the recorded term.\<close>

lemma unopened_file_forgets_term:
  "pc_term_init False True True True (fresh_node\<lparr>t_file := Some (term_text 7)\<rparr>) =
    (0, \<lparr>t_term = 0, t_durable = True, t_dir = True, t_file = Some (term_text 0), t_rejected = 0\<rparr>)"
  by (simp add: pc_term_init_def fresh_node_def term_store_def)

section \<open>Properties\<close>



text \<open>C38: The term file round-trips.  The text written for any term parses to that term, fits the
  print buffer and the read buffer, and so initialisation restores it.\<close>

theorem term_file_roundtrip:
  "term_parse (term_text t) = Some t \<and> length (term_text t) < 96 \<and>
   fst (pc_term_init True True io True (fresh_node\<lparr>t_file := Some (term_text t)\<rparr>)) = 0 \<and>
   t_term (snd (pc_term_init True True io True (fresh_node\<lparr>t_file := Some (term_text t)\<rparr>))) = t"
proof -
  have t: "unat t < 2 ^ 32" using unsigned_less [of t, where 'a = nat] by simp
  then have "length (dec (unat t)) \<le> 10" by (intro dec_length) simp_all
  then have "length (term_text t) < 96" by (simp add: term_text_def TERM_HEADER_def bytes_of_def)
  then show ?thesis using init_text(1) [of "fresh_node\<lparr>t_file := Some (term_text t)\<rparr>" t io] by (simp add: text_back)
qed

end
