(* ===== verification/Hashrec.thy ===== *)
theory Hashrec
  imports Codec Decimal "HOL-Library.AList"
begin

text \<open>
  \<open>src/src/hashrec.c\<close>: a hash as one value.  The record is a byte string; a pointer into
  it is an offset, \<open>None\<close> is the null pointer, and an output buffer is a byte string
  that the operation returns changed.  Lengths (\<open>size_t\<close>) are naturals: every length
  is bounded by \<open>PC_HR_MAX\<close> before it is used.  The record is shown to be the encoding
  of a list of fields, and every operation to be the list operation it stands for.
  \<open>pc_hr_incrbyfloat\<close> computes in \<open>long double\<close> and is not modelled.
\<close>

unbundle bit_operations_syntax

section \<open>Words in the record\<close>

definition hr_r16 :: "bytes \<Rightarrow> nat \<Rightarrow> u32" where
  "hr_r16 p i = ucast (p ! i) OR push_bit 8 (ucast (p ! (i + 1)))"

definition hr_r32 :: "bytes \<Rightarrow> nat \<Rightarrow> u32" where
  "hr_r32 p i = ucast (p ! i) OR push_bit 8 (ucast (p ! (i + 1))) OR
     push_bit 16 (ucast (p ! (i + 2))) OR push_bit 24 (ucast (p ! (i + 3)))"

definition hr_w16 :: "bytes \<Rightarrow> nat \<Rightarrow> u32 \<Rightarrow> bytes" where
  "hr_w16 p i v = (p[i := ucast v])[i + 1 := ucast (drop_bit 8 v)]"

definition hr_w32 :: "bytes \<Rightarrow> nat \<Rightarrow> u32 \<Rightarrow> bytes" where
  "hr_w32 p i v = (((p[i := ucast v])[i + 1 := ucast (drop_bit 8 v)])
     [i + 2 := ucast (drop_bit 16 v)])[i + 3 := ucast (drop_bit 24 v)]"

section \<open>Reading a record\<close>

definition PC_HR_HDR :: nat where "PC_HR_HDR = 8"
definition PC_HR_MAX :: nat where "PC_HR_MAX = 58000"
definition PC_HR_FIELD_MAX :: nat where "PC_HR_FIELD_MAX = 4096"
definition PC_HR_E_SIZE :: int where "PC_HR_E_SIZE = - 2"
definition PC_HR_E_NUM :: int where "PC_HR_E_NUM = - 3"
definition PC_HR_E_OVF :: int where "PC_HR_E_OVF = - 4"
definition PC_HR_E_ARG :: int where "PC_HR_E_ARG = - 5"

text \<open>The loop over the \<open>cnt\<close> entries: the offset behind the last one.\<close>

fun hr_walk :: "bytes \<Rightarrow> nat \<Rightarrow> nat \<Rightarrow> nat option" where
  "hr_walk r 0 off = Some off"
| "hr_walk r (Suc k) off =
    (let n = length r in
     if n - off < 6 then None
     else
       let fl = unat (hr_r16 r off); vl = unat (hr_r32 r (off + 2)) in
       if fl = 0 \<or> fl > PC_HR_FIELD_MAX \<or> n - off - 6 < fl \<or> n - off - 6 - fl < vl then None
       else hr_walk r k (off + (6 + fl + vl)))"

definition pc_hr_valid :: "bytes option \<Rightarrow> nat option" where
  "pc_hr_valid r =
    (case r of None \<Rightarrow> None
     | Some r \<Rightarrow>
         let n = length r in
         if n > PC_HR_MAX \<or> n < PC_HR_HDR \<or> r ! 0 \<noteq> 1 \<or> r ! 1 \<noteq> 0 \<or> r ! 2 \<noteq> 0 \<or> r ! 3 \<noteq> 0 then None
         else
           let cnt = unat (hr_r32 r 4) in
           case hr_walk r cnt PC_HR_HDR of
             None \<Rightarrow> None
           | Some off \<Rightarrow> if off \<noteq> n then None else Some cnt)"

text \<open>The offset and length of an entry's field and value, and the offset behind it.\<close>

definition pc_hr_next :: "bytes \<Rightarrow> nat \<Rightarrow> ((nat \<times> nat) \<times> (nat \<times> nat) \<times> nat) option" where
  "pc_hr_next r off =
    (let o' = (if off \<noteq> 0 then off else PC_HR_HDR) in
     if o' + 6 > length r then None
     else
       let flen = unat (hr_r16 r o'); vlen = unat (hr_r32 r (o' + 2))
       in Some ((o' + 6, flen), (o' + 6 + flen, vlen), o' + 6 + flen + vlen))"

function hr_scan :: "bytes \<Rightarrow> bytes \<Rightarrow> nat \<Rightarrow> nat" where
  "hr_scan r field off =
    (let at = (if off \<noteq> 0 then off else PC_HR_HDR) in
     case pc_hr_next r off of
       None \<Rightarrow> 0
     | Some ((f, fl), _, off') \<Rightarrow>
         if fl = length field \<and> window r f fl = field then at else hr_scan r field off')"
  by pat_completeness auto
termination
  by (relation "measure (\<lambda>(r, field, off). length r - off)")
    (auto simp: pc_hr_next_def PC_HR_HDR_def Let_def split: if_splits)

declare hr_scan.simps [simp del]

definition hr_find :: "bytes option \<Rightarrow> bytes \<Rightarrow> nat" where
  "hr_find r field =
    (case r of None \<Rightarrow> 0 | Some r \<Rightarrow> if length r < PC_HR_HDR then 0 else hr_scan r field 0)"

definition pc_hr_get :: "bytes option \<Rightarrow> bytes \<Rightarrow> bytes option" where
  "pc_hr_get r field =
    (let at = hr_find r field; p = the r in
     if at = 0 then None
     else Some (window p (at + 6 + unat (hr_r16 p at)) (unat (hr_r32 p (at + 2)))))"

section \<open>Editing a copy\<close>

definition hr_hdr :: "bytes \<Rightarrow> u32 \<Rightarrow> bytes" where
  "hr_hdr out cnt = hr_w32 (out[0 := 1, 1 := 0, 2 := 0, 3 := 0]) 4 cnt"

text \<open>The result is the length or the error code, the output buffer, and whether the field
  is new.\<close>

definition pc_hr_set :: "bytes option \<Rightarrow> bytes \<Rightarrow> bytes \<Rightarrow> bool \<Rightarrow> bytes \<Rightarrow> nat \<Rightarrow> int \<times> bytes \<times> bool" where
  "pc_hr_set r field val nx out cap =
    (let null = (case r of None \<Rightarrow> True | Some r \<Rightarrow> length r < PC_HR_HDR);
         p = (case r of None \<Rightarrow> [] | Some r \<Rightarrow> r);
         cnt = (if null then 0 else hr_r32 p 4);
         flen = length field; vlen = length val in
     if flen = 0 \<or> flen > PC_HR_FIELD_MAX then (PC_HR_E_ARG, out, False)
     else
       let n = (if null then PC_HR_HDR else length p);
           at = (if null then 0 else hr_find r field) in
       if at \<noteq> 0 \<and> nx then
         (if n > cap then (PC_HR_E_SIZE, out, False) else (int n, blit out 0 p, False))
       else if at \<noteq> 0 then
         let ofl = unat (hr_r16 p at); ovl = unat (hr_r32 p (at + 2));
             tail = at + 6 + ofl + ovl;
             need = n - ovl + vlen in
         if need > PC_HR_MAX \<or> need > cap then (PC_HR_E_SIZE, out, False)
         else
           let out = blit out 0 (window p 0 (at + 6 + ofl));
               out = hr_w32 out (at + 2) (of_nat vlen);
               out = blit out (at + 6 + ofl) val;
               out = blit out (at + 6 + ofl + vlen) (window p tail (n - tail))
           in (int need, out, False)
       else
         let need = n + 6 + flen + vlen in
         if need > PC_HR_MAX \<or> need > cap then (PC_HR_E_SIZE, out, False)
         else
           let out = (if null then out else blit out 0 p);
               out = hr_hdr out (cnt + 1);
               out = hr_w16 out n (of_nat flen);
               out = hr_w32 out (n + 2) (of_nat vlen);
               out = blit out (n + 6) field;
               out = blit out (n + 6 + flen) val
           in (int need, out, True))"

definition pc_hr_del :: "bytes option \<Rightarrow> bytes \<Rightarrow> bytes \<Rightarrow> nat \<Rightarrow> int \<times> bytes \<times> bool" where
  "pc_hr_del r field out cap =
    (let null = (case r of None \<Rightarrow> True | Some r \<Rightarrow> length r < PC_HR_HDR);
         p = (case r of None \<Rightarrow> [] | Some r \<Rightarrow> r); n = length p in
     if null then
       (if cap < PC_HR_HDR then (PC_HR_E_SIZE, out, False) else (int PC_HR_HDR, hr_hdr out 0, False))
     else
       let at = hr_find r field in
       if at = 0 then
         (if n > cap then (PC_HR_E_SIZE, out, False) else (int n, blit out 0 p, False))
       else
         let len = 6 + unat (hr_r16 p at) + unat (hr_r32 p (at + 2)); keep = n - len in
         if keep > cap then (PC_HR_E_SIZE, out, False)
         else
           let out = blit out 0 (window p 0 at);
               out = blit out at (window p (at + len) (n - at - len));
               out = hr_hdr out (hr_r32 p 4 - 1)
           in (int keep, out, True))"

section \<open>Counters\<close>

fun ll_digits :: "u64 \<Rightarrow> bytes \<Rightarrow> u64 \<Rightarrow> u64 option" where
  "ll_digits lim [] v = Some v"
| "ll_digits lim (c # cs) v =
    (if c < 48 \<or> c > 57 then None
     else if v > (lim - ucast (c - 48)) div 10 then None
     else ll_digits lim cs (v * 10 + ucast (c - 48)))"

definition strict_ll :: "bytes \<Rightarrow> u64 option" where
  "strict_ll s =
    (let n = length s in
     if n = 0 \<or> n > 20 then None
     else
       let neg = (s ! 0 = 45); i = (if neg then 1 else 0) in
       if neg \<and> n = 1 then None
       else if s ! i = 48 \<and> n - i > 1 then None
       else
         let lim = (if neg then 0x7FFFFFFFFFFFFFFF + 1 else 0x7FFFFFFFFFFFFFFF) in
         case ll_digits lim (drop i s) 0 of
           None \<Rightarrow> None
         | Some v \<Rightarrow>
             Some (if neg then (if v = 0x7FFFFFFFFFFFFFFF + 1 then 0x8000000000000000 else - v) else v))"

text \<open>\<open>long long\<close> is a 64-bit word read with \<open>sint\<close>; the second component is
  \<open>*result\<close>, \<open>None\<close> where it is not written.\<close>

definition pc_hr_incrby :: "bytes option \<Rightarrow> bytes \<Rightarrow> u64 \<Rightarrow> bytes \<Rightarrow> nat \<Rightarrow> int \<times> u64 option \<times> bytes" where
  "pc_hr_incrby r field by' out cap =
    (case (case pc_hr_get r field of None \<Rightarrow> Some 0 | Some v \<Rightarrow> strict_ll v) of
       None \<Rightarrow> (PC_HR_E_NUM, None, out)
     | Some cur \<Rightarrow>
         if (sint by' > 0 \<and> sint cur > (2 ^ 63 - 1) - sint by') \<or> (sint by' < 0 \<and> sint cur < - (2 ^ 63) - sint by')
         then (PC_HR_E_OVF, None, out)
         else
           let cur = cur + by' in
           case pc_hr_set r field (lld cur) False out cap of (rc, out, _) \<Rightarrow> (rc, Some cur, out))"

section \<open>What a record stands for\<close>

type_synonym fields = "(bytes \<times> bytes) list"

definition hr_entry :: "bytes \<times> bytes \<Rightarrow> bytes" where
  "hr_entry e = le16 (of_nat (length (fst e))) @ le32 (of_nat (length (snd e))) @ fst e @ snd e"

definition hr_body :: "fields \<Rightarrow> bytes" where
  "hr_body es = concat (map hr_entry es)"

definition hr_enc :: "fields \<Rightarrow> bytes" where
  "hr_enc es = [1, 0, 0, 0] @ le32 (of_nat (length es)) @ hr_body es"

definition field_ok :: "bytes \<Rightarrow> bool" where
  "field_ok f \<longleftrightarrow> 0 < length f \<and> length f \<le> PC_HR_FIELD_MAX"

definition hr_wf :: "fields \<Rightarrow> bool" where
  "hr_wf es \<longleftrightarrow> (\<forall>e \<in> set es. field_ok (fst e)) \<and> length (hr_enc es) \<le> PC_HR_MAX"

text \<open>A missing or short record stands for the empty hash.\<close>

definition hr_rep :: "bytes option \<Rightarrow> fields \<Rightarrow> bool" where
  "hr_rep r es \<longleftrightarrow> hr_wf es \<and> distinct (map fst es) \<and>
     (case r of None \<Rightarrow> es = []
      | Some r \<Rightarrow> if length r < PC_HR_HDR then es = [] else r = hr_enc es)"

section \<open>The words are the codec's\<close>

lemma hr_r16_g16: "hr_r16 p i = ucast (pc_g16 p i)"
  by (rule bit_word_eqI) (auto simp: hr_r16_def pc_g16_def bit_simps dest: bit_imp_le_length)

lemma hr_r32_g32: "hr_r32 p i = pc_g32 p i"
proof -
  have "i + 3 = i + 2 + 1" by simp
  then show ?thesis
    unfolding pc_g32_def hr_r16_g16 [symmetric] hr_r32_def hr_r16_def push_bit_or push_bit_push_bit
    by (simp add: or.assoc numeral_3_eq_3)
qed

lemma hr_w16_p16: "hr_w16 p i v = pc_p16 p i (ucast v)"
proof -
  have "(ucast (ucast v :: u16) :: u8) = ucast v" "(ucast (drop_bit 8 (ucast v :: u16)) :: u8) = ucast (drop_bit 8 v)"
    by (rule bit_word_eqI; auto simp: bit_simps)+
  then show ?thesis by (simp add: hr_w16_def pc_p16_def)
qed

lemma hr_w32_p32: "hr_w32 p i v = pc_p32 p i v"
proof -
  have "(ucast (ucast v :: u16) :: u8) = ucast v" "(ucast (drop_bit 8 (ucast v :: u16)) :: u8) = ucast (drop_bit 8 v)"
    "(ucast (ucast (drop_bit 16 v) :: u16) :: u8) = ucast (drop_bit 16 v)"
    "(ucast (drop_bit 8 (ucast (drop_bit 16 v) :: u16)) :: u8) = ucast (drop_bit 24 v)"
    by (rule bit_word_eqI; auto simp: bit_simps add.commute)+
  then show ?thesis by (simp add: hr_w32_def pc_p32_def pc_p16_def numeral_eq_Suc)
qed

interpretation hr32: wire_field hr_w32 hr_r32 le32 4
proof -
  have "hr_w32 = pc_p32" "hr_r32 = pc_g32" by (auto simp: fun_eq_iff hr_w32_p32 hr_r32_g32)
  then show "wire_field hr_w32 hr_r32 le32 4" using f32.wire_field_axioms by simp
qed

section \<open>Entries\<close>

lemma length_entry [simp]: "length (hr_entry e) = 6 + length (fst e) + length (snd e)"
  by (simp add: hr_entry_def)

lemma length_enc: "length (hr_enc es) = 8 + length (hr_body es)"
  by (simp add: hr_enc_def)

lemma hr_body_simps [simp]: "hr_body [] = []" "hr_body (e # es) = hr_entry e @ hr_body es"
  "hr_body (xs @ ys) = hr_body xs @ hr_body ys"
  by (simp_all add: hr_body_def)

lemma length_body: "6 * length es \<le> length (hr_body es)"
  by (induction es) auto

lemma wf_bounds:
  assumes "hr_wf es"
  shows "length es < 2 ^ 32" "e \<in> set es \<Longrightarrow> field_ok (fst e) \<and> length (fst e) < 2 ^ 16 \<and> length (snd e) < 2 ^ 32"
proof -
  have b: "length (hr_body es) < 58000" using assms by (simp add: hr_wf_def length_enc PC_HR_MAX_def)
  then show "length es < 2 ^ 32" using length_body [of es] by simp
  assume e: "e \<in> set es"
  then obtain xs ys where "es = xs @ e # ys" by (auto simp: in_set_conv_decomp)
  then have "length (snd e) < 2 ^ 32" using b by simp
  then show "field_ok (fst e) \<and> length (fst e) < 2 ^ 16 \<and> length (snd e) < 2 ^ 32"
    using assms e by (auto simp: hr_wf_def field_ok_def PC_HR_FIELD_MAX_def)
qed

lemma read_entry:
  assumes "length (fst e) < 2 ^ 16" "length (snd e) < 2 ^ 32" "o' = length pre" "r = pre @ hr_entry e @ post"
  shows "unat (hr_r16 r o') = length (fst e)" "unat (hr_r32 r (o' + 2)) = length (snd e)"
    "window r (o' + 6) (length (fst e)) = fst e"
    "window r (o' + 6 + length (fst e)) (length (snd e)) = snd e"
proof -
  have "pc_g16 r o' = of_nat (length (fst e))"
    using f16.get_enc [of pre "of_nat (length (fst e))"] by (simp add: assms(3,4) hr_entry_def)
  then show "unat (hr_r16 r o') = length (fst e)"
    using assms(1) by (simp add: hr_r16_g16 unat_ucast_up unat_of_nat_small)
  have "hr_r32 r (o' + 2) = of_nat (length (snd e))"
    using hr32.get_enc [of "pre @ le16 (of_nat (length (fst e)))" "of_nat (length (snd e))"]
    by (simp add: assms(3,4) hr_entry_def)
  then show "unat (hr_r32 r (o' + 2)) = length (snd e)"
    using assms(2) by (simp add: unat_of_nat_small)
  show "window r (o' + 6) (length (fst e)) = fst e" "window r (o' + 6 + length (fst e)) (length (snd e)) = snd e"
    by (simp_all add: assms(3,4) hr_entry_def window_def)
qed

lemma walk_enc:
  assumes "\<And>e. e \<in> set es \<Longrightarrow> field_ok (fst e) \<and> length (fst e) < 2 ^ 16 \<and> length (snd e) < 2 ^ 32"
  shows "hr_walk (pre @ hr_body es @ post) (length es) (length pre) = Some (length pre + length (hr_body es))"
  using assms
proof (induction es arbitrary: pre)
  case (Cons e es)
  let ?r = "pre @ hr_entry e @ hr_body es @ post"
  have e: "field_ok (fst e)" "length (fst e) < 2 ^ 16" "length (snd e) < 2 ^ 32" using Cons.prems by auto
  have "hr_walk ((pre @ hr_entry e) @ hr_body es @ post) (length es) (length (pre @ hr_entry e)) =
      Some (length (pre @ hr_entry e) + length (hr_body es))"
    using Cons by (intro Cons.IH) auto
  then show ?case
    using e read_entry(1,2) [OF e(2,3) refl refl, of pre "hr_body es @ post"]
    by (simp add: field_ok_def add.assoc)
qed simp

lemma walk_dec:
  assumes "hr_walk r k off = Some stop" "off \<le> length r"
  shows "\<exists>es. length es = k \<and> drop off r = hr_body es @ drop stop r \<and> stop = off + length (hr_body es) \<and>
    stop \<le> length r \<and> (\<forall>e \<in> set es. field_ok (fst e))"
  using assms
proof (induction k arbitrary: off)
  case (Suc k)
  define fl where "fl = unat (hr_r16 r off)"
  define vl where "vl = unat (hr_r32 r (off + 2))"
  define e where "e = (window r (off + 6) fl, window r (off + 6 + fl) vl)"
  have c: "6 \<le> length r - off" "fl \<noteq> 0" "fl \<le> PC_HR_FIELD_MAX" "fl \<le> length r - off - 6" "vl \<le> length r - off - 6 - fl"
    and w: "hr_walk r k (off + (6 + fl + vl)) = Some stop"
    using Suc.prems by (auto simp: Let_def fl_def vl_def split: if_splits)
  have le: "off + (6 + fl + vl) \<le> length r" using c by linarith
  obtain es where es: "length es = k" "drop (off + (6 + fl + vl)) r = hr_body es @ drop stop r"
    "stop = off + (6 + fl + vl) + length (hr_body es)" "stop \<le> length r" "\<forall>e \<in> set es. field_ok (fst e)"
    using Suc.IH [OF w le] by metis
  have l: "length (fst e) = fl" "length (snd e) = vl" using c by (simp_all add: e_def)
  have "unat (pc_g16 r off) = fl" by (simp add: fl_def hr_r16_g16 unat_ucast_up)
  then have "le16 (of_nat fl) = window r off 2" using f16.enc_get [of off r] c by force
  moreover have "le32 (of_nat vl) = window r (off + 2) 4" using hr32.enc_get [of "off + 2" r] c by (simp add: vl_def)
  ultimately have "hr_entry e = window r off 2 @ window r (off + 2) 4 @ window r (off + 6) fl @ window r (off + 6 + fl) vl"
    unfolding hr_entry_def l by (simp add: e_def)
  also have "\<dots> = window r off (6 + fl + vl)"
    using window_add [of r off 2 4] window_add [of r off 6 fl] window_add [of r off "6 + fl" vl] by (simp add: add.assoc)
  finally have "drop off r = hr_entry e @ drop (off + (6 + fl + vl)) r"
    by (metis append_take_drop_id drop_drop add.commute window_def)
  then show ?case using es l c by (intro exI [of _ "e # es"]) (auto simp: field_ok_def)
qed simp

section \<open>Records\<close>

lemma enc_head:
  assumes "hr_wf es"
  shows "hr_enc es ! 0 = 1" "hr_enc es ! 1 = 0" "hr_enc es ! 2 = 0" "hr_enc es ! 3 = 0"
    "hr_r32 (hr_enc es) 4 = of_nat (length es)"
proof -
  show "hr_r32 (hr_enc es) 4 = of_nat (length es)"
    using hr32.get_enc [of "[1, 0, 0, 0]" "of_nat (length es)" "hr_body es"] by (simp add: hr_enc_def eval_nat_numeral)
qed (simp_all add: hr_enc_def)

lemma scan_enc:
  assumes "\<And>e. e \<in> set es \<Longrightarrow> length (fst e) < 2 ^ 16 \<and> length (snd e) < 2 ^ 32"
    "PC_HR_HDR \<le> length pre" "off = length pre \<or> off = 0 \<and> length pre = PC_HR_HDR"
  shows "hr_scan (pre @ hr_body es) f off =
    (if f \<in> fst ` set es then length pre + length (hr_body (takeWhile (\<lambda>e. fst e \<noteq> f) es)) else 0)"
  using assms
proof (induction es arbitrary: pre off)
  case Nil
  then show ?case by (subst hr_scan.simps) (auto simp: pc_hr_next_def PC_HR_HDR_def)
next
  case (Cons e es)
  let ?r = "pre @ hr_entry e @ hr_body es"
  have o': "(if off \<noteq> 0 then off else PC_HR_HDR) = length pre" using Cons.prems by (auto simp: PC_HR_HDR_def)
  have e: "length (fst e) < 2 ^ 16" "length (snd e) < 2 ^ 32" using Cons.prems(1) by auto
  note rd = read_entry [OF e refl refl, of pre "hr_body es"]
  have n: "pc_hr_next ?r off = Some ((length pre + 6, length (fst e)), (length pre + 6 + length (fst e), length (snd e)), length (pre @ hr_entry e))"
    unfolding pc_hr_next_def o' Let_def rd(1,2) by simp
  have IH: "hr_scan ((pre @ hr_entry e) @ hr_body es) f (length (pre @ hr_entry e)) =
      (if f \<in> fst ` set es then length (pre @ hr_entry e) + length (hr_body (takeWhile (\<lambda>e. fst e \<noteq> f) es)) else 0)"
    using Cons.prems by (intro Cons.IH) auto
  have "hr_scan ?r f off = (if fst e = f then length pre else hr_scan ?r f (length (pre @ hr_entry e)))"
    unfolding hr_scan.simps [of ?r f off] o' Let_def n using rd(3) by auto
  then show ?case using IH by (auto simp: image_iff)
qed

lemma find_enc:
  assumes "hr_wf es"
  shows "hr_find (Some (hr_enc es)) f =
    (if f \<in> fst ` set es then PC_HR_HDR + length (hr_body (takeWhile (\<lambda>e. fst e \<noteq> f) es)) else 0)"
proof -
  have "hr_scan (([1, 0, 0, 0] @ le32 (of_nat (length es))) @ hr_body es) f 0 =
    (if f \<in> fst ` set es then length ([1, 0, 0, 0] @ le32 (of_nat (length es)) :: bytes) +
       length (hr_body (takeWhile (\<lambda>e. fst e \<noteq> f) es)) else 0)"
    using wf_bounds(2) [OF assms] by (intro scan_enc) (auto simp: PC_HR_HDR_def)
  then show ?thesis by (simp add: hr_find_def length_enc PC_HR_HDR_def) (simp add: hr_enc_def)
qed

lemma split_first:
  assumes "f \<in> fst ` set es"
  obtains v ys where "es = takeWhile (\<lambda>e. fst e \<noteq> f) es @ (f, v) # ys"
proof -
  have "dropWhile (\<lambda>e. fst e \<noteq> f) es \<noteq> []" using assms by (auto simp: dropWhile_eq_Nil_conv)
  then obtain e ys where d: "dropWhile (\<lambda>e. fst e \<noteq> f) es = e # ys" by (cases "dropWhile (\<lambda>e. fst e \<noteq> f) es") auto
  then have "fst e = f" using hd_dropWhile [of "\<lambda>e. fst e \<noteq> f" es] by auto
  then show thesis using that [of "snd e" ys] takeWhile_dropWhile_id [of "\<lambda>e. fst e \<noteq> f" es] d by (metis prod.collapse)
qed

text \<open>Where a field is: the record around its entry, and what the entry reads as.\<close>

lemma field_at:
  assumes "hr_wf es" "f \<in> fst ` set es"
  obtains xs ov ys A where "es = xs @ (f, ov) # ys" "f \<notin> fst ` set xs" "A = [1, 0, 0, 0] @ le32 (of_nat (length es)) @ hr_body xs"
    "hr_enc es = A @ hr_entry (f, ov) @ hr_body ys" "hr_find (Some (hr_enc es)) f = length A"
    "unat (hr_r16 (hr_enc es) (length A)) = length f" "unat (hr_r32 (hr_enc es) (length A + 2)) = length ov"
    "window (hr_enc es) (length A + 6 + length f) (length ov) = ov"
proof -
  obtain ov ys where es: "es = takeWhile (\<lambda>e. fst e \<noteq> f) es @ (f, ov) # ys" using split_first [OF assms(2)] .
  define xs where "xs = takeWhile (\<lambda>e. fst e \<noteq> f) es"
  define A :: bytes where "A = [1, 0, 0, 0] @ le32 (of_nat (length es)) @ hr_body xs"
  have es': "es = xs @ (f, ov) # ys" using es by (simp add: xs_def)
  have "f \<notin> fst ` set xs" by (auto simp: xs_def dest: set_takeWhileD)
  moreover have enc: "hr_enc es = A @ hr_entry (f, ov) @ hr_body ys" unfolding hr_enc_def A_def by (subst (2) es') simp
  moreover have "hr_find (Some (hr_enc es)) f = length A"
    using assms(2) by (simp add: find_enc [OF assms(1)] xs_def A_def PC_HR_HDR_def)
  moreover have "(f, ov) \<in> set es" by (subst es') simp
  then have b: "length (fst (f, ov)) < 2 ^ 16" "length (snd (f, ov)) < 2 ^ 32" using wf_bounds(2) [OF assms(1)] by auto
  note rd = read_entry [OF b refl enc]
  show thesis by (rule that [OF es' calculation(1) A_def enc calculation(3)]) (use rd in simp_all)
qed

lemma get_rep: "hr_rep r es \<Longrightarrow> pc_hr_get r f = map_of es f"
proof (cases "f \<in> fst ` set es")
  case True
  assume rep: "hr_rep r es"
  then have wf: "hr_wf es" and r: "r = Some (hr_enc es)" using True by (auto simp: hr_rep_def split: option.splits if_splits)
  from field_at [OF wf True] obtain xs ov ys A where f: "es = xs @ (f, ov) # ys" "f \<notin> fst ` set xs"
    "hr_find (Some (hr_enc es)) f = length A" "A = [1, 0, 0, 0] @ le32 (of_nat (length es)) @ hr_body xs"
    "unat (hr_r16 (hr_enc es) (length A)) = length f" "unat (hr_r32 (hr_enc es) (length A + 2)) = length ov"
    "window (hr_enc es) (length A + 6 + length f) (length ov) = ov" .
  have "map_of xs f = None" using f(2) by (simp add: map_of_eq_None_iff)
  then have "map_of es f = Some ov" unfolding f(1) by (simp add: map_add_def)
  moreover have "pc_hr_get r f = Some ov"
    unfolding pc_hr_get_def r Let_def f(3) option.sel f(5-7) by (simp add: f(4))
  ultimately show ?thesis by simp
next
  case False
  assume rep: "hr_rep r es"
  have "hr_find r f = 0"
  proof (cases r)
    case (Some p)
    then show ?thesis
    proof (cases "length p < PC_HR_HDR")
      case False
      then have "p = hr_enc es" "hr_wf es" using rep Some by (auto simp: hr_rep_def)
      then show ?thesis using find_enc \<open>f \<notin> fst ` set es\<close> Some by simp
    qed (simp add: hr_find_def)
  qed (simp add: hr_find_def)
  then show ?thesis using False by (simp add: pc_hr_get_def map_of_eq_None_iff [THEN iffD2])
qed

text \<open>Every record the reader accepts is the encoding of a list of fields, and every such
  encoding is accepted.\<close>

lemma valid_enc: "hr_wf es \<Longrightarrow> pc_hr_valid (Some (hr_enc es)) = Some (length es)"
proof -
  assume wf: "hr_wf es"
  have "hr_walk (([1, 0, 0, 0] @ le32 (of_nat (length es))) @ hr_body es @ []) (length es)
      (length ([1, 0, 0, 0] @ le32 (of_nat (length es)) :: bytes)) =
    Some (length ([1, 0, 0, 0] @ le32 (of_nat (length es)) :: bytes) + length (hr_body es))"
    by (rule walk_enc) (use wf_bounds(2) [OF wf] in blast)
  then have "hr_walk (hr_enc es) (length es) PC_HR_HDR = Some (length (hr_enc es))"
    by (simp add: hr_enc_def PC_HR_HDR_def)
  moreover have "unat (of_nat (length es) :: u32) = length es" using wf_bounds(1) [OF wf] by (simp add: unat_of_nat_small)
  ultimately show ?thesis
    using wf enc_head [OF wf] by (simp add: pc_hr_valid_def Let_def hr_wf_def) (simp add: length_enc PC_HR_HDR_def)
qed

lemma valid_dec:
  assumes "pc_hr_valid (Some r) = Some cnt"
  obtains es where "hr_wf es" "r = hr_enc es" "cnt = length es"
proof -
  have c: "length r \<le> PC_HR_MAX" "8 \<le> length r" "r ! 0 = 1" "r ! 1 = 0" "r ! 2 = 0" "r ! 3 = 0"
    and w: "hr_walk r cnt 8 = Some (length r)" and cnt: "cnt = unat (hr_r32 r 4)"
    using assms by (auto simp: pc_hr_valid_def Let_def PC_HR_HDR_def split: if_splits option.splits)
  obtain es where es: "length es = cnt" "drop 8 r = hr_body es" "\<forall>e \<in> set es. field_ok (fst e)"
    using walk_dec [OF w c(2)] by auto
  have "take 4 r = [1, 0, 0, 0]"
    using c by (auto intro!: nth_equalityI simp: less_Suc_eq numeral_eq_Suc)
  moreover have "le32 (of_nat (length es)) = take 4 (drop 4 r)"
    using hr32.enc_get [of 4 r] c(2) by (simp add: es(1) cnt window_def)
  ultimately have "hr_enc es = take 4 r @ take 4 (drop 4 r) @ drop 8 r" by (simp add: hr_enc_def es(2))
  also have "\<dots> = r" by (metis append_take_drop_id drop_drop numeral_Bit0 append.assoc)
  finally have "r = hr_enc es" by simp
  then show thesis using that es c(1) by (simp add: hr_wf_def)
qed

section \<open>The edited copy\<close>

lemma w16_at: "2 \<le> length ys \<Longrightarrow> i = length xs \<Longrightarrow> hr_w16 (xs @ ys) i v = xs @ le16 (ucast v) @ drop 2 ys"
  by (simp add: hr_w16_p16 f16.put_at)

lemma hdr_at: "length A = 8 \<Longrightarrow> hr_hdr (A @ R) c = [1, 0, 0, 0] @ le32 c @ R"
proof -
  assume A: "length A = 8"
  have "(A @ R)[0 := 1, 1 := 0, 2 := 0, 3 := 0] = [1, 0, 0, 0] @ drop 4 A @ R"
    using A by (auto simp: eval_nat_numeral length_Suc_conv)
  moreover have "hr_w32 ([1, 0, 0, 0] @ drop 4 A @ R) 4 c = [1, 0, 0, 0] @ le32 c @ drop 4 (drop 4 A @ R)"
    using A by (intro hr32.put_at) auto
  ultimately show ?thesis using A by (simp add: hr_hdr_def)
qed

lemma update_first: "f \<notin> fst ` set xs \<Longrightarrow> AList.update f v (xs @ (f, ov) # ys) = xs @ (f, v) # ys"
  by (induction xs) auto

lemma update_absent: "f \<notin> fst ` set es \<Longrightarrow> AList.update f v es = es @ [(f, v)]"
  by (induction es) auto

lemma fst_update: "fst ` set (AList.update f v es) = insert f (fst ` set es)"
  by (induction es) auto

lemma ucast_of_nat_16: "(ucast (of_nat n :: u32) :: u16) = of_nat n"
  by (simp add: word_unat_eq_iff unsigned_ucast_eq unsigned_of_nat)

text \<open>The record the caller holds, when it is there.\<close>

lemma rep_cases:
  assumes "hr_rep r es"
  obtains (null) "es = []" "r = None" | (short) p where "es = []" "r = Some p" "length p < PC_HR_HDR"
  | (full) "r = Some (hr_enc es)" "PC_HR_HDR \<le> length (hr_enc es)"
proof (cases r)
  case None
  then show thesis using assms by (intro null) (auto simp: hr_rep_def)
next
  case (Some p)
  then show thesis
  proof (cases "length p < PC_HR_HDR")
    case True
    then show thesis using assms Some by (intro short) (auto simp: hr_rep_def)
  next
    case False
    then have "p = hr_enc es" using assms Some by (simp add: hr_rep_def)
    then show thesis using Some False by (intro full) auto
  qed
qed

lemma set_append:
  assumes rep: "hr_rep r es" and f: "field_ok f" "f \<notin> fst ` set es" and cap: "cap \<le> length out"
  shows "pc_hr_set r f v nx out cap =
    (let es' = AList.update f v es; n = length (hr_enc es') in
     if n > PC_HR_MAX \<or> n > cap then (PC_HR_E_SIZE, out, False) else (int n, hr_enc es' @ drop n out, True))"
proof -
  define es' where "es' = AList.update f v es"
  define null where "null = (case r of None \<Rightarrow> True | Some r \<Rightarrow> length r < PC_HR_HDR)"
  define p where "p = (case r of None \<Rightarrow> [] | Some r \<Rightarrow> r)"
  define n where "n = (if null then PC_HR_HDR else length p)"
  define cnt where "cnt = (if null then 0 else hr_r32 p 4)"
  define o1 where "o1 = (if null then out else blit out 0 p)"
  have wf: "hr_wf es" using rep by (simp add: hr_rep_def)
  have es': "es' = es @ [(f, v)]" "length (hr_enc es') = n + 6 + length f + length v" and n: "n = 8 + length (hr_body es)"
    and cnt: "cnt = of_nat (length es)" and at: "(if null then 0 else hr_find r f) = 0"
    using rep by (cases rule: rep_cases; simp add: es'_def update_absent [OF f(2)] null_def n_def p_def cnt_def PC_HR_HDR_def length_enc
        enc_head [OF wf] find_enc [OF wf] f(2))+
  have set: "pc_hr_set r f v nx out cap =
    (if n + 6 + length f + length v > PC_HR_MAX \<or> n + 6 + length f + length v > cap then (PC_HR_E_SIZE, out, False)
     else (int (n + 6 + length f + length v),
       blit (blit (hr_w32 (hr_w16 (hr_hdr o1 (cnt + 1)) n (of_nat (length f))) (n + 2) (of_nat (length v))) (n + 6) f)
         (n + 6 + length f) v, True))"
    unfolding pc_hr_set_def null_def [symmetric] p_def [symmetric] cnt_def [symmetric] Let_def n_def [symmetric] at o1_def [symmetric]
    using f(1) by (simp add: field_ok_def)
  have "blit (blit (hr_w32 (hr_w16 (hr_hdr o1 (cnt + 1)) n (of_nat (length f))) (n + 2) (of_nat (length v))) (n + 6) f)
         (n + 6 + length f) v = hr_enc es' @ drop (length (hr_enc es')) out"
    if fits: "n + 6 + length f + length v \<le> cap"
  proof -
    have len: "n + 6 + length f + length v \<le> length out" using fits cap by simp
    have "\<exists>A. length A = 8 \<and> o1 = A @ hr_body es @ drop n out"
      using rep
    proof (cases rule: rep_cases)
      case full
      then show ?thesis by (intro exI [of _ "take 8 (hr_enc es)"])
        (auto simp: o1_def null_def p_def n_def blit_whole hr_enc_def)
    qed (use len n in \<open>auto simp: o1_def null_def intro!: exI [of _ "take 8 out"]\<close>)
    then obtain A where A: "length A = 8" "o1 = A @ hr_body es @ drop n out" by blast
    define P where "P = [1, 0, 0, 0] @ le32 (of_nat (length es')) @ hr_body es"
    have "hr_hdr o1 (cnt + 1) = P @ drop n out" unfolding A(2) hdr_at [OF A(1)] by (simp add: P_def cnt es' add.commute)
    moreover have "length P = n" by (simp add: P_def n)
    ultimately have "hr_w16 (hr_hdr o1 (cnt + 1)) n (of_nat (length f)) = (P @ le16 (of_nat (length f))) @ drop (n + 2) out"
      using len by (simp add: w16_at ucast_of_nat_16 add.commute)
    moreover have "hr_w32 ((P @ le16 (of_nat (length f))) @ drop (n + 2) out) (n + 2) (of_nat (length v)) =
        (P @ le16 (of_nat (length f)) @ le32 (of_nat (length v))) @ drop (n + 6) out"
      using len \<open>length P = n\<close> by (subst hr32.put_at) (simp_all add: add.commute)
    moreover have "blit ((P @ le16 (of_nat (length f)) @ le32 (of_nat (length v))) @ drop (n + 6) out) (n + 6) f =
        (P @ le16 (of_nat (length f)) @ le32 (of_nat (length v)) @ f) @ drop (n + 6 + length f) out"
      using \<open>length P = n\<close> by (subst blit_at) (simp_all add: add.commute)
    moreover have "blit ((P @ le16 (of_nat (length f)) @ le32 (of_nat (length v)) @ f) @ drop (n + 6 + length f) out) (n + 6 + length f) v =
        (P @ hr_entry (f, v)) @ drop (n + 6 + length f + length v) out"
      using \<open>length P = n\<close> by (subst blit_at) (simp_all add: add.commute hr_entry_def)
    moreover have "hr_enc es' = P @ hr_entry (f, v)" by (simp add: hr_enc_def P_def es'(1))
    ultimately have "blit (blit (hr_w32 (hr_w16 (hr_hdr o1 (cnt + 1)) n (of_nat (length f))) (n + 2) (of_nat (length v))) (n + 6) f)
         (n + 6 + length f) v = hr_enc es' @ drop (n + 6 + length f + length v) out" by (simp only:)
    then show ?thesis by (simp only: es'(2))
  qed
  then show ?thesis unfolding set es'_def [symmetric] Let_def es'(2) by simp
qed

lemma set_replace:
  assumes rep: "hr_rep r es" and f: "field_ok f" "f \<in> fst ` set es" and cap: "cap \<le> length out"
  shows "pc_hr_set r f v False out cap =
    (let es' = AList.update f v es; n = length (hr_enc es') in
     if n > PC_HR_MAX \<or> n > cap then (PC_HR_E_SIZE, out, False) else (int n, hr_enc es' @ drop n out, False))"
proof -
  have wf: "hr_wf es" and r: "r = Some (hr_enc es)" "\<not> length (hr_enc es) < PC_HR_HDR"
    using rep f(2) by (auto simp: hr_rep_def length_enc PC_HR_HDR_def split: option.splits if_splits)
  from field_at [OF wf f(2)] obtain xs ov ys A where es: "es = xs @ (f, ov) # ys" "f \<notin> fst ` set xs"
    and A: "A = [1, 0, 0, 0] @ le32 (of_nat (length es)) @ hr_body xs"
    and enc: "hr_enc es = A @ hr_entry (f, ov) @ hr_body ys" and at: "hr_find (Some (hr_enc es)) f = length A"
    and rd: "unat (hr_r16 (hr_enc es) (length A)) = length f" "unat (hr_r32 (hr_enc es) (length A + 2)) = length ov" by metis
  define k where "k = length A + 6 + length f"
  define es' where "es' = AList.update f v es"
  define out' where "out' = blit (blit (hr_w32 (blit out 0 (window (hr_enc es) 0 k)) (length A + 2) (of_nat (length v))) k v) (k + length v)
         (window (hr_enc es) (k + length ov) (length (hr_enc es) - (k + length ov)))"
  have es': "es' = xs @ (f, v) # ys" "hr_enc es' = A @ hr_entry (f, v) @ hr_body ys"
    using es by (simp_all add: es'_def update_first A hr_enc_def)
  have n: "length (hr_enc es) - length ov + length v = length (hr_enc es')" by (simp add: enc es'(2))
  have A0: "length A \<noteq> 0" by (simp add: A)
  have set: "pc_hr_set r f v False out cap =
    (if length (hr_enc es') > PC_HR_MAX \<or> length (hr_enc es') > cap then (PC_HR_E_SIZE, out, False)
     else (int (length (hr_enc es')), out', False))"
    using f(1) A0 r(2) by (simp add: pc_hr_set_def r(1) at Let_def rd n out'_def k_def [symmetric] field_ok_def
        del: add_2_eq_Suc add_2_eq_Suc')
  have "window (hr_enc es) 0 k = (A @ le16 (of_nat (length f))) @ le32 (of_nat (length ov)) @ f"
    "window (hr_enc es) (k + length ov) (length (hr_enc es) - (k + length ov)) = hr_body ys"
    by (simp_all add: enc k_def window_def hr_entry_def)
  moreover have "blit out 0 ((A @ le16 (of_nat (length f))) @ le32 (of_nat (length ov)) @ f) =
      (A @ le16 (of_nat (length f))) @ le32 (of_nat (length ov)) @ f @ drop k out"
    by (simp add: blit_whole k_def add.assoc)
  moreover have "hr_w32 ((A @ le16 (of_nat (length f))) @ le32 (of_nat (length ov)) @ f @ drop k out) (length A + 2) (of_nat (length v)) =
      (A @ le16 (of_nat (length f)) @ le32 (of_nat (length v)) @ f) @ drop k out"
    by (subst hr32.put_at) simp_all
  moreover have "blit ((A @ le16 (of_nat (length f)) @ le32 (of_nat (length v)) @ f) @ drop k out) k v =
      (A @ hr_entry (f, v)) @ drop (k + length v) out"
    by (subst blit_at) (simp_all add: k_def hr_entry_def add.commute)
  moreover have "blit ((A @ hr_entry (f, v)) @ drop (k + length v) out) (k + length v) (hr_body ys) = hr_enc es' @ drop (length (hr_enc es')) out"
    by (subst blit_at) (simp_all add: k_def es'(2) ac_simps)
  ultimately have "out' = hr_enc es' @ drop (length (hr_enc es')) out" by (simp only: out'_def)
  then show ?thesis unfolding set es'_def [symmetric] Let_def by simp
qed

lemma set_kept:
  assumes rep: "hr_rep r es" and f: "field_ok f" "f \<in> fst ` set es"
  shows "pc_hr_set r f v True out cap =
    (let n = length (hr_enc es) in if n > cap then (PC_HR_E_SIZE, out, False) else (int n, hr_enc es @ drop n out, False))"
proof -
  have wf: "hr_wf es" and r: "r = Some (hr_enc es)" "\<not> length (hr_enc es) < PC_HR_HDR"
    using rep f(2) by (auto simp: hr_rep_def length_enc PC_HR_HDR_def split: option.splits if_splits)
  then show ?thesis using f by (simp add: pc_hr_set_def Let_def find_enc field_ok_def blit_whole PC_HR_HDR_def)
qed

lemma delete_first:
  "distinct (map fst (xs @ (f, ov) # ys)) \<Longrightarrow> AList.delete f (xs @ (f, ov) # ys) = xs @ ys"
  by (induction xs) auto

lemma del_rep:
  assumes rep: "hr_rep r es" and cap: "cap \<le> length out"
  shows "pc_hr_del r f out cap =
    (let es' = AList.delete f es; n = length (hr_enc es') in
     if n > cap then (PC_HR_E_SIZE, out, False) else (int n, hr_enc es' @ drop n out, f \<in> fst ` set es))"
  using rep
proof (cases rule: rep_cases)
  case full
  have wf: "hr_wf es" and dist: "distinct (map fst es)" using rep by (auto simp: hr_rep_def)
  show ?thesis
  proof (cases "f \<in> fst ` set es")
    case False
    then have "AList.delete f es = es" by (auto simp: AList.delete_eq filter_id_conv image_iff)
    then show ?thesis using full False by (simp add: pc_hr_del_def Let_def find_enc [OF wf] blit_whole)
  next
    case True
    from field_at [OF wf True] obtain xs ov ys A where es: "es = xs @ (f, ov) # ys"
      and A: "A = [1, 0, 0, 0] @ le32 (of_nat (length es)) @ hr_body xs"
      and enc: "hr_enc es = A @ hr_entry (f, ov) @ hr_body ys" and at: "hr_find (Some (hr_enc es)) f = length A"
      and rd: "unat (hr_r16 (hr_enc es) (length A)) = length f" "unat (hr_r32 (hr_enc es) (length A + 2)) = length ov" by metis
    define es' where "es' = AList.delete f es"
    define len where "len = 6 + length f + length ov"
    define out' where "out' = hr_hdr (blit (blit out 0 (window (hr_enc es) 0 (length A))) (length A)
       (window (hr_enc es) (length A + len) (length (hr_enc es) - length A - len))) (hr_r32 (hr_enc es) 4 - 1)"
    have es': "es' = xs @ ys" using delete_first dist by (simp add: es'_def es)
    have n: "length (hr_enc es) - len = length (hr_enc es')"
      by (simp add: length_enc es' len_def) (simp add: es)
    have A0: "length A \<noteq> 0" by (simp add: A)
    have del: "pc_hr_del r f out cap =
      (if length (hr_enc es') > cap then (PC_HR_E_SIZE, out, False) else (int (length (hr_enc es')), out', True))"
      using full A0 by (simp add: pc_hr_del_def Let_def at rd n out'_def len_def [symmetric] del: add_2_eq_Suc add_2_eq_Suc')
    have c: "hr_r32 (hr_enc es) 4 - 1 = of_nat (length es')" unfolding enc_head(5) [OF wf] by (simp add: es es')
    have "window (hr_enc es) 0 (length A) = A"
      "window (hr_enc es) (length A + len) (length (hr_enc es) - length A - len) = hr_body ys"
      by (simp_all add: enc len_def window_def hr_entry_def)
    moreover have "blit (blit out 0 A) (length A) (hr_body ys) =
        ([1, 0, 0, 0] @ le32 (of_nat (length es))) @ hr_body es' @ drop (length A + length (hr_body ys)) out"
      unfolding blit_whole by (subst blit_at) (simp_all add: A es' add.commute)
    moreover have "hr_hdr (([1, 0, 0, 0] @ le32 (of_nat (length es))) @ R) (of_nat (length es')) = [1, 0, 0, 0] @ le32 (of_nat (length es')) @ R" for R
      by (rule hdr_at) simp
    moreover have "length A + length (hr_body ys) = length (hr_enc es')" by (simp add: A es' hr_enc_def)
    ultimately have "out' = hr_enc es' @ drop (length (hr_enc es')) out" unfolding out'_def c by (simp add: hr_enc_def)
    then show ?thesis unfolding del es'_def [symmetric] Let_def using True by simp
  qed
next
  case null
  have "hr_hdr (take 8 out @ drop 8 out) 0 = [1, 0, 0, 0] @ le32 0 @ drop 8 out" if "8 \<le> cap"
    using that cap by (intro hdr_at) simp
  then show ?thesis using null by (simp add: pc_hr_del_def hr_enc_def PC_HR_HDR_def Let_def)
next
  case short
  have "hr_hdr (take 8 out @ drop 8 out) 0 = [1, 0, 0, 0] @ le32 0 @ drop 8 out" if "8 \<le> cap"
    using that cap by (intro hdr_at) simp
  then show ?thesis using short by (simp add: pc_hr_del_def hr_enc_def PC_HR_HDR_def Let_def)
qed

section \<open>Decimal counters\<close>

lemma digit_step:
  fixes v lim :: u64
  assumes "d < 10" "9 \<le> lim"
  shows "v > (lim - of_nat d) div 10 \<longleftrightarrow> unat lim < unat v * 10 + d"
    and "unat v * 10 + d \<le> unat lim \<Longrightarrow> unat (v * 10 + of_nat d) = unat v * 10 + d"
proof -
  have d: "unat (of_nat d :: u64) = d" using assms(1) by (simp add: unat_of_nat_small)
  have l: "9 \<le> unat lim" "unat lim < 2 ^ 64" using assms(2) by (simp_all add: word_le_nat_alt unsigned_less [of lim, simplified])
  have "unat (lim - of_nat d) = unat lim - d" using unat_sub [of "of_nat d" lim] l assms(1) by (simp add: word_le_nat_alt d)
  then show "v > (lim - of_nat d) div 10 \<longleftrightarrow> unat lim < unat v * 10 + d"
    using l assms(1) by (simp add: word_less_nat_alt unat_div) linarith
  assume a: "unat v * 10 + d \<le> unat lim"
  have "unat (v * 10) = unat v * 10" using a l by (subst unat_mult_small) simp_all
  then show "unat (v * 10 + of_nat d) = unat v * 10 + d" using a l by (subst unat_add_small) (simp_all add: d)
qed

lemma ll_digits_value:
  assumes "9 \<le> lim" "unat v \<le> unat lim"
  shows "ll_digits lim cs v =
    (if (\<forall>c \<in> set cs. is_digit c) \<and> dval cs (unat v) \<le> unat lim then Some (of_nat (dval cs (unat v))) else None)"
  using assms
proof (induction cs arbitrary: v)
  case (Cons c cs)
  show ?case
  proof (cases "is_digit c")
    case True
    obtain d where d: "d < 10" "c = 48 + of_nat d" "unat (c - 48) = d" using digit_value [OF True] .
    have u: "(ucast (c - 48) :: u64) = of_nat d" using digit_byte(2) [OF d(1)] d(2) by simp
    note st = digit_step [OF d(1) assms(1), of v]
    show ?thesis
    proof (cases "unat v * 10 + d \<le> unat lim")
      case True
      then show ?thesis using Cons.IH [OF assms(1)] st \<open>is_digit c\<close> by (auto simp: u d(3) is_digit_def)
    next
      case False
      then have "unat lim < dval cs (unat v * 10 + d)" using dval_mono [of "unat v * 10 + d" cs] by simp
      then show ?thesis using st(1) False \<open>is_digit c\<close> by (auto simp: u d(3) is_digit_def)
    qed
  qed (auto simp: is_digit_def)
qed simp

lemma strict_ll_lld: "strict_ll (lld v) = Some v"
proof -
  define m where "m = (if sint v < 0 then nat (- sint v) else nat (sint v))"
  note r = sint_range [of v]
  have len: "length (dec m) \<le> 19" using r by (intro dec_length) (auto simp: m_def)
  note sh = dec_shape [of m]
  then obtain c cs where c: "dec m = c # cs" by (cases "dec m") auto
  have c45: "c \<noteq> 45" using sh c digit_not_sign by auto
  have z: "c = 48 \<Longrightarrow> cs = []" using sh by (auto simp: c dec.simps [of 0] dest: arg_cong [of _ _ dec])
  show ?thesis
  proof (cases "sint v < 0")
    case True
    have "lld v = 45 # dec m" "m \<le> 2 ^ 63" "(of_nat m :: u64) = - v" using True r by (simp_all add: lld_def m_def)
    moreover have "ll_digits 0x8000000000000000 (dec m) 0 = Some (of_nat m)"
      using sh \<open>m \<le> 2 ^ 63\<close> by (subst ll_digits_value) (simp_all add: word_le_nat_alt)
    moreover have "- v = 0x8000000000000000 \<Longrightarrow> v = 0x8000000000000000"
      by (drule arg_cong [of _ _ uminus]) simp
    ultimately show ?thesis using len z unfolding c by (auto simp: strict_ll_def Let_def)
  next
    case False
    have "lld v = dec m" "m < 2 ^ 63" "(of_nat m :: u64) = v" using False r by (simp_all add: lld_def m_def)
    moreover have "ll_digits 0x7FFFFFFFFFFFFFFF (dec m) 0 = Some (of_nat m)"
      using sh \<open>m < 2 ^ 63\<close> by (subst ll_digits_value) (simp_all add: word_le_nat_alt)
    ultimately show ?thesis using len z c45 unfolding c by (auto simp: strict_ll_def Let_def)
  qed
qed

text \<open>The texts it accepts: the canonical one of each number, and \<open>-0\<close>.\<close>

lemma strict_ll_iff: "strict_ll s = Some v \<longleftrightarrow> s = lld v \<or> s = [45, 48] \<and> v = 0"
proof
  assume s: "strict_ll s = Some v"
  then have "s \<noteq> []" by (auto simp: strict_ll_def)
  show "s = lld v \<or> s = [45, 48] \<and> v = 0"
  proof (cases "s ! 0 = 45")
    case True
    obtain cs where s': "s = 45 # cs" using \<open>s \<noteq> []\<close> True by (cases s) auto
    then have c: "cs \<noteq> []" "hd cs \<noteq> 48 \<or> \<not> 1 < length cs" "ll_digits 0x8000000000000000 cs 0 = Some (- v)"
      using s by (auto simp: strict_ll_def Let_def hd_conv_nth split: if_splits option.splits)
    define m where "m = dval cs 0"
    have d: "\<forall>c \<in> set cs. is_digit c" "m \<le> 2 ^ 63" "- v = of_nat m"
      using c(3) ll_digits_value [of "0x8000000000000000" 0 cs] by (auto simp: word_le_nat_alt m_def split: if_splits)
    have "hd cs \<noteq> 48 \<or> length cs = 1" using c(1,2) by (cases cs) auto
    then have cs: "cs = dec m" using dec_dval [OF d(1) c(1)] by (simp add: m_def)
    have v: "v = word_of_int (- int m)" using d(3) by (metis minus_minus of_int_minus of_int_of_nat_eq)
    have "sint v = - int m" unfolding v using d(2) by (intro sint_small) simp_all
    then show ?thesis using v s' cs by (cases "m = 0") (simp_all add: lld_def dec.simps [of 0])
  next
    case False
    then have c: "hd s \<noteq> 48 \<or> \<not> 1 < length s" "ll_digits 0x7FFFFFFFFFFFFFFF s 0 = Some v"
      using s \<open>s \<noteq> []\<close> by (auto simp: strict_ll_def Let_def hd_conv_nth split: if_splits option.splits)
    define m where "m = dval s 0"
    have d: "\<forall>c \<in> set s. is_digit c" "m < 2 ^ 63" "v = of_nat m"
      using c(2) ll_digits_value [of "0x7FFFFFFFFFFFFFFF" 0 s] by (auto simp: word_le_nat_alt m_def split: if_splits)
    have "hd s \<noteq> 48 \<or> length s = 1" using c(1) \<open>s \<noteq> []\<close> by (cases s) auto
    then have cs: "s = dec m" using dec_dval [OF d(1) \<open>s \<noteq> []\<close>] by (simp add: m_def)
    have v: "v = word_of_int (int m)" using d(3) by simp
    have "sint v = int m" unfolding v using d(2) by (intro sint_small) simp_all
    then show ?thesis using cs by (simp add: lld_def)
  qed
next
  have "strict_ll [45, 48] = Some 0" by (simp add: strict_ll_def)
  then show "s = lld v \<or> s = [45, 48] \<and> v = 0 \<Longrightarrow> strict_ll s = Some v" by (auto simp: strict_ll_lld)
qed

lemma set_rep:
  assumes "hr_rep r es" "field_ok f" "cap \<le> length out"
  shows "pc_hr_set r f v nx out cap =
    (let es' = (if nx \<and> f \<in> fst ` set es then es else AList.update f v es); n = length (hr_enc es') in
     if n > PC_HR_MAX \<or> n > cap then (PC_HR_E_SIZE, out, False) else (int n, hr_enc es' @ drop n out, f \<notin> fst ` set es))"
proof (cases "f \<in> fst ` set es")
  case True
  have "length (hr_enc es) \<le> PC_HR_MAX" using assms(1) by (simp add: hr_rep_def hr_wf_def)
  then show ?thesis
    using set_replace [OF assms(1,2) True assms(3)] set_kept [OF assms(1,2) True] True by (cases nx) (simp_all add: Let_def)
qed (use set_append [OF assms(1,2) _ assms(3)] in \<open>simp add: Let_def\<close>)

lemma rep_update:
  assumes "hr_rep r es" "field_ok f" "length (hr_enc (AList.update f v es)) \<le> PC_HR_MAX"
  shows "hr_rep (Some (hr_enc (AList.update f v es))) (AList.update f v es)"
proof -
  have "field_ok (fst e)" if "e \<in> set (AList.update f v es)" for e
  proof -
    have "fst e \<in> insert f (fst ` set es)" using that by (metis fst_update imageI)
    then show ?thesis using assms(1,2) by (auto simp: hr_rep_def hr_wf_def)
  qed
  then show ?thesis using assms by (auto simp: hr_rep_def hr_wf_def distinct_update length_enc PC_HR_HDR_def)
qed

lemma rep_delete: "hr_rep r es \<Longrightarrow> hr_rep (Some (hr_enc (AList.delete f es))) (AList.delete f es)"
proof -
  assume rep: "hr_rep r es"
  have "length (hr_body (AList.delete f es)) \<le> length (hr_body es)" "set (AList.delete f es) \<subseteq> set es"
    by (induction es) auto
  then show ?thesis
    using rep by (auto simp: hr_rep_def hr_wf_def length_enc PC_HR_HDR_def distinct_delete)
qed

section \<open>Properties\<close>

text \<open>C23: The validator is exact.  It accepts a byte string, and reports a count, precisely when
  the string is the encoding of that many fields, each with a name of 1 to 4096 bytes, no longer than the
  ceiling.  Nothing else passes, whatever bytes a peer or a log delivers.\<close>

theorem hash_record_valid_iff:
  "pc_hr_valid (Some r) = Some cnt \<longleftrightarrow> (\<exists>es. hr_wf es \<and> r = hr_enc es \<and> cnt = length es)"
proof
  assume "pc_hr_valid (Some r) = Some cnt"
  then show "\<exists>es. hr_wf es \<and> r = hr_enc es \<and> cnt = length es" by (rule valid_dec) blast
qed (auto simp: valid_enc)

text \<open>C22: The hash operations on the bytes are the operations on the list of fields.  For a record that holds
  the fields \<open>es\<close>: a read finds what the list has; a set on every branch (bad name, kept under
  \<open>nx\<close>, replaced in place, appended, too large) returns the length and the flag and leaves in the
  buffer the encoding of the updated list; a delete likewise; and the new record again holds
  its list, with no field twice.\<close>

theorem hash_ops_refine_fields:
  assumes "hr_rep r es" "cap \<le> length out"
  shows "pc_hr_get r f = map_of es f \<and>
    (\<not> field_ok f \<longrightarrow> pc_hr_set r f v nx out cap = (PC_HR_E_ARG, out, False)) \<and>
    (field_ok f \<longrightarrow>
      (let es' = (if nx \<and> map_of es f \<noteq> None then es else AList.update f v es); n = length (hr_enc es') in
       if n > PC_HR_MAX \<or> n > cap then pc_hr_set r f v nx out cap = (PC_HR_E_SIZE, out, False)
       else pc_hr_set r f v nx out cap = (int n, hr_enc es' @ drop n out, map_of es f = None) \<and> hr_rep (Some (hr_enc es')) es')) \<and>
    (let es' = AList.delete f es; n = length (hr_enc es') in
     if n > cap then pc_hr_del r f out cap = (PC_HR_E_SIZE, out, False)
     else pc_hr_del r f out cap = (int n, hr_enc es' @ drop n out, map_of es f \<noteq> None) \<and> hr_rep (Some (hr_enc es')) es')"
proof -
  have m: "map_of es f = None \<longleftrightarrow> f \<notin> fst ` set es" by (rule map_of_eq_None_iff)
  have "\<not> field_ok f \<longrightarrow> pc_hr_set r f v nx out cap = (PC_HR_E_ARG, out, False)"
    by (auto simp: field_ok_def pc_hr_set_def Let_def)
  moreover have "hr_rep (Some (hr_enc es)) es" using assms(1) by (auto simp: hr_rep_def length_enc PC_HR_HDR_def)
  ultimately show ?thesis
    using get_rep [OF assms(1), of f] set_rep [OF assms(1) _ assms(2), of f v nx] del_rep [OF assms, of f]
      rep_update [OF assms(1), of f v] rep_delete [OF assms(1), of f]
    by (auto simp: m Let_def)
qed

theorem hash_ops_refine_fields_witness:
  "hr_rep (Some (hr_enc [([97], [49])])) [([97], [49])] \<and>
   pc_hr_get (Some (hr_enc [([97], [49])])) [97] = Some [49] \<and>
   fst (pc_hr_set (Some (hr_enc [([97], [49])])) [98] [50] False (replicate 24 0) 24) = 24"
proof -
  have r: "hr_rep (Some (hr_enc [([97], [49])])) [([97], [49])]"
    by (simp add: hr_rep_def hr_wf_def length_enc field_ok_def PC_HR_FIELD_MAX_def PC_HR_MAX_def PC_HR_HDR_def)
  show ?thesis
    using r hash_ops_refine_fields [OF r, of 24 "replicate 24 0" "[97]" "[49]" False]
      hash_ops_refine_fields [OF r, of 24 "replicate 24 0" "[98]" "[50]" False]
    by (simp add: field_ok_def PC_HR_FIELD_MAX_def PC_HR_MAX_def length_enc Let_def)
qed



end
