(* ===== verification/Slot.thy ===== *)
theory Slot
  imports Tables
begin

text \<open>
  Key to slot (\<open>src/src/pc_slot.h\<close>): the eight constant CRC tables, the slice-by-8
  checksum and the hash-tag rule.  The reference is the bitwise CRC16-CCITT (polynomial
  0x1021, zero seed).
\<close>

unbundle bit_operations_syntax

section \<open>The tables\<close>

definition crc16_tab0 :: "u16 list" where
  "crc16_tab0 = [
    0x0000, 0x1021, 0x2042, 0x3063, 0x4084, 0x50A5, 0x60C6, 0x70E7, 0x8108, 0x9129, 0xA14A, 0xB16B, 0xC18C, 0xD1AD, 0xE1CE, 0xF1EF,
    0x1231, 0x0210, 0x3273, 0x2252, 0x52B5, 0x4294, 0x72F7, 0x62D6, 0x9339, 0x8318, 0xB37B, 0xA35A, 0xD3BD, 0xC39C, 0xF3FF, 0xE3DE,
    0x2462, 0x3443, 0x0420, 0x1401, 0x64E6, 0x74C7, 0x44A4, 0x5485, 0xA56A, 0xB54B, 0x8528, 0x9509, 0xE5EE, 0xF5CF, 0xC5AC, 0xD58D,
    0x3653, 0x2672, 0x1611, 0x0630, 0x76D7, 0x66F6, 0x5695, 0x46B4, 0xB75B, 0xA77A, 0x9719, 0x8738, 0xF7DF, 0xE7FE, 0xD79D, 0xC7BC,
    0x48C4, 0x58E5, 0x6886, 0x78A7, 0x0840, 0x1861, 0x2802, 0x3823, 0xC9CC, 0xD9ED, 0xE98E, 0xF9AF, 0x8948, 0x9969, 0xA90A, 0xB92B,
    0x5AF5, 0x4AD4, 0x7AB7, 0x6A96, 0x1A71, 0x0A50, 0x3A33, 0x2A12, 0xDBFD, 0xCBDC, 0xFBBF, 0xEB9E, 0x9B79, 0x8B58, 0xBB3B, 0xAB1A,
    0x6CA6, 0x7C87, 0x4CE4, 0x5CC5, 0x2C22, 0x3C03, 0x0C60, 0x1C41, 0xEDAE, 0xFD8F, 0xCDEC, 0xDDCD, 0xAD2A, 0xBD0B, 0x8D68, 0x9D49,
    0x7E97, 0x6EB6, 0x5ED5, 0x4EF4, 0x3E13, 0x2E32, 0x1E51, 0x0E70, 0xFF9F, 0xEFBE, 0xDFDD, 0xCFFC, 0xBF1B, 0xAF3A, 0x9F59, 0x8F78,
    0x9188, 0x81A9, 0xB1CA, 0xA1EB, 0xD10C, 0xC12D, 0xF14E, 0xE16F, 0x1080, 0x00A1, 0x30C2, 0x20E3, 0x5004, 0x4025, 0x7046, 0x6067,
    0x83B9, 0x9398, 0xA3FB, 0xB3DA, 0xC33D, 0xD31C, 0xE37F, 0xF35E, 0x02B1, 0x1290, 0x22F3, 0x32D2, 0x4235, 0x5214, 0x6277, 0x7256,
    0xB5EA, 0xA5CB, 0x95A8, 0x8589, 0xF56E, 0xE54F, 0xD52C, 0xC50D, 0x34E2, 0x24C3, 0x14A0, 0x0481, 0x7466, 0x6447, 0x5424, 0x4405,
    0xA7DB, 0xB7FA, 0x8799, 0x97B8, 0xE75F, 0xF77E, 0xC71D, 0xD73C, 0x26D3, 0x36F2, 0x0691, 0x16B0, 0x6657, 0x7676, 0x4615, 0x5634,
    0xD94C, 0xC96D, 0xF90E, 0xE92F, 0x99C8, 0x89E9, 0xB98A, 0xA9AB, 0x5844, 0x4865, 0x7806, 0x6827, 0x18C0, 0x08E1, 0x3882, 0x28A3,
    0xCB7D, 0xDB5C, 0xEB3F, 0xFB1E, 0x8BF9, 0x9BD8, 0xABBB, 0xBB9A, 0x4A75, 0x5A54, 0x6A37, 0x7A16, 0x0AF1, 0x1AD0, 0x2AB3, 0x3A92,
    0xFD2E, 0xED0F, 0xDD6C, 0xCD4D, 0xBDAA, 0xAD8B, 0x9DE8, 0x8DC9, 0x7C26, 0x6C07, 0x5C64, 0x4C45, 0x3CA2, 0x2C83, 0x1CE0, 0x0CC1,
    0xEF1F, 0xFF3E, 0xCF5D, 0xDF7C, 0xAF9B, 0xBFBA, 0x8FD9, 0x9FF8, 0x6E17, 0x7E36, 0x4E55, 0x5E74, 0x2E93, 0x3EB2, 0x0ED1, 0x1EF0]"

definition crc16_tab1 :: "u16 list" where
  "crc16_tab1 = [
    0x0000, 0x3331, 0x6662, 0x5553, 0xCCC4, 0xFFF5, 0xAAA6, 0x9997, 0x89A9, 0xBA98, 0xEFCB, 0xDCFA, 0x456D, 0x765C, 0x230F, 0x103E,
    0x0373, 0x3042, 0x6511, 0x5620, 0xCFB7, 0xFC86, 0xA9D5, 0x9AE4, 0x8ADA, 0xB9EB, 0xECB8, 0xDF89, 0x461E, 0x752F, 0x207C, 0x134D,
    0x06E6, 0x35D7, 0x6084, 0x53B5, 0xCA22, 0xF913, 0xAC40, 0x9F71, 0x8F4F, 0xBC7E, 0xE92D, 0xDA1C, 0x438B, 0x70BA, 0x25E9, 0x16D8,
    0x0595, 0x36A4, 0x63F7, 0x50C6, 0xC951, 0xFA60, 0xAF33, 0x9C02, 0x8C3C, 0xBF0D, 0xEA5E, 0xD96F, 0x40F8, 0x73C9, 0x269A, 0x15AB,
    0x0DCC, 0x3EFD, 0x6BAE, 0x589F, 0xC108, 0xF239, 0xA76A, 0x945B, 0x8465, 0xB754, 0xE207, 0xD136, 0x48A1, 0x7B90, 0x2EC3, 0x1DF2,
    0x0EBF, 0x3D8E, 0x68DD, 0x5BEC, 0xC27B, 0xF14A, 0xA419, 0x9728, 0x8716, 0xB427, 0xE174, 0xD245, 0x4BD2, 0x78E3, 0x2DB0, 0x1E81,
    0x0B2A, 0x381B, 0x6D48, 0x5E79, 0xC7EE, 0xF4DF, 0xA18C, 0x92BD, 0x8283, 0xB1B2, 0xE4E1, 0xD7D0, 0x4E47, 0x7D76, 0x2825, 0x1B14,
    0x0859, 0x3B68, 0x6E3B, 0x5D0A, 0xC49D, 0xF7AC, 0xA2FF, 0x91CE, 0x81F0, 0xB2C1, 0xE792, 0xD4A3, 0x4D34, 0x7E05, 0x2B56, 0x1867,
    0x1B98, 0x28A9, 0x7DFA, 0x4ECB, 0xD75C, 0xE46D, 0xB13E, 0x820F, 0x9231, 0xA100, 0xF453, 0xC762, 0x5EF5, 0x6DC4, 0x3897, 0x0BA6,
    0x18EB, 0x2BDA, 0x7E89, 0x4DB8, 0xD42F, 0xE71E, 0xB24D, 0x817C, 0x9142, 0xA273, 0xF720, 0xC411, 0x5D86, 0x6EB7, 0x3BE4, 0x08D5,
    0x1D7E, 0x2E4F, 0x7B1C, 0x482D, 0xD1BA, 0xE28B, 0xB7D8, 0x84E9, 0x94D7, 0xA7E6, 0xF2B5, 0xC184, 0x5813, 0x6B22, 0x3E71, 0x0D40,
    0x1E0D, 0x2D3C, 0x786F, 0x4B5E, 0xD2C9, 0xE1F8, 0xB4AB, 0x879A, 0x97A4, 0xA495, 0xF1C6, 0xC2F7, 0x5B60, 0x6851, 0x3D02, 0x0E33,
    0x1654, 0x2565, 0x7036, 0x4307, 0xDA90, 0xE9A1, 0xBCF2, 0x8FC3, 0x9FFD, 0xACCC, 0xF99F, 0xCAAE, 0x5339, 0x6008, 0x355B, 0x066A,
    0x1527, 0x2616, 0x7345, 0x4074, 0xD9E3, 0xEAD2, 0xBF81, 0x8CB0, 0x9C8E, 0xAFBF, 0xFAEC, 0xC9DD, 0x504A, 0x637B, 0x3628, 0x0519,
    0x10B2, 0x2383, 0x76D0, 0x45E1, 0xDC76, 0xEF47, 0xBA14, 0x8925, 0x991B, 0xAA2A, 0xFF79, 0xCC48, 0x55DF, 0x66EE, 0x33BD, 0x008C,
    0x13C1, 0x20F0, 0x75A3, 0x4692, 0xDF05, 0xEC34, 0xB967, 0x8A56, 0x9A68, 0xA959, 0xFC0A, 0xCF3B, 0x56AC, 0x659D, 0x30CE, 0x03FF]"

definition crc16_tab2 :: "u16 list" where
  "crc16_tab2 = [
    0x0000, 0x3730, 0x6E60, 0x5950, 0xDCC0, 0xEBF0, 0xB2A0, 0x8590, 0xA9A1, 0x9E91, 0xC7C1, 0xF0F1, 0x7561, 0x4251, 0x1B01, 0x2C31,
    0x4363, 0x7453, 0x2D03, 0x1A33, 0x9FA3, 0xA893, 0xF1C3, 0xC6F3, 0xEAC2, 0xDDF2, 0x84A2, 0xB392, 0x3602, 0x0132, 0x5862, 0x6F52,
    0x86C6, 0xB1F6, 0xE8A6, 0xDF96, 0x5A06, 0x6D36, 0x3466, 0x0356, 0x2F67, 0x1857, 0x4107, 0x7637, 0xF3A7, 0xC497, 0x9DC7, 0xAAF7,
    0xC5A5, 0xF295, 0xABC5, 0x9CF5, 0x1965, 0x2E55, 0x7705, 0x4035, 0x6C04, 0x5B34, 0x0264, 0x3554, 0xB0C4, 0x87F4, 0xDEA4, 0xE994,
    0x1DAD, 0x2A9D, 0x73CD, 0x44FD, 0xC16D, 0xF65D, 0xAF0D, 0x983D, 0xB40C, 0x833C, 0xDA6C, 0xED5C, 0x68CC, 0x5FFC, 0x06AC, 0x319C,
    0x5ECE, 0x69FE, 0x30AE, 0x079E, 0x820E, 0xB53E, 0xEC6E, 0xDB5E, 0xF76F, 0xC05F, 0x990F, 0xAE3F, 0x2BAF, 0x1C9F, 0x45CF, 0x72FF,
    0x9B6B, 0xAC5B, 0xF50B, 0xC23B, 0x47AB, 0x709B, 0x29CB, 0x1EFB, 0x32CA, 0x05FA, 0x5CAA, 0x6B9A, 0xEE0A, 0xD93A, 0x806A, 0xB75A,
    0xD808, 0xEF38, 0xB668, 0x8158, 0x04C8, 0x33F8, 0x6AA8, 0x5D98, 0x71A9, 0x4699, 0x1FC9, 0x28F9, 0xAD69, 0x9A59, 0xC309, 0xF439,
    0x3B5A, 0x0C6A, 0x553A, 0x620A, 0xE79A, 0xD0AA, 0x89FA, 0xBECA, 0x92FB, 0xA5CB, 0xFC9B, 0xCBAB, 0x4E3B, 0x790B, 0x205B, 0x176B,
    0x7839, 0x4F09, 0x1659, 0x2169, 0xA4F9, 0x93C9, 0xCA99, 0xFDA9, 0xD198, 0xE6A8, 0xBFF8, 0x88C8, 0x0D58, 0x3A68, 0x6338, 0x5408,
    0xBD9C, 0x8AAC, 0xD3FC, 0xE4CC, 0x615C, 0x566C, 0x0F3C, 0x380C, 0x143D, 0x230D, 0x7A5D, 0x4D6D, 0xC8FD, 0xFFCD, 0xA69D, 0x91AD,
    0xFEFF, 0xC9CF, 0x909F, 0xA7AF, 0x223F, 0x150F, 0x4C5F, 0x7B6F, 0x575E, 0x606E, 0x393E, 0x0E0E, 0x8B9E, 0xBCAE, 0xE5FE, 0xD2CE,
    0x26F7, 0x11C7, 0x4897, 0x7FA7, 0xFA37, 0xCD07, 0x9457, 0xA367, 0x8F56, 0xB866, 0xE136, 0xD606, 0x5396, 0x64A6, 0x3DF6, 0x0AC6,
    0x6594, 0x52A4, 0x0BF4, 0x3CC4, 0xB954, 0x8E64, 0xD734, 0xE004, 0xCC35, 0xFB05, 0xA255, 0x9565, 0x10F5, 0x27C5, 0x7E95, 0x49A5,
    0xA031, 0x9701, 0xCE51, 0xF961, 0x7CF1, 0x4BC1, 0x1291, 0x25A1, 0x0990, 0x3EA0, 0x67F0, 0x50C0, 0xD550, 0xE260, 0xBB30, 0x8C00,
    0xE352, 0xD462, 0x8D32, 0xBA02, 0x3F92, 0x08A2, 0x51F2, 0x66C2, 0x4AF3, 0x7DC3, 0x2493, 0x13A3, 0x9633, 0xA103, 0xF853, 0xCF63]"

definition crc16_tab3 :: "u16 list" where
  "crc16_tab3 = [
    0x0000, 0x76B4, 0xED68, 0x9BDC, 0xCAF1, 0xBC45, 0x2799, 0x512D, 0x85C3, 0xF377, 0x68AB, 0x1E1F, 0x4F32, 0x3986, 0xA25A, 0xD4EE,
    0x1BA7, 0x6D13, 0xF6CF, 0x807B, 0xD156, 0xA7E2, 0x3C3E, 0x4A8A, 0x9E64, 0xE8D0, 0x730C, 0x05B8, 0x5495, 0x2221, 0xB9FD, 0xCF49,
    0x374E, 0x41FA, 0xDA26, 0xAC92, 0xFDBF, 0x8B0B, 0x10D7, 0x6663, 0xB28D, 0xC439, 0x5FE5, 0x2951, 0x787C, 0x0EC8, 0x9514, 0xE3A0,
    0x2CE9, 0x5A5D, 0xC181, 0xB735, 0xE618, 0x90AC, 0x0B70, 0x7DC4, 0xA92A, 0xDF9E, 0x4442, 0x32F6, 0x63DB, 0x156F, 0x8EB3, 0xF807,
    0x6E9C, 0x1828, 0x83F4, 0xF540, 0xA46D, 0xD2D9, 0x4905, 0x3FB1, 0xEB5F, 0x9DEB, 0x0637, 0x7083, 0x21AE, 0x571A, 0xCCC6, 0xBA72,
    0x753B, 0x038F, 0x9853, 0xEEE7, 0xBFCA, 0xC97E, 0x52A2, 0x2416, 0xF0F8, 0x864C, 0x1D90, 0x6B24, 0x3A09, 0x4CBD, 0xD761, 0xA1D5,
    0x59D2, 0x2F66, 0xB4BA, 0xC20E, 0x9323, 0xE597, 0x7E4B, 0x08FF, 0xDC11, 0xAAA5, 0x3179, 0x47CD, 0x16E0, 0x6054, 0xFB88, 0x8D3C,
    0x4275, 0x34C1, 0xAF1D, 0xD9A9, 0x8884, 0xFE30, 0x65EC, 0x1358, 0xC7B6, 0xB102, 0x2ADE, 0x5C6A, 0x0D47, 0x7BF3, 0xE02F, 0x969B,
    0xDD38, 0xAB8C, 0x3050, 0x46E4, 0x17C9, 0x617D, 0xFAA1, 0x8C15, 0x58FB, 0x2E4F, 0xB593, 0xC327, 0x920A, 0xE4BE, 0x7F62, 0x09D6,
    0xC69F, 0xB02B, 0x2BF7, 0x5D43, 0x0C6E, 0x7ADA, 0xE106, 0x97B2, 0x435C, 0x35E8, 0xAE34, 0xD880, 0x89AD, 0xFF19, 0x64C5, 0x1271,
    0xEA76, 0x9CC2, 0x071E, 0x71AA, 0x2087, 0x5633, 0xCDEF, 0xBB5B, 0x6FB5, 0x1901, 0x82DD, 0xF469, 0xA544, 0xD3F0, 0x482C, 0x3E98,
    0xF1D1, 0x8765, 0x1CB9, 0x6A0D, 0x3B20, 0x4D94, 0xD648, 0xA0FC, 0x7412, 0x02A6, 0x997A, 0xEFCE, 0xBEE3, 0xC857, 0x538B, 0x253F,
    0xB3A4, 0xC510, 0x5ECC, 0x2878, 0x7955, 0x0FE1, 0x943D, 0xE289, 0x3667, 0x40D3, 0xDB0F, 0xADBB, 0xFC96, 0x8A22, 0x11FE, 0x674A,
    0xA803, 0xDEB7, 0x456B, 0x33DF, 0x62F2, 0x1446, 0x8F9A, 0xF92E, 0x2DC0, 0x5B74, 0xC0A8, 0xB61C, 0xE731, 0x9185, 0x0A59, 0x7CED,
    0x84EA, 0xF25E, 0x6982, 0x1F36, 0x4E1B, 0x38AF, 0xA373, 0xD5C7, 0x0129, 0x779D, 0xEC41, 0x9AF5, 0xCBD8, 0xBD6C, 0x26B0, 0x5004,
    0x9F4D, 0xE9F9, 0x7225, 0x0491, 0x55BC, 0x2308, 0xB8D4, 0xCE60, 0x1A8E, 0x6C3A, 0xF7E6, 0x8152, 0xD07F, 0xA6CB, 0x3D17, 0x4BA3]"

definition crc16_tab4 :: "u16 list" where
  "crc16_tab4 = [
    0x0000, 0xAA51, 0x4483, 0xEED2, 0x8906, 0x2357, 0xCD85, 0x67D4, 0x022D, 0xA87C, 0x46AE, 0xECFF, 0x8B2B, 0x217A, 0xCFA8, 0x65F9,
    0x045A, 0xAE0B, 0x40D9, 0xEA88, 0x8D5C, 0x270D, 0xC9DF, 0x638E, 0x0677, 0xAC26, 0x42F4, 0xE8A5, 0x8F71, 0x2520, 0xCBF2, 0x61A3,
    0x08B4, 0xA2E5, 0x4C37, 0xE666, 0x81B2, 0x2BE3, 0xC531, 0x6F60, 0x0A99, 0xA0C8, 0x4E1A, 0xE44B, 0x839F, 0x29CE, 0xC71C, 0x6D4D,
    0x0CEE, 0xA6BF, 0x486D, 0xE23C, 0x85E8, 0x2FB9, 0xC16B, 0x6B3A, 0x0EC3, 0xA492, 0x4A40, 0xE011, 0x87C5, 0x2D94, 0xC346, 0x6917,
    0x1168, 0xBB39, 0x55EB, 0xFFBA, 0x986E, 0x323F, 0xDCED, 0x76BC, 0x1345, 0xB914, 0x57C6, 0xFD97, 0x9A43, 0x3012, 0xDEC0, 0x7491,
    0x1532, 0xBF63, 0x51B1, 0xFBE0, 0x9C34, 0x3665, 0xD8B7, 0x72E6, 0x171F, 0xBD4E, 0x539C, 0xF9CD, 0x9E19, 0x3448, 0xDA9A, 0x70CB,
    0x19DC, 0xB38D, 0x5D5F, 0xF70E, 0x90DA, 0x3A8B, 0xD459, 0x7E08, 0x1BF1, 0xB1A0, 0x5F72, 0xF523, 0x92F7, 0x38A6, 0xD674, 0x7C25,
    0x1D86, 0xB7D7, 0x5905, 0xF354, 0x9480, 0x3ED1, 0xD003, 0x7A52, 0x1FAB, 0xB5FA, 0x5B28, 0xF179, 0x96AD, 0x3CFC, 0xD22E, 0x787F,
    0x22D0, 0x8881, 0x6653, 0xCC02, 0xABD6, 0x0187, 0xEF55, 0x4504, 0x20FD, 0x8AAC, 0x647E, 0xCE2F, 0xA9FB, 0x03AA, 0xED78, 0x4729,
    0x268A, 0x8CDB, 0x6209, 0xC858, 0xAF8C, 0x05DD, 0xEB0F, 0x415E, 0x24A7, 0x8EF6, 0x6024, 0xCA75, 0xADA1, 0x07F0, 0xE922, 0x4373,
    0x2A64, 0x8035, 0x6EE7, 0xC4B6, 0xA362, 0x0933, 0xE7E1, 0x4DB0, 0x2849, 0x8218, 0x6CCA, 0xC69B, 0xA14F, 0x0B1E, 0xE5CC, 0x4F9D,
    0x2E3E, 0x846F, 0x6ABD, 0xC0EC, 0xA738, 0x0D69, 0xE3BB, 0x49EA, 0x2C13, 0x8642, 0x6890, 0xC2C1, 0xA515, 0x0F44, 0xE196, 0x4BC7,
    0x33B8, 0x99E9, 0x773B, 0xDD6A, 0xBABE, 0x10EF, 0xFE3D, 0x546C, 0x3195, 0x9BC4, 0x7516, 0xDF47, 0xB893, 0x12C2, 0xFC10, 0x5641,
    0x37E2, 0x9DB3, 0x7361, 0xD930, 0xBEE4, 0x14B5, 0xFA67, 0x5036, 0x35CF, 0x9F9E, 0x714C, 0xDB1D, 0xBCC9, 0x1698, 0xF84A, 0x521B,
    0x3B0C, 0x915D, 0x7F8F, 0xD5DE, 0xB20A, 0x185B, 0xF689, 0x5CD8, 0x3921, 0x9370, 0x7DA2, 0xD7F3, 0xB027, 0x1A76, 0xF4A4, 0x5EF5,
    0x3F56, 0x9507, 0x7BD5, 0xD184, 0xB650, 0x1C01, 0xF2D3, 0x5882, 0x3D7B, 0x972A, 0x79F8, 0xD3A9, 0xB47D, 0x1E2C, 0xF0FE, 0x5AAF]"

definition crc16_tab5 :: "u16 list" where
  "crc16_tab5 = [
    0x0000, 0x45A0, 0x8B40, 0xCEE0, 0x06A1, 0x4301, 0x8DE1, 0xC841, 0x0D42, 0x48E2, 0x8602, 0xC3A2, 0x0BE3, 0x4E43, 0x80A3, 0xC503,
    0x1A84, 0x5F24, 0x91C4, 0xD464, 0x1C25, 0x5985, 0x9765, 0xD2C5, 0x17C6, 0x5266, 0x9C86, 0xD926, 0x1167, 0x54C7, 0x9A27, 0xDF87,
    0x3508, 0x70A8, 0xBE48, 0xFBE8, 0x33A9, 0x7609, 0xB8E9, 0xFD49, 0x384A, 0x7DEA, 0xB30A, 0xF6AA, 0x3EEB, 0x7B4B, 0xB5AB, 0xF00B,
    0x2F8C, 0x6A2C, 0xA4CC, 0xE16C, 0x292D, 0x6C8D, 0xA26D, 0xE7CD, 0x22CE, 0x676E, 0xA98E, 0xEC2E, 0x246F, 0x61CF, 0xAF2F, 0xEA8F,
    0x6A10, 0x2FB0, 0xE150, 0xA4F0, 0x6CB1, 0x2911, 0xE7F1, 0xA251, 0x6752, 0x22F2, 0xEC12, 0xA9B2, 0x61F3, 0x2453, 0xEAB3, 0xAF13,
    0x7094, 0x3534, 0xFBD4, 0xBE74, 0x7635, 0x3395, 0xFD75, 0xB8D5, 0x7DD6, 0x3876, 0xF696, 0xB336, 0x7B77, 0x3ED7, 0xF037, 0xB597,
    0x5F18, 0x1AB8, 0xD458, 0x91F8, 0x59B9, 0x1C19, 0xD2F9, 0x9759, 0x525A, 0x17FA, 0xD91A, 0x9CBA, 0x54FB, 0x115B, 0xDFBB, 0x9A1B,
    0x459C, 0x003C, 0xCEDC, 0x8B7C, 0x433D, 0x069D, 0xC87D, 0x8DDD, 0x48DE, 0x0D7E, 0xC39E, 0x863E, 0x4E7F, 0x0BDF, 0xC53F, 0x809F,
    0xD420, 0x9180, 0x5F60, 0x1AC0, 0xD281, 0x9721, 0x59C1, 0x1C61, 0xD962, 0x9CC2, 0x5222, 0x1782, 0xDFC3, 0x9A63, 0x5483, 0x1123,
    0xCEA4, 0x8B04, 0x45E4, 0x0044, 0xC805, 0x8DA5, 0x4345, 0x06E5, 0xC3E6, 0x8646, 0x48A6, 0x0D06, 0xC547, 0x80E7, 0x4E07, 0x0BA7,
    0xE128, 0xA488, 0x6A68, 0x2FC8, 0xE789, 0xA229, 0x6CC9, 0x2969, 0xEC6A, 0xA9CA, 0x672A, 0x228A, 0xEACB, 0xAF6B, 0x618B, 0x242B,
    0xFBAC, 0xBE0C, 0x70EC, 0x354C, 0xFD0D, 0xB8AD, 0x764D, 0x33ED, 0xF6EE, 0xB34E, 0x7DAE, 0x380E, 0xF04F, 0xB5EF, 0x7B0F, 0x3EAF,
    0xBE30, 0xFB90, 0x3570, 0x70D0, 0xB891, 0xFD31, 0x33D1, 0x7671, 0xB372, 0xF6D2, 0x3832, 0x7D92, 0xB5D3, 0xF073, 0x3E93, 0x7B33,
    0xA4B4, 0xE114, 0x2FF4, 0x6A54, 0xA215, 0xE7B5, 0x2955, 0x6CF5, 0xA9F6, 0xEC56, 0x22B6, 0x6716, 0xAF57, 0xEAF7, 0x2417, 0x61B7,
    0x8B38, 0xCE98, 0x0078, 0x45D8, 0x8D99, 0xC839, 0x06D9, 0x4379, 0x867A, 0xC3DA, 0x0D3A, 0x489A, 0x80DB, 0xC57B, 0x0B9B, 0x4E3B,
    0x91BC, 0xD41C, 0x1AFC, 0x5F5C, 0x971D, 0xD2BD, 0x1C5D, 0x59FD, 0x9CFE, 0xD95E, 0x17BE, 0x521E, 0x9A5F, 0xDFFF, 0x111F, 0x54BF]"

definition crc16_tab6 :: "u16 list" where
  "crc16_tab6 = [
    0x0000, 0xB861, 0x60E3, 0xD882, 0xC1C6, 0x79A7, 0xA125, 0x1944, 0x93AD, 0x2BCC, 0xF34E, 0x4B2F, 0x526B, 0xEA0A, 0x3288, 0x8AE9,
    0x377B, 0x8F1A, 0x5798, 0xEFF9, 0xF6BD, 0x4EDC, 0x965E, 0x2E3F, 0xA4D6, 0x1CB7, 0xC435, 0x7C54, 0x6510, 0xDD71, 0x05F3, 0xBD92,
    0x6EF6, 0xD697, 0x0E15, 0xB674, 0xAF30, 0x1751, 0xCFD3, 0x77B2, 0xFD5B, 0x453A, 0x9DB8, 0x25D9, 0x3C9D, 0x84FC, 0x5C7E, 0xE41F,
    0x598D, 0xE1EC, 0x396E, 0x810F, 0x984B, 0x202A, 0xF8A8, 0x40C9, 0xCA20, 0x7241, 0xAAC3, 0x12A2, 0x0BE6, 0xB387, 0x6B05, 0xD364,
    0xDDEC, 0x658D, 0xBD0F, 0x056E, 0x1C2A, 0xA44B, 0x7CC9, 0xC4A8, 0x4E41, 0xF620, 0x2EA2, 0x96C3, 0x8F87, 0x37E6, 0xEF64, 0x5705,
    0xEA97, 0x52F6, 0x8A74, 0x3215, 0x2B51, 0x9330, 0x4BB2, 0xF3D3, 0x793A, 0xC15B, 0x19D9, 0xA1B8, 0xB8FC, 0x009D, 0xD81F, 0x607E,
    0xB31A, 0x0B7B, 0xD3F9, 0x6B98, 0x72DC, 0xCABD, 0x123F, 0xAA5E, 0x20B7, 0x98D6, 0x4054, 0xF835, 0xE171, 0x5910, 0x8192, 0x39F3,
    0x8461, 0x3C00, 0xE482, 0x5CE3, 0x45A7, 0xFDC6, 0x2544, 0x9D25, 0x17CC, 0xAFAD, 0x772F, 0xCF4E, 0xD60A, 0x6E6B, 0xB6E9, 0x0E88,
    0xABF9, 0x1398, 0xCB1A, 0x737B, 0x6A3F, 0xD25E, 0x0ADC, 0xB2BD, 0x3854, 0x8035, 0x58B7, 0xE0D6, 0xF992, 0x41F3, 0x9971, 0x2110,
    0x9C82, 0x24E3, 0xFC61, 0x4400, 0x5D44, 0xE525, 0x3DA7, 0x85C6, 0x0F2F, 0xB74E, 0x6FCC, 0xD7AD, 0xCEE9, 0x7688, 0xAE0A, 0x166B,
    0xC50F, 0x7D6E, 0xA5EC, 0x1D8D, 0x04C9, 0xBCA8, 0x642A, 0xDC4B, 0x56A2, 0xEEC3, 0x3641, 0x8E20, 0x9764, 0x2F05, 0xF787, 0x4FE6,
    0xF274, 0x4A15, 0x9297, 0x2AF6, 0x33B2, 0x8BD3, 0x5351, 0xEB30, 0x61D9, 0xD9B8, 0x013A, 0xB95B, 0xA01F, 0x187E, 0xC0FC, 0x789D,
    0x7615, 0xCE74, 0x16F6, 0xAE97, 0xB7D3, 0x0FB2, 0xD730, 0x6F51, 0xE5B8, 0x5DD9, 0x855B, 0x3D3A, 0x247E, 0x9C1F, 0x449D, 0xFCFC,
    0x416E, 0xF90F, 0x218D, 0x99EC, 0x80A8, 0x38C9, 0xE04B, 0x582A, 0xD2C3, 0x6AA2, 0xB220, 0x0A41, 0x1305, 0xAB64, 0x73E6, 0xCB87,
    0x18E3, 0xA082, 0x7800, 0xC061, 0xD925, 0x6144, 0xB9C6, 0x01A7, 0x8B4E, 0x332F, 0xEBAD, 0x53CC, 0x4A88, 0xF2E9, 0x2A6B, 0x920A,
    0x2F98, 0x97F9, 0x4F7B, 0xF71A, 0xEE5E, 0x563F, 0x8EBD, 0x36DC, 0xBC35, 0x0454, 0xDCD6, 0x64B7, 0x7DF3, 0xC592, 0x1D10, 0xA571]"

definition crc16_tab7 :: "u16 list" where
  "crc16_tab7 = [
    0x0000, 0x47D3, 0x8FA6, 0xC875, 0x0F6D, 0x48BE, 0x80CB, 0xC718, 0x1EDA, 0x5909, 0x917C, 0xD6AF, 0x11B7, 0x5664, 0x9E11, 0xD9C2,
    0x3DB4, 0x7A67, 0xB212, 0xF5C1, 0x32D9, 0x750A, 0xBD7F, 0xFAAC, 0x236E, 0x64BD, 0xACC8, 0xEB1B, 0x2C03, 0x6BD0, 0xA3A5, 0xE476,
    0x7B68, 0x3CBB, 0xF4CE, 0xB31D, 0x7405, 0x33D6, 0xFBA3, 0xBC70, 0x65B2, 0x2261, 0xEA14, 0xADC7, 0x6ADF, 0x2D0C, 0xE579, 0xA2AA,
    0x46DC, 0x010F, 0xC97A, 0x8EA9, 0x49B1, 0x0E62, 0xC617, 0x81C4, 0x5806, 0x1FD5, 0xD7A0, 0x9073, 0x576B, 0x10B8, 0xD8CD, 0x9F1E,
    0xF6D0, 0xB103, 0x7976, 0x3EA5, 0xF9BD, 0xBE6E, 0x761B, 0x31C8, 0xE80A, 0xAFD9, 0x67AC, 0x207F, 0xE767, 0xA0B4, 0x68C1, 0x2F12,
    0xCB64, 0x8CB7, 0x44C2, 0x0311, 0xC409, 0x83DA, 0x4BAF, 0x0C7C, 0xD5BE, 0x926D, 0x5A18, 0x1DCB, 0xDAD3, 0x9D00, 0x5575, 0x12A6,
    0x8DB8, 0xCA6B, 0x021E, 0x45CD, 0x82D5, 0xC506, 0x0D73, 0x4AA0, 0x9362, 0xD4B1, 0x1CC4, 0x5B17, 0x9C0F, 0xDBDC, 0x13A9, 0x547A,
    0xB00C, 0xF7DF, 0x3FAA, 0x7879, 0xBF61, 0xF8B2, 0x30C7, 0x7714, 0xAED6, 0xE905, 0x2170, 0x66A3, 0xA1BB, 0xE668, 0x2E1D, 0x69CE,
    0xFD81, 0xBA52, 0x7227, 0x35F4, 0xF2EC, 0xB53F, 0x7D4A, 0x3A99, 0xE35B, 0xA488, 0x6CFD, 0x2B2E, 0xEC36, 0xABE5, 0x6390, 0x2443,
    0xC035, 0x87E6, 0x4F93, 0x0840, 0xCF58, 0x888B, 0x40FE, 0x072D, 0xDEEF, 0x993C, 0x5149, 0x169A, 0xD182, 0x9651, 0x5E24, 0x19F7,
    0x86E9, 0xC13A, 0x094F, 0x4E9C, 0x8984, 0xCE57, 0x0622, 0x41F1, 0x9833, 0xDFE0, 0x1795, 0x5046, 0x975E, 0xD08D, 0x18F8, 0x5F2B,
    0xBB5D, 0xFC8E, 0x34FB, 0x7328, 0xB430, 0xF3E3, 0x3B96, 0x7C45, 0xA587, 0xE254, 0x2A21, 0x6DF2, 0xAAEA, 0xED39, 0x254C, 0x629F,
    0x0B51, 0x4C82, 0x84F7, 0xC324, 0x043C, 0x43EF, 0x8B9A, 0xCC49, 0x158B, 0x5258, 0x9A2D, 0xDDFE, 0x1AE6, 0x5D35, 0x9540, 0xD293,
    0x36E5, 0x7136, 0xB943, 0xFE90, 0x3988, 0x7E5B, 0xB62E, 0xF1FD, 0x283F, 0x6FEC, 0xA799, 0xE04A, 0x2752, 0x6081, 0xA8F4, 0xEF27,
    0x7039, 0x37EA, 0xFF9F, 0xB84C, 0x7F54, 0x3887, 0xF0F2, 0xB721, 0x6EE3, 0x2930, 0xE145, 0xA696, 0x618E, 0x265D, 0xEE28, 0xA9FB,
    0x4D8D, 0x0A5E, 0xC22B, 0x85F8, 0x42E0, 0x0533, 0xCD46, 0x8A95, 0x5357, 0x1484, 0xDCF1, 0x9B22, 0x5C3A, 0x1BE9, 0xD39C, 0x944F]"

definition PC_SLOTS :: u16 where "PC_SLOTS = 16384"

section \<open>The checksum\<close>

fun crc16_tail :: "u16 \<Rightarrow> bytes \<Rightarrow> u16" where
  "crc16_tail crc [] = crc"
| "crc16_tail crc (b # bs) =
     crc16_tail (push_bit 8 crc XOR crc16_tab0 ! unat ((drop_bit 8 crc XOR ucast b) AND 0xFF)) bs"

function crc16_loop :: "u16 \<Rightarrow> bytes \<Rightarrow> u16" where
  "crc16_loop crc p =
    (if 8 \<le> length p then
       crc16_loop
         (crc16_tab7 ! unat (drop_bit 8 crc XOR ucast (p ! 0)) XOR
          crc16_tab6 ! unat ((crc AND 0xFF) XOR ucast (p ! 1)) XOR
          crc16_tab5 ! unat (p ! 2) XOR crc16_tab4 ! unat (p ! 3) XOR
          crc16_tab3 ! unat (p ! 4) XOR crc16_tab2 ! unat (p ! 5) XOR
          crc16_tab1 ! unat (p ! 6) XOR crc16_tab0 ! unat (p ! 7)) (drop 8 p)
     else crc16_tail crc p)"
  by pat_completeness auto
termination by (relation "measure (\<lambda>(crc, p). length p)") auto

declare crc16_loop.simps [simp del]

definition pc_crc16 :: "bytes \<Rightarrow> u16" where
  "pc_crc16 p = crc16_loop 0 p"

definition memchr :: "u8 \<Rightarrow> bytes \<Rightarrow> nat option" where
  "memchr c s = find_index (\<lambda>x. x = c) 0 s"

definition pc_key_slot :: "bytes \<Rightarrow> u16" where
  "pc_key_slot key =
    (case memchr 123 key of
       None \<Rightarrow> pc_crc16 key mod PC_SLOTS
     | Some o' \<Rightarrow>
         (case memchr 125 (drop (o' + 1) key) of
            None \<Rightarrow> pc_crc16 key mod PC_SLOTS
          | Some 0 \<Rightarrow> pc_crc16 key mod PC_SLOTS
          | Some c \<Rightarrow> pc_crc16 (window key (o' + 1) c) mod PC_SLOTS))"

section \<open>The reference\<close>

definition crc_shift :: "u16 \<Rightarrow> u16" where
  "crc_shift c = (if bit c 15 then push_bit 1 c XOR 0x1021 else push_bit 1 c)"

definition crc_roll :: "u16 \<Rightarrow> u16" where
  "crc_roll c = (crc_shift ^^ 8) c"

definition crc16_ref :: "bytes \<Rightarrow> u16" where
  "crc16_ref p = foldl (\<lambda>c b. crc_roll (c XOR push_bit 8 (ucast b))) 0 p"

text \<open>A table that is linear is spanned by its entries at the powers of two.\<close>

definition xor_span :: "u16 list \<Rightarrow> u16 list" where
  "xor_span vs = foldl (\<lambda>xs v. xs @ map (\<lambda>x. x XOR v) xs) [0] vs"

definition crc_gens :: "nat \<Rightarrow> u16 list" where
  "crc_gens k = map (\<lambda>i. (crc_roll ^^ Suc k) (push_bit 8 (2 ^ i))) [0, 1, 2, 3, 4, 5, 6, 7]"

section \<open>The tables are what they should be\<close>

lemma span0: "crc16_tab0 = xor_span [0x1021, 0x2042, 0x4084, 0x8108, 0x1231, 0x2462, 0x48C4, 0x9188]"
  by (simp add: xor_span_def crc16_tab0_def)

lemma span1: "crc16_tab1 = xor_span [0x3331, 0x6662, 0xCCC4, 0x89A9, 0x0373, 0x06E6, 0x0DCC, 0x1B98]"
  by (simp add: xor_span_def crc16_tab1_def)

lemma span2: "crc16_tab2 = xor_span [0x3730, 0x6E60, 0xDCC0, 0xA9A1, 0x4363, 0x86C6, 0x1DAD, 0x3B5A]"
  by (simp add: xor_span_def crc16_tab2_def)

lemma span3: "crc16_tab3 = xor_span [0x76B4, 0xED68, 0xCAF1, 0x85C3, 0x1BA7, 0x374E, 0x6E9C, 0xDD38]"
  by (simp add: xor_span_def crc16_tab3_def)

lemma span4: "crc16_tab4 = xor_span [0xAA51, 0x4483, 0x8906, 0x022D, 0x045A, 0x08B4, 0x1168, 0x22D0]"
  by (simp add: xor_span_def crc16_tab4_def)

lemma span5: "crc16_tab5 = xor_span [0x45A0, 0x8B40, 0x06A1, 0x0D42, 0x1A84, 0x3508, 0x6A10, 0xD420]"
  by (simp add: xor_span_def crc16_tab5_def)

lemma span6: "crc16_tab6 = xor_span [0xB861, 0x60E3, 0xC1C6, 0x93AD, 0x377B, 0x6EF6, 0xDDEC, 0xABF9]"
  by (simp add: xor_span_def crc16_tab6_def)

lemma span7: "crc16_tab7 = xor_span [0x47D3, 0x8FA6, 0x0F6D, 0x1EDA, 0x3DB4, 0x7B68, 0xF6D0, 0xFD81]"
  by (simp add: xor_span_def crc16_tab7_def)

text \<open>Rolling is linear, so a linear table is right when its eight generators are.\<close>

lemma shift_xor: "crc_shift (a XOR b) = crc_shift a XOR crc_shift b"
  by (rule bit_word_eqI) (auto simp: crc_shift_def bit_simps)

lemma roll_xor: "crc_roll (a XOR b) = crc_roll a XOR crc_roll b"
proof -
  have "(crc_shift ^^ n) (a XOR b) = (crc_shift ^^ n) a XOR (crc_shift ^^ n) b" for n
    by (induction n) (auto simp: shift_xor)
  then show ?thesis by (simp add: crc_roll_def)
qed

lemma rolls_xor: "(crc_roll ^^ k) (a XOR b) = (crc_roll ^^ k) a XOR (crc_roll ^^ k) b"
  by (induction k) (auto simp: roll_xor)

lemma length_xor_span: "length (xor_span vs) = 2 ^ length vs"
  by (induction vs rule: rev_induct) (auto simp: xor_span_def)

lemma nth_xor_span:
  assumes "\<And>a b. f (a XOR b) = f a XOR f b" "f 0 = 0" "length vs \<le> 16" "\<And>i. i < length vs \<Longrightarrow> vs ! i = f (2 ^ i)" "n < 2 ^ length vs"
  shows "xor_span vs ! n = f (of_nat n :: u16)"
  using assms(3-5)
proof (induction vs arbitrary: n rule: rev_induct)
  case Nil
  then show ?case using assms(2) by (simp add: xor_span_def)
next
  case (snoc v vs)
  let ?k = "length vs"
  have gen: "i < ?k \<Longrightarrow> vs ! i = f (2 ^ i)" for i using snoc.prems(2) [of i] by (simp add: nth_append)
  have v: "v = f (2 ^ ?k)" using snoc.prems(2) [of ?k] by simp
  have IH: "m < 2 ^ ?k \<Longrightarrow> xor_span vs ! m = f (of_nat m)" for m using snoc gen by auto
  have sp: "xor_span (vs @ [v]) = xor_span vs @ map (\<lambda>x. x XOR v) (xor_span vs)" by (simp add: xor_span_def)
  show ?case
  proof (cases "n < 2 ^ ?k")
    case True
    then show ?thesis by (simp add: sp nth_append length_xor_span IH)
  next
    case False
    define m where "m = n - 2 ^ ?k"
    have m: "m < 2 ^ ?k" "n = m + 2 ^ ?k" using False snoc.prems(3) by (auto simp: m_def)
    have k: "2 ^ Suc ?k \<le> (2 ^ 16 :: nat)" using snoc.prems(1) by (intro power_increasing) auto
    have "bit (of_nat m :: u16) i \<Longrightarrow> i < ?k" for i
    proof (rule ccontr)
      assume "bit (of_nat m :: u16) i" "\<not> i < ?k"
      moreover have "unat (of_nat m :: u16) = m" using m(1) k by (intro unat_of_nat_small) simp
      moreover have "m < 2 ^ i" using m(1) \<open>\<not> i < ?k\<close> by (metis not_less one_le_numeral order_less_le_trans power_increasing)
      ultimately show False by (simp add: bit_odd_unat)
    qed
    then have "(of_nat m :: u16) AND 2 ^ ?k = 0" by (intro bit_word_eqI) (auto simp: bit_simps)
    then have "(of_nat m :: u16) XOR 2 ^ ?k = of_nat m + 2 ^ ?k" by (simp add: disjunctive_add_eq_xor)
    then have "of_nat n = (of_nat m :: u16) XOR 2 ^ ?k" by (simp add: m(2))
    then have "f (of_nat n) = f (of_nat m) XOR v" using assms(1) v by simp
    then show ?thesis using False m IH [OF m(1)] by (simp add: sp nth_append length_xor_span m_def [symmetric])
  qed
qed

lemma roll8: "crc_roll c = crc_shift (crc_shift (crc_shift (crc_shift (crc_shift (crc_shift (crc_shift (crc_shift c)))))))"
  by (simp add: crc_roll_def numeral_eq_Suc)

text \<open>The generators of each table are those of the one before, rolled once more.\<close>

lemma gens_step: "crc_gens k = xs \<Longrightarrow> k' = Suc k \<Longrightarrow> crc_gens k' = map crc_roll xs"
  by (auto simp: crc_gens_def)

lemma gen0: "crc_gens 0 = [0x1021, 0x2042, 0x4084, 0x8108, 0x1231, 0x2462, 0x48C4, 0x9188]"
  by (simp add: crc_gens_def roll8 crc_shift_def)

lemma gen1: "crc_gens 1 = [0x3331, 0x6662, 0xCCC4, 0x89A9, 0x0373, 0x06E6, 0x0DCC, 0x1B98]"
  by (subst gens_step [OF gen0]) (simp_all add: roll8 crc_shift_def)

lemma gen2: "crc_gens 2 = [0x3730, 0x6E60, 0xDCC0, 0xA9A1, 0x4363, 0x86C6, 0x1DAD, 0x3B5A]"
  by (subst gens_step [OF gen1]) (simp_all add: roll8 crc_shift_def)

lemma gen3: "crc_gens 3 = [0x76B4, 0xED68, 0xCAF1, 0x85C3, 0x1BA7, 0x374E, 0x6E9C, 0xDD38]"
  by (subst gens_step [OF gen2]) (simp_all add: roll8 crc_shift_def)

lemma gen4: "crc_gens 4 = [0xAA51, 0x4483, 0x8906, 0x022D, 0x045A, 0x08B4, 0x1168, 0x22D0]"
  by (subst gens_step [OF gen3]) (simp_all add: roll8 crc_shift_def)

lemma gen5: "crc_gens 5 = [0x45A0, 0x8B40, 0x06A1, 0x0D42, 0x1A84, 0x3508, 0x6A10, 0xD420]"
  by (subst gens_step [OF gen4]) (simp_all add: roll8 crc_shift_def)

lemma gen6: "crc_gens 6 = [0xB861, 0x60E3, 0xC1C6, 0x93AD, 0x377B, 0x6EF6, 0xDDEC, 0xABF9]"
  by (subst gens_step [OF gen5]) (simp_all add: roll8 crc_shift_def)

lemma gen7: "crc_gens 7 = [0x47D3, 0x8FA6, 0x0F6D, 0x1EDA, 0x3DB4, 0x7B68, 0xF6D0, 0xFD81]"
  by (subst gens_step [OF gen6]) (simp_all add: roll8 crc_shift_def)

lemma nth_table:
  assumes "xs = xor_span (crc_gens k)" "n < 256"
  shows "xs ! n = (crc_roll ^^ Suc k) (push_bit 8 (of_nat n))"
  unfolding assms(1)
proof (rule nth_xor_span)
  show "n < 2 ^ length (crc_gens k)" "length (crc_gens k) \<le> 16" using assms(2) by (simp_all add: crc_gens_def)
  fix i assume "i < length (crc_gens k)"
  then have "i = 0 \<or> i = 1 \<or> i = 2 \<or> i = 3 \<or> i = 4 \<or> i = 5 \<or> i = 6 \<or> i = 7" by (simp add: crc_gens_def) arith
  then show "crc_gens k ! i = (crc_roll ^^ Suc k) (push_bit 8 (2 ^ i))"
    unfolding crc_gens_def by (elim disjE) simp_all
next
  show "(crc_roll ^^ Suc k) (push_bit 8 (a XOR b)) = (crc_roll ^^ Suc k) (push_bit 8 a) XOR (crc_roll ^^ Suc k) (push_bit 8 b)" for a b
    by (simp only: push_bit_xor rolls_xor)
  have "crc_roll 0 = 0" using roll_xor [of 0 0] by simp
  then have "(crc_roll ^^ m) 0 = 0" for m by (induction m) simp_all
  from this [of "Suc k"] show "(crc_roll ^^ Suc k) (push_bit 8 0) = 0" by (simp only: push_bit_of_0)
qed

lemmas nth_tab0 = nth_table [of crc16_tab0 0, unfolded gen0, OF span0]
lemmas nth_tab1 = nth_table [of crc16_tab1 1, unfolded gen1, OF span1]
lemmas nth_tab2 = nth_table [of crc16_tab2 2, unfolded gen2, OF span2]
lemmas nth_tab3 = nth_table [of crc16_tab3 3, unfolded gen3, OF span3]
lemmas nth_tab4 = nth_table [of crc16_tab4 4, unfolded gen4, OF span4]
lemmas nth_tab5 = nth_table [of crc16_tab5 5, unfolded gen5, OF span5]
lemmas nth_tab6 = nth_table [of crc16_tab6 6, unfolded gen6, OF span6]
lemmas nth_tab7 = nth_table [of crc16_tab7 7, unfolded gen7, OF span7]

section \<open>Slices and bytes\<close>

lemma low_byte: "unat ((w :: u16) AND 0xFF) < 256"
  using unat_and_mask [of w 8] by (simp add: mask_eq_exp_minus_1)

lemma roll_low: "crc_roll (c AND 0xFF) = push_bit 8 (c AND 0xFF)"
proof -
  have "(crc_shift ^^ j) (c AND 0xFF) = push_bit j (c AND 0xFF)" if "j \<le> 8" for j
    using that
  proof (induction j)
    case (Suc j)
    have "c AND 0xFF = take_bit 8 c" by (simp add: take_bit_eq_mask mask_eq_exp_minus_1)
    moreover have "\<not> 15 - j < 8" using Suc.prems by simp
    ultimately have "\<not> bit (push_bit j (c AND 0xFF)) 15" by (simp only: bit_push_bit_iff bit_take_bit_iff) blast
    then show ?case using Suc by (simp add: crc_shift_def)
  qed simp
  then show ?thesis by (simp add: crc_roll_def)
qed

lemma split_word: "push_bit 8 (drop_bit 8 c) XOR (c AND 0xFF) = (c :: u16)"
proof -
  have "c AND 0xFF = take_bit 8 c" by (simp add: take_bit_eq_mask mask_eq_exp_minus_1)
  then show ?thesis by (auto intro!: bit_word_eqI simp: bit_simps)
qed

lemma byte_step: "push_bit 8 c XOR crc16_tab0 ! unat ((drop_bit 8 c XOR ucast b) AND 0xFF) = crc_roll (c XOR push_bit 8 (ucast (b :: u8)))"
proof -
  let ?x = "(drop_bit 8 c XOR ucast b) AND 0xFF :: u16"
  have m: "(0xFF :: u16) = mask 8" by (simp add: mask_eq_exp_minus_1)
  have "crc16_tab0 ! unat ?x = crc_roll (push_bit 8 ?x)" using nth_tab0 [OF low_byte] by simp
  moreover have "push_bit 8 c = push_bit 8 (c AND 0xFF)" unfolding m by (rule bit_word_eqI) (auto simp: bit_simps)
  ultimately have "push_bit 8 c XOR crc16_tab0 ! unat ?x = crc_roll ((c AND 0xFF) XOR push_bit 8 ?x)"
    by (simp only: roll_xor roll_low)
  also have "(c AND 0xFF) XOR push_bit 8 ?x = c XOR push_bit 8 (ucast b)"
    unfolding m by (rule bit_word_eqI) (auto simp: bit_simps)
  finally show ?thesis .
qed

lemma tail_ref: "crc16_tail c p = foldl (\<lambda>c b. crc_roll (c XOR push_bit 8 (ucast b))) c p"
  by (induction p arbitrary: c) (simp_all add: byte_step)

text \<open>Eight bytes at once: each byte's contribution rolled past the bytes that follow it.\<close>

lemma hi_index: "unat (drop_bit 8 c XOR ucast (b :: u8) :: u16) < 256"
proof -
  have m: "(0xFF :: u16) = mask 8" by (simp add: mask_eq_exp_minus_1)
  have "(drop_bit 8 c XOR ucast b :: u16) = (drop_bit 8 c XOR ucast b) AND 0xFF"
    unfolding m by (rule bit_word_eqI) (auto simp: bit_simps dest: bit_imp_le_length)
  then show ?thesis by (metis low_byte)
qed

lemma lo_index: "unat ((c AND 0xFF) XOR ucast (b :: u8) :: u16) < 256"
proof -
  have m: "(0xFF :: u16) = mask 8" by (simp add: mask_eq_exp_minus_1)
  have "((c AND 0xFF) XOR ucast b :: u16) = ((c AND 0xFF) XOR ucast b) AND 0xFF"
    unfolding m by (rule bit_word_eqI) (auto simp: bit_simps dest: bit_imp_le_length)
  then show ?thesis by (metis low_byte)
qed

lemma byte_index: "unat (b :: u8) < 256" "(of_nat (unat b) :: u16) = ucast b"
  using unsigned_less [of b, where 'a = nat] by simp_all

lemma slice_step:
  fixes b0 b1 :: u8
  shows "crc16_tab7 ! unat (drop_bit 8 c XOR ucast b0) XOR crc16_tab6 ! unat ((c AND 0xFF) XOR ucast b1) XOR
   crc16_tab5 ! unat b2 XOR crc16_tab4 ! unat b3 XOR crc16_tab3 ! unat b4 XOR crc16_tab2 ! unat b5 XOR
   crc16_tab1 ! unat b6 XOR crc16_tab0 ! unat b7 =
   foldl (\<lambda>c b. crc_roll (c XOR push_bit 8 (ucast b))) c [b0, b1, b2, b3, b4, b5, b6, b7]"
proof -
  let ?R = "\<lambda>k b. (crc_roll ^^ k) (push_bit 8 (ucast (b :: u8)))"
  have c: "(crc_roll ^^ 8) c = (crc_roll ^^ 8) (push_bit 8 (drop_bit 8 c)) XOR (crc_roll ^^ 7) (push_bit 8 (c AND 0xFF))"
  proof -
    have "(crc_roll ^^ 8) c = (crc_roll ^^ 8) (push_bit 8 (drop_bit 8 c) XOR (c AND 0xFF))" by (simp only: split_word)
    also have "\<dots> = (crc_roll ^^ 8) (push_bit 8 (drop_bit 8 c)) XOR (crc_roll ^^ 8) (c AND 0xFF)" by (rule rolls_xor)
    also have "(crc_roll ^^ 8) (c AND 0xFF) = (crc_roll ^^ Suc 7) (c AND 0xFF)" by simp
    also have "\<dots> = (crc_roll ^^ 7) (push_bit 8 (c AND 0xFF))" by (simp only: funpow_Suc_right comp_def roll_low)
    finally show ?thesis .
  qed
  have t7: "crc16_tab7 ! unat (drop_bit 8 c XOR ucast b0) = (crc_roll ^^ 8) (push_bit 8 (drop_bit 8 c)) XOR ?R 8 b0"
    using nth_tab7 [OF hi_index [of c b0]] by (simp only: push_bit_xor rolls_xor of_nat_unat ucast_id) (simp add: push_bit_xor rolls_xor)
  have t6: "crc16_tab6 ! unat ((c AND 0xFF) XOR ucast b1) = (crc_roll ^^ 7) (push_bit 8 (c AND 0xFF)) XOR ?R 7 b1"
    using nth_tab6 [OF lo_index [of c b1]] by (simp only: push_bit_xor rolls_xor of_nat_unat ucast_id) (simp add: push_bit_xor rolls_xor)
  have two: "(crc_roll ^^ 2) x = crc_roll (crc_roll x)" for x by (simp add: numeral_2_eq_2)
  note tb = nth_tab5 [OF byte_index(1)] nth_tab4 [OF byte_index(1)] nth_tab3 [OF byte_index(1)] nth_tab2 [OF byte_index(1)]
    nth_tab1 [OF byte_index(1)] nth_tab0 [OF byte_index(1)]
  have f: "foldl (\<lambda>c b. crc_roll (c XOR push_bit 8 (ucast b))) c [b0, b1, b2, b3, b4, b5, b6, b7] =
    (crc_roll ^^ 8) c XOR ?R 8 b0 XOR ?R 7 b1 XOR ?R 6 b2 XOR ?R 5 b3 XOR ?R 4 b4 XOR ?R 3 b5 XOR ?R 2 b6 XOR ?R 1 b7"
    by (simp add: roll_xor eval_nat_numeral xor.assoc)
  show ?thesis unfolding f t7 t6 tb byte_index(2) c by (simp add: ac_simps two)
qed

lemma loop_ref: "crc16_loop c p = foldl (\<lambda>c b. crc_roll (c XOR push_bit 8 (ucast b))) c p"
proof (induction c p rule: crc16_loop.induct)
  case (1 c p)
  show ?case
  proof (cases "8 \<le> length p")
    case True
    have "p = [p ! 0, p ! 1, p ! 2, p ! 3, p ! 4, p ! 5, p ! 6, p ! 7] @ drop 8 p"
    proof -
      have "take 8 p = [p ! 0, p ! 1, p ! 2, p ! 3, p ! 4, p ! 5, p ! 6, p ! 7]"
        using True by (intro nth_equalityI) (auto simp: less_Suc_eq numeral_eq_Suc)
      then show ?thesis by (metis append_take_drop_id)
    qed
    then have "foldl (\<lambda>c b. crc_roll (c XOR push_bit 8 (ucast b))) c p =
      foldl (\<lambda>c b. crc_roll (c XOR push_bit 8 (ucast b)))
        (foldl (\<lambda>c b. crc_roll (c XOR push_bit 8 (ucast b))) c [p ! 0, p ! 1, p ! 2, p ! 3, p ! 4, p ! 5, p ! 6, p ! 7]) (drop 8 p)"
      by (metis foldl_append)
    then show ?thesis using 1 [OF True] True by (subst crc16_loop.simps) (simp only: slice_step if_True)
  next
    case False
    then show ?thesis by (subst crc16_loop.simps) (simp add: tail_ref)
  qed
qed

lemma crc16_is_ref: "pc_crc16 p = crc16_ref p"
  by (simp add: pc_crc16_def crc16_ref_def loop_ref)

lemma memchr_Some: "memchr c s = Some i \<longleftrightarrow> (\<exists>a b. s = a @ c # b \<and> c \<notin> set a \<and> length a = i)"
proof
  assume "memchr c s = Some i"
  then have i: "i < length s" "s ! i = c" "\<forall>m < i. s ! m \<noteq> c" using find_index_Some by (fastforce simp: memchr_def)+
  then have "s = take i s @ c # drop (Suc i) s" using id_take_nth_drop by metis
  moreover have "c \<notin> set (take i s)" using i by (auto simp: in_set_conv_nth)
  ultimately show "\<exists>a b. s = a @ c # b \<and> c \<notin> set a \<and> length a = i" using i(1)
    by (metis length_take min.absorb2 less_imp_le)
next
  have "find_index (\<lambda>x. x = c) k (a @ c # b) = Some (k + length a)" if "c \<notin> set a" for k a b
    using that by (induction a arbitrary: k) auto
  then show "\<exists>a b. s = a @ c # b \<and> c \<notin> set a \<and> length a = i \<Longrightarrow> memchr c s = Some i" by (auto simp: memchr_def)
qed

lemma memchr_None: "memchr c s = None \<longleftrightarrow> c \<notin> set s"
  by (auto simp: memchr_def find_index_None)

section \<open>Properties\<close>

text \<open>C29: The slice-by-8 checksum over the eight constant tables is the bitwise CRC16-CCITT of
  every byte string: all 2048 constants are right and the slicing is exact.\<close>

theorem crc16_slicing_exact: "pc_crc16 p = crc16_ref p"
  by (rule crc16_is_ref)

text \<open>C30: The slot of a key is below 16384.  It is the checksum of the tag when the key has one
  (a non-empty body between the first opening brace and the next closing brace), and of the
  whole key otherwise, so keys with the same tag share a slot.\<close>

theorem key_slot_by_tag:
  "unat (pc_key_slot key) < 16384 \<and>
   (if \<exists>a t b. key = a @ 123 # t @ 125 # b \<and> 123 \<notin> set a \<and> 125 \<notin> set t \<and> t \<noteq> []
    then \<exists>a t b. key = a @ 123 # t @ 125 # b \<and> 123 \<notin> set a \<and> 125 \<notin> set t \<and> t \<noteq> [] \<and>
      pc_key_slot key = crc16_ref t mod 16384
    else pc_key_slot key = crc16_ref key mod 16384)"
proof -
  let ?tag = "\<lambda>t. \<exists>a b. key = a @ 123 # t @ 125 # b \<and> 123 \<notin> set a \<and> 125 \<notin> set t"
  have whole: "pc_key_slot key = crc16_ref key mod 16384" if no: "\<And>t. ?tag t \<Longrightarrow> t = []"
  proof (cases "memchr 123 key")
    case (Some i)
    then obtain a r where a: "key = a @ 123 # r" "123 \<notin> set a" "length a = i" using memchr_Some by blast
    show ?thesis
    proof (cases "memchr 125 (drop (i + 1) key)")
      case (Some c)
      then obtain t b where t: "r = t @ 125 # b" "125 \<notin> set t" "length t = c" using memchr_Some a by auto
      then have "t = []" using no [of t] a by auto
      then show ?thesis using \<open>memchr 123 key = Some i\<close> Some t by (simp add: pc_key_slot_def crc16_is_ref PC_SLOTS_def)
    qed (simp add: pc_key_slot_def \<open>memchr 123 key = Some i\<close> crc16_is_ref PC_SLOTS_def)
  qed (simp add: pc_key_slot_def crc16_is_ref PC_SLOTS_def)
  have tagged: "pc_key_slot key = crc16_ref t mod 16384" if t: "key = a @ 123 # t @ 125 # b" "123 \<notin> set a" "125 \<notin> set t" "t \<noteq> []" for a t b
  proof -
    have "memchr 123 key = Some (length a)" "memchr 125 (drop (length a + 1) key) = Some (length t)"
      using t memchr_Some by auto
    moreover have "window key (length a + 1) (length t) = t" using t(1) by (simp add: window_def)
    moreover obtain n where "length t = Suc n" using t(4) by (cases t) auto
    ultimately show ?thesis by (simp add: pc_key_slot_def crc16_is_ref PC_SLOTS_def)
  qed
  have "unat (x mod 16384) < 16384" for x :: u16 by (simp add: unat_mod)
  then have "unat (pc_key_slot key) < 16384" using whole tagged by metis
  then show ?thesis using whole tagged by (auto split: if_split) blast+
qed

end
