(* ===== verification/Clpend.thy ===== *)
theory Clpend
  imports Tables "HOL-Library.Signed_Division"
begin

text \<open>
  Parked requests and the completion queues (\<open>src/src/clpend.c\<close>, \<open>src/src/clpend.h\<close>,
  and the five-minute maximum of \<open>src/src/winctr.h\<close>).  A slot is an index into the table.
  Handles and generations are 32-bit words; the counts and the C \<open>int\<close>s that only count
  answers, nodes and kinds are integers; the two positions of a completion queue are 32-bit words read as
  signed, because they are never reset.  \<open>None\<close> as the result of an operation on a queue means
  that the position would index outside its array.  The lock is held across each operation; the
  event descriptor and the page touching are not represented.
\<close>

unbundle bit_operations_syntax

section \<open>The maximum of the last five minutes\<close>

definition PC_WIN_SLOTS :: nat where "PC_WIN_SLOTS = 6"

record winmax =
  wm_mi :: "nat list"
  wm_m :: "nat list"

definition pc_winmax_note :: "winmax \<Rightarrow> nat \<Rightarrow> nat \<Rightarrow> winmax" where
  "pc_winmax_note w now v =
    (let mi = now div 60; s = mi mod PC_WIN_SLOTS in
     if wm_mi w ! s \<noteq> mi then w\<lparr>wm_m := (wm_m w)[s := v], wm_mi := (wm_mi w)[s := mi]\<rparr>
     else if v > wm_m w ! s then w\<lparr>wm_m := (wm_m w)[s := v]\<rparr>
     else w)"

definition pc_winmax_get :: "winmax \<Rightarrow> nat \<Rightarrow> nat" where
  "pc_winmax_get w now =
    (let mi = now div 60 in
     foldl (\<lambda>r s. let sm = wm_mi w ! s; v = wm_m w ! s in
        if sm > mi \<or> mi - sm > PC_WIN_SLOTS - 2 then r else if v > r then v else r) 0 [0..<PC_WIN_SLOTS])"

section \<open>The table\<close>

definition WORKERS_MAX :: int where "WORKERS_MAX = 520"
definition PEND_DEFAULT :: int where "PEND_DEFAULT = 8192"
definition PEND_LIMIT :: int where "PEND_LIMIT = 65536"
definition PEND_MIN :: int where "PEND_MIN = 64"
definition PEND_TAG :: u32 where "PEND_TAG = 0x80000000"
definition PEND_SLOT_BITS :: nat where "PEND_SLOT_BITS = 16"
definition PEND_SLOT_MASK :: u32 where "PEND_SLOT_MASK = push_bit PEND_SLOT_BITS 1 - 1"
definition PEND_GEN_SHIFT :: nat where "PEND_GEN_SHIFT = PEND_SLOT_BITS"
definition PEND_GEN_MASK :: u32 where "PEND_GEN_MASK = PEND_TAG - 1 - PEND_SLOT_MASK"

definition PC_DONE_FWD_SET :: int where "PC_DONE_FWD_SET = 1"
definition PC_DONE_FWD_DEL :: int where "PC_DONE_FWD_DEL = 2"
definition PC_DONE_FWD_ADD :: int where "PC_DONE_FWD_ADD = 3"
definition PC_DONE_JSON :: int where "PC_DONE_JSON = 4"
definition PC_DONE_SET_RESUME :: int where "PC_DONE_SET_RESUME = 5"
definition PC_DONE_RECONCILE :: int where "PC_DONE_RECONCILE = 6"
definition PC_DONE_POSSESS :: int where "PC_DONE_POSSESS = 7"
definition PC_DONE_FWD_TOUCH :: int where "PC_DONE_FWD_TOUCH = 8"
definition PC_CLFAIL_NONE :: int where "PC_CLFAIL_NONE = 0"
definition PC_CLFAIL_BUSY :: int where "PC_CLFAIL_BUSY = 2"

record pending =
  pd_req :: u32
  pd_gen :: u32
  pd_worker :: int
  pd_expect :: int
  pd_kind :: int
  pd_answered :: bool
  pd_first_node :: int
  pd_first_ver :: u64
  pd_first_sum :: u32
  pd_deadline :: int
  pd_col :: bytes
  pd_key :: bytes
  pd_jop :: u8
  pd_probe_op :: u8
  pd_probe_fwd :: bool
  pd_stash :: "bytes option"
  pd_stash_len :: int
  pd_by :: int
  pd_ttl_rel :: u32

text \<open>A completion (\<open>struct pc_pull_done\<close>), and a worker's queue of them.\<close>

record pull_done =
  dn_req :: u32
  dn_kind :: int
  dn_found :: bool
  dn_ok :: int
  dn_newval :: int
  dn_from_node :: int
  dn_ttl_left :: u32
  dn_ver :: u64
  dn_timedout :: bool
  dn_val :: "bytes option"
  dn_vlen :: int
  dn_jop :: int
  dn_count :: int

record cqueue =
  cq_q :: "pull_done list option"
  cq_head :: "32 word"
  cq_tail :: "32 word"

record clpend =
  pe_pend :: "pending list"
  pe_cap :: nat
  pe_used :: int
  pe_peak :: int
  pe_wpeak :: winmax
  pe_used_kind :: "int list"
  pe_exhausted :: nat
  pe_reconcile_expired :: nat
  pe_cq :: "nat \<Rightarrow> cqueue"

definition zero_pending :: pending where
  "zero_pending = \<lparr>pd_req = 0, pd_gen = 0, pd_worker = 0, pd_expect = 0, pd_kind = 0, pd_answered = False,
     pd_first_node = 0, pd_first_ver = 0, pd_first_sum = 0, pd_deadline = 0, pd_col = [], pd_key = [], pd_jop = 0,
     pd_probe_op = 0, pd_probe_fwd = False, pd_stash = None, pd_stash_len = 0, pd_by = 0, pd_ttl_rel = 0\<rparr>"

definition clpend_init :: "bool \<Rightarrow> clpend \<Rightarrow> int \<Rightarrow> int \<times> clpend" where
  "clpend_init mem p cap =
    (let cap = (if cap \<le> 0 then PEND_DEFAULT else cap);
         cap = (if cap > PEND_LIMIT then PEND_LIMIT else cap);
         cap = (if cap < PEND_MIN then PEND_MIN else cap) in
     if \<not> mem then (0, p\<lparr>pe_pend := []\<rparr>)
     else (cap, p\<lparr>pe_pend := replicate (nat cap) zero_pending, pe_cap := nat cap, pe_used := 0, pe_peak := 0,
                  pe_exhausted := 0, pe_reconcile_expired := 0, pe_used_kind := replicate 16 0\<rparr>))"

definition clpend_fini :: "clpend \<Rightarrow> clpend" where
  "clpend_fini p = p\<lparr>pe_cq := (\<lambda>w. if int w < WORKERS_MAX then (pe_cq p w)\<lparr>cq_q := None\<rparr> else pe_cq p w),
     pe_pend := [], pe_cap := 0, pe_used := 0, pe_peak := 0\<rparr>"

definition put_slot :: "nat \<Rightarrow> pending \<Rightarrow> clpend \<Rightarrow> clpend" where
  "put_slot i s p = p\<lparr>pe_pend := (pe_pend p)[i := s]\<rparr>"

text \<open>Adding to one of the sixteen gauges; a kind outside them has none.\<close>

definition gauge :: "int \<Rightarrow> clpend \<Rightarrow> int" where
  "gauge kind p = (if 0 \<le> kind \<and> kind < 16 then pe_used_kind p ! nat kind else 0)"

definition gauge_dec :: "int \<Rightarrow> clpend \<Rightarrow> clpend" where
  "gauge_dec kind p =
    (if 0 \<le> kind \<and> kind < 16 \<and> pe_used_kind p ! nat kind > 0
     then p\<lparr>pe_used_kind := (pe_used_kind p)[nat kind := pe_used_kind p ! nat kind - 1]\<rparr> else p)"

definition gauge_inc :: "int \<Rightarrow> clpend \<Rightarrow> clpend" where
  "gauge_inc kind p =
    (if 0 \<le> kind \<and> kind < 16
     then p\<lparr>pe_used_kind := (pe_used_kind p)[nat kind := pe_used_kind p ! nat kind + 1]\<rparr> else p)"

definition clpend_release_locked :: "clpend \<Rightarrow> nat \<Rightarrow> clpend" where
  "clpend_release_locked p i =
    (let s = pe_pend p ! i in
     if pd_req s = 0 then p
     else
       let p = put_slot i (s\<lparr>pd_req := 0\<rparr>) p;
           p = (if pe_used p > 0 then p\<lparr>pe_used := pe_used p - 1\<rparr> else p)
       in gauge_dec (pd_kind s) p)"

text \<open>The unlocked callers' variant takes the lock around the same body.\<close>

definition clpend_release :: "clpend \<Rightarrow> nat \<Rightarrow> clpend" where
  "clpend_release p i = clpend_release_locked p i"

definition clpend_used_kind :: "clpend \<Rightarrow> int \<Rightarrow> int" where
  "clpend_used_kind p kind = gauge kind p"

definition clpend_find :: "clpend \<Rightarrow> u32 \<Rightarrow> nat option" where
  "clpend_find p req =
    (if req AND PEND_TAG = 0 then None
     else
       let i = unat (req AND PEND_SLOT_MASK) in
       if i \<ge> pe_cap p then None
       else if pd_req (pe_pend p ! i) = req then Some i else None)"

definition pend_gen_next :: "u32 \<Rightarrow> u32" where
  "pend_gen_next gen =
    (let gen = (gen + 1) AND drop_bit PEND_GEN_SHIFT PEND_GEN_MASK in if gen = 0 then 1 else gen)"

definition pend_handle :: "u32 \<Rightarrow> nat \<Rightarrow> u32" where
  "pend_handle gen i = PEND_TAG OR push_bit PEND_GEN_SHIFT gen OR of_nat i"

text \<open>The handle (0 when the table is full), the slot and the reason; \<open>ticks\<close> is the clock
  of the windowed peak.\<close>

definition clpend_alloc :: "nat \<Rightarrow> clpend \<Rightarrow> int \<Rightarrow> int \<Rightarrow> int \<Rightarrow> int \<Rightarrow> int \<Rightarrow> int \<Rightarrow>
    (u32 \<times> nat option \<times> int) \<times> clpend" where
  "clpend_alloc ticks p kind expect extra_ms worker now pull_timeout_ms =
    (case find_index (\<lambda>s. pd_req s = 0) 0 (pe_pend p) of
       None \<Rightarrow> ((0, None, PC_CLFAIL_BUSY), p\<lparr>pe_exhausted := pe_exhausted p + 1\<rparr>)
     | Some i \<Rightarrow>
         let p = p\<lparr>pe_used := pe_used p + 1\<rparr>;
             p = (if pe_used p > pe_peak p then p\<lparr>pe_peak := pe_used p\<rparr> else p);
             p = p\<lparr>pe_wpeak := pc_winmax_note (pe_wpeak p) ticks (nat (pe_used p))\<rparr>;
             gen = pend_gen_next (pd_gen (pe_pend p ! i));
             req = pend_handle gen i;
             s = zero_pending\<lparr>pd_gen := gen, pd_req := req, pd_worker := worker, pd_expect := expect, pd_kind := kind,
                   pd_deadline := now + pull_timeout_ms + extra_ms\<rparr>;
             p = gauge_inc kind (put_slot i s p)
         in ((req, Some i, PC_CLFAIL_NONE), p))"

definition clpend_peak_win :: "nat \<Rightarrow> clpend \<Rightarrow> nat" where
  "clpend_peak_win ticks p = pc_winmax_get (pe_wpeak p) ticks"

section \<open>The completion queues\<close>

definition zero_done :: pull_done where
  "zero_done = \<lparr>dn_req = 0, dn_kind = 0, dn_found = False, dn_ok = 0, dn_newval = 0, dn_from_node = 0, dn_ttl_left = 0,
     dn_ver = 0, dn_timedout = False, dn_val = None, dn_vlen = 0, dn_jop = 0, dn_count = 0\<rparr>"

definition clpend_cq_register :: "clpend \<Rightarrow> int \<Rightarrow> clpend" where
  "clpend_cq_register p worker =
    (if worker < 0 \<or> worker \<ge> WORKERS_MAX then p
     else
       let q = pe_cq p (nat worker) in
       if cq_q q = None
       then p\<lparr>pe_cq := (pe_cq p)(nat worker := q\<lparr>cq_q := Some (replicate (pe_cap p) zero_done)\<rparr>)\<rparr>
       else p)"

text \<open>\<open>pos % cap\<close> on C \<open>int\<close>s: the remainder takes the sign of the position.\<close>

definition cq_index :: "32 word \<Rightarrow> nat \<Rightarrow> nat option" where
  "cq_index pos cap = (let r = sint pos smod int cap in if r < 0 then None else Some (nat r))"

definition clpend_cq_post :: "bool \<Rightarrow> clpend \<Rightarrow> int \<Rightarrow> pull_done \<Rightarrow> clpend option" where
  "clpend_cq_post mem p worker d =
    (if worker < 0 \<or> worker \<ge> WORKERS_MAX then Some p
     else
       let q = pe_cq p (nat worker) in
       case cq_q q of
         None \<Rightarrow> Some p
       | Some qs \<Rightarrow>
           if sint (cq_tail q - cq_head q) < int (pe_cap p) then
             (case cq_index (cq_tail q) (pe_cap p) of
                None \<Rightarrow> None
              | Some i \<Rightarrow>
                  let d = (if dn_vlen d > 0 \<and> dn_val d \<noteq> None
                           then (if mem then d else d\<lparr>dn_val := None, dn_found := False\<rparr>)
                           else d\<lparr>dn_val := None\<rparr>)
                  in Some (p\<lparr>pe_cq := (pe_cq p)(nat worker := q\<lparr>cq_q := Some (qs[i := d]), cq_tail := cq_tail q + 1\<rparr>)\<rparr>))
           else Some p)"

text \<open>The loop of the drain: at most \<open>n\<close> more.\<close>

fun cq_take :: "nat \<Rightarrow> pull_done list \<Rightarrow> nat \<Rightarrow> 32 word \<Rightarrow> 32 word \<Rightarrow> (pull_done list \<times> 32 word) option" where
  "cq_take 0 qs cap head tail = Some ([], head)"
| "cq_take (Suc n) qs cap head tail =
    (if head = tail then Some ([], head)
     else case cq_index head cap of
       None \<Rightarrow> None
     | Some i \<Rightarrow> map_option (\<lambda>(ds, h). (qs ! i # ds, h)) (cq_take n qs cap (head + 1) tail))"

definition clpend_cq_drain :: "clpend \<Rightarrow> int \<Rightarrow> nat \<Rightarrow> (pull_done list \<times> clpend) option" where
  "clpend_cq_drain p worker mx =
    (if worker < 0 \<or> worker \<ge> WORKERS_MAX then Some ([], p)
     else
       let q = pe_cq p (nat worker) in
       case cq_take mx (case cq_q q of None \<Rightarrow> [] | Some qs \<Rightarrow> qs) (pe_cap p) (cq_head q) (cq_tail q) of
         None \<Rightarrow> None
       | Some (ds, h) \<Rightarrow> Some (ds, p\<lparr>pe_cq := (pe_cq p)(nat worker := q\<lparr>cq_head := h\<rparr>)\<rparr>))"

section \<open>Answers\<close>

definition clpend_retire :: "clpend \<Rightarrow> u32 \<Rightarrow> bool \<Rightarrow> (int \<times> int) option \<times> clpend" where
  "clpend_retire p req only_unanswered =
    (case clpend_find p req of
       None \<Rightarrow> (None, p)
     | Some i \<Rightarrow>
         let s = pe_pend p ! i in
         if \<not> (only_unanswered \<and> pd_answered s) then (Some (pd_worker s, pd_kind s), clpend_release_locked p i)
         else (None, p))"

datatype clpend_ans = ANS_IGNORE | ANS_WAIT | ANS_HIT | ANS_MISS | ANS_RACE | ANS_SAME | ANS_PROBE_FWD | ANS_RESUME
  | ANS_RECONCILE | ANS_POSSESS

record ans_out =
  ao_worker :: int
  ao_kind :: int
  ao_from_node :: int
  ao_winner :: int
  ao_loser :: int
  ao_loser_ver :: u64
  ao_col :: bytes
  ao_key :: bytes
  ao_probe_op :: u8
  ao_stash :: "bytes option"
  ao_stash_len :: int
  ao_by :: int
  ao_ttl_rel :: u32

definition zero_out :: ans_out where
  "zero_out = \<lparr>ao_worker = 0, ao_kind = 0, ao_from_node = 0, ao_winner = 0, ao_loser = 0, ao_loser_ver = 0, ao_col = [],
     ao_key = [], ao_probe_op = 0, ao_stash = None, ao_stash_len = 0, ao_by = 0, ao_ttl_rel = 0\<rparr>"

text \<open>The shared tail of three branches: one answer less is awaited, and the slot goes with the last.\<close>

definition one_less :: "clpend \<Rightarrow> nat \<Rightarrow> pending \<Rightarrow> clpend" where
  "one_less p i s =
    (let s = s\<lparr>pd_expect := pd_expect s - 1\<rparr>; p = put_slot i s p
     in if pd_expect s \<le> 0 then clpend_release_locked p i else p)"

definition answer_probe :: "clpend \<Rightarrow> nat \<Rightarrow> pending \<Rightarrow> int \<Rightarrow> u64 \<Rightarrow> u32 \<Rightarrow> int \<Rightarrow> clpend_ans \<times> ans_out \<times> clpend" where
  "answer_probe p i s from_node ver vsum fwd_deadline =
    (let out = zero_out\<lparr>ao_probe_op := pd_probe_op s, ao_stash := pd_stash s, ao_stash_len := pd_stash_len s, ao_by := pd_by s,
                 ao_ttl_rel := pd_ttl_rel s, ao_from_node := from_node, ao_col := pd_col s, ao_key := pd_key s\<rparr>;
         p = gauge_dec (pd_kind s) p;
         kind = (if pd_probe_op s = 2 then PC_DONE_FWD_ADD else if pd_probe_op s = 3 then PC_DONE_FWD_TOUCH
                 else if pd_probe_op s = 4 then PC_DONE_FWD_DEL else PC_DONE_FWD_SET);
         p = gauge_inc kind p;
         s = s\<lparr>pd_kind := kind, pd_first_node := from_node, pd_first_ver := ver, pd_first_sum := vsum, pd_probe_op := 0,
               pd_probe_fwd := True, pd_stash := None, pd_stash_len := 0, pd_expect := 2 ^ 30, pd_deadline := fwd_deadline\<rparr>
     in (ANS_PROBE_FWD, out\<lparr>ao_kind := kind\<rparr>, put_slot i s p))"

definition same_record :: "pending \<Rightarrow> u64 \<Rightarrow> u32 \<Rightarrow> bool" where
  "same_record s ver vsum \<longleftrightarrow> ver \<noteq> 0 \<and> pd_first_ver s \<noteq> 0 \<and> ver = pd_first_ver s \<and>
     (vsum = 0 \<or> pd_first_sum s = 0 \<or> vsum = pd_first_sum s)"

definition race_out :: "pending \<Rightarrow> int \<Rightarrow> u64 \<Rightarrow> ans_out" where
  "race_out s from_node ver =
    (let older_first = (if ver \<noteq> 0 \<and> pd_first_ver s \<noteq> 0 \<and> ver \<noteq> pd_first_ver s
                        then pd_first_ver s < ver else pd_first_node s > from_node)
     in zero_out\<lparr>ao_winner := (if older_first then from_node else pd_first_node s),
                 ao_loser := (if older_first then pd_first_node s else from_node),
                 ao_loser_ver := (if ver \<noteq> 0 \<and> pd_first_ver s \<noteq> 0 then (if older_first then pd_first_ver s else ver) else 0),
                 ao_col := pd_col s, ao_key := pd_key s\<rparr>)"

definition answer_positive :: "clpend \<Rightarrow> nat \<Rightarrow> pending \<Rightarrow> int \<Rightarrow> u64 \<Rightarrow> u32 \<Rightarrow> clpend_ans \<times> ans_out \<times> clpend" where
  "answer_positive p i s from_node ver vsum =
    (if \<not> pd_answered s \<and> \<not> pd_probe_fwd s then
       let out = zero_out\<lparr>ao_worker := pd_worker s, ao_from_node := from_node, ao_col := pd_col s, ao_key := pd_key s\<rparr>;
           s = s\<lparr>pd_answered := True, pd_first_node := from_node, pd_first_ver := ver, pd_first_sum := vsum\<rparr>
       in if pd_kind s = PC_DONE_POSSESS then (ANS_POSSESS, out, clpend_release_locked (put_slot i s p) i)
          else (ANS_HIT, out, one_less p i s)
     else if same_record s ver vsum then (ANS_SAME, zero_out, one_less p i s)
     else (ANS_RACE, race_out s from_node ver, one_less p i s))"

definition answer_negative :: "clpend \<Rightarrow> nat \<Rightarrow> pending \<Rightarrow> clpend_ans \<times> ans_out \<times> clpend" where
  "answer_negative p i s =
    (let s = s\<lparr>pd_expect := pd_expect s - 1\<rparr> in
     if pd_expect s \<le> 0 \<and> \<not> pd_answered s then
       let out = zero_out\<lparr>ao_worker := pd_worker s\<rparr> in
       if pd_probe_op s \<noteq> 0 then
         (ANS_RESUME,
          out\<lparr>ao_probe_op := pd_probe_op s, ao_stash := pd_stash s, ao_stash_len := pd_stash_len s, ao_by := pd_by s,
              ao_ttl_rel := pd_ttl_rel s\<rparr>,
          clpend_release_locked (put_slot i (s\<lparr>pd_stash := None\<rparr>) p) i)
       else if pd_kind s = PC_DONE_RECONCILE then
         (ANS_RECONCILE, out\<lparr>ao_col := pd_col s, ao_key := pd_key s\<rparr>, clpend_release_locked (put_slot i s p) i)
       else (ANS_MISS, out, clpend_release_locked (put_slot i s p) i)
     else if pd_expect s \<le> 0 then (ANS_IGNORE, zero_out, clpend_release_locked (put_slot i s p) i)
     else (ANS_WAIT, zero_out, put_slot i s p))"

definition clpend_answer :: "clpend \<Rightarrow> u32 \<Rightarrow> bool \<Rightarrow> int \<Rightarrow> u64 \<Rightarrow> u32 \<Rightarrow> int \<Rightarrow> clpend_ans \<times> ans_out \<times> clpend" where
  "clpend_answer p req positive from_node ver vsum fwd_deadline =
    (case clpend_find p req of
       None \<Rightarrow> (ANS_IGNORE, zero_out, p)
     | Some i \<Rightarrow>
         let s = pe_pend p ! i in
         if pd_probe_op s \<noteq> 0 \<and> positive then answer_probe p i s from_node ver vsum fwd_deadline
         else if positive then answer_positive p i s from_node ver vsum
         else answer_negative p i s)"

section \<open>Deadlines\<close>

definition timeout_done :: "pending \<Rightarrow> pull_done" where
  "timeout_done s =
    (let d = \<lparr>dn_req = pd_req s, dn_kind = pd_kind s, dn_found = False, dn_ok = 0, dn_newval = 0, dn_from_node = 0,
              dn_ttl_left = 0, dn_ver = 0, dn_timedout = True, dn_val = None, dn_vlen = 0, dn_jop = uint (pd_jop s), dn_count = 0\<rparr>
     in if pd_probe_op s \<noteq> 0 then d\<lparr>dn_kind := PC_DONE_SET_RESUME, dn_jop := uint (pd_probe_op s)\<rparr>
        else d\<lparr>dn_ok := (if pd_kind s = PC_DONE_JSON then 2 else 0)\<rparr>)"

definition expire_slot :: "int \<Rightarrow> nat \<Rightarrow> nat \<times> clpend \<Rightarrow> (nat \<times> clpend) option" where
  "expire_slot now i st =
    (case st of (timeouts, p) \<Rightarrow>
       let s = pe_pend p ! i in
       if pd_req s \<noteq> 0 \<and> pd_deadline s \<le> now then
         let p = clpend_release_locked (put_slot i (s\<lparr>pd_stash := None\<rparr>) p) i in
         if \<not> pd_answered s then
           let p = (if pd_kind s = PC_DONE_RECONCILE then p\<lparr>pe_reconcile_expired := pe_reconcile_expired p + 1\<rparr> else p)
           in map_option (\<lambda>p. (timeouts + 1, p)) (clpend_cq_post True p (pd_worker s) (timeout_done s))
         else Some (timeouts, p)
       else Some st)"

fun expire_loop :: "int \<Rightarrow> nat list \<Rightarrow> nat \<times> clpend \<Rightarrow> (nat \<times> clpend) option" where
  "expire_loop now [] st = Some st"
| "expire_loop now (i # is) st = Option.bind (expire_slot now i st) (expire_loop now is)"

definition clpend_expire :: "clpend \<Rightarrow> int \<Rightarrow> (nat \<times> clpend) option" where
  "clpend_expire p now = expire_loop now [0..<pe_cap p] (0, p)"

end
