(* ===== verification/Clpend_Thms.thy ===== *)
theory Clpend_Thms
  imports Clpend
begin

text \<open>
  What the parked-request table promises: exact occupancy, handles that a recycled slot does not
  answer to, one completion for each request, verdicts that do not depend on the order of
  answers, and a queue that delivers in order while its positions have not wrapped.
\<close>

unbundle bit_operations_syntax

section \<open>What a table stands for\<close>

definition occupied :: "clpend \<Rightarrow> pending list" where
  "occupied p = filter (\<lambda>s. pd_req s \<noteq> 0) (pe_pend p)"

definition slot_ok :: "nat \<Rightarrow> pending \<Rightarrow> bool" where
  "slot_ok i s \<longleftrightarrow> unat (pd_gen s) < 32768 \<and> (pd_req s \<noteq> 0 \<longrightarrow> pd_gen s \<noteq> 0 \<and> pd_req s = pend_handle (pd_gen s) i)"

definition parked_inv :: "clpend \<Rightarrow> bool" where
  "parked_inv p \<longleftrightarrow> length (pe_pend p) = pe_cap p \<and> pe_cap p \<le> 65536 \<and> pe_used p = int (length (occupied p)) \<and>
     length (pe_used_kind p) = 16 \<and>
     (\<forall>k. 0 \<le> k \<and> k < 16 \<longrightarrow> gauge k p = int (length (filter (\<lambda>s. pd_kind s = k) (occupied p)))) \<and>
     (\<forall>i < pe_cap p. slot_ok i (pe_pend p ! i)) \<and> pe_used p \<le> pe_peak p"

text \<open>A request that is parked and not yet answered.\<close>

definition open_req :: "clpend \<Rightarrow> u32 \<Rightarrow> bool" where
  "open_req p h \<longleftrightarrow> (\<exists>i. clpend_find p h = Some i \<and> \<not> pd_answered (pe_pend p ! i))"

definition completing :: "clpend_ans \<Rightarrow> bool" where
  "completing a \<longleftrightarrow> a \<in> {ANS_HIT, ANS_MISS, ANS_RESUME, ANS_RECONCILE, ANS_POSSESS}"

text \<open>How an operation may change the slot it is about.\<close>

definition slot_step :: "bool \<Rightarrow> pending \<Rightarrow> pending \<Rightarrow> bool" where
  "slot_step completes s s' \<longleftrightarrow> pd_gen s' = pd_gen s \<and> (pd_req s' = pd_req s \<or> pd_req s' = 0) \<and> (pd_answered s \<longrightarrow> pd_answered s') \<and>
     (completes \<longrightarrow> \<not> pd_answered s \<and> (pd_answered s' \<or> pd_req s' = 0))"

text \<open>What a deadline pass does to a slot, and the completions it owes.\<close>

definition overran :: "int \<Rightarrow> pending \<Rightarrow> bool" where
  "overran now s \<longleftrightarrow> pd_req s \<noteq> 0 \<and> pd_deadline s \<le> now"

definition swept :: "int \<Rightarrow> pending \<Rightarrow> pending" where
  "swept now s = (if overran now s then s\<lparr>pd_stash := None, pd_req := 0\<rparr> else s)"

definition overdue :: "int \<Rightarrow> clpend \<Rightarrow> pending list" where
  "overdue now p = filter (\<lambda>s. overran now s \<and> \<not> pd_answered s) (pe_pend p)"

fun post_all :: "clpend \<Rightarrow> pending list \<Rightarrow> clpend option" where
  "post_all p [] = Some p"
| "post_all p (s # ss) = Option.bind (clpend_cq_post True p (pd_worker s) (timeout_done s)) (\<lambda>p. post_all p ss)"

text \<open>What a run has done: how often each slot was handed out, how often each handle was given to
  a requester and completed, and how many unconditional acknowledgements met a request that had
  already been answered.\<close>

record pend_log =
  lg_reuse :: "nat \<Rightarrow> nat"
  lg_opened :: "u32 \<Rightarrow> nat"
  lg_done :: "u32 \<Rightarrow> nat"
  lg_late :: "u32 \<Rightarrow> nat"

definition no_log :: pend_log where
  "no_log = \<lparr>lg_reuse = (\<lambda>_. 0), lg_opened = (\<lambda>_. 0), lg_done = (\<lambda>_. 0), lg_late = (\<lambda>_. 0)\<rparr>"

definition bump :: "'a \<Rightarrow> bool \<Rightarrow> ('a \<Rightarrow> nat) \<Rightarrow> 'a \<Rightarrow> nat" where
  "bump x b f = f(x := f x + of_bool b)"

text \<open>A run of operations. A requester fills the fields of its own slot (\<open>park\<close>) without
  touching the four that the table keeps.\<close>

inductive pend_steps :: "clpend \<Rightarrow> pend_log \<Rightarrow> clpend \<Rightarrow> bool" where
  none: "pend_steps p no_log p"
| alloc: "pend_steps p l q \<Longrightarrow> clpend_alloc ticks q kind expect extra worker now tmo = ((h, Some i, rc), q') \<Longrightarrow>
    pend_steps p (l\<lparr>lg_reuse := bump i True (lg_reuse l), lg_opened := bump h True (lg_opened l)\<rparr>) q'"
| full: "pend_steps p l q \<Longrightarrow> clpend_alloc ticks q kind expect extra worker now tmo = ((h, None, rc), q') \<Longrightarrow> pend_steps p l q'"
| answer: "pend_steps p l q \<Longrightarrow> clpend_answer q req positive from_node ver vsum dl = (a, out, q') \<Longrightarrow>
    pend_steps p (l\<lparr>lg_done := bump req (completing a) (lg_done l)\<rparr>) q'"
| retire: "pend_steps p l q \<Longrightarrow> clpend_retire q req only = (r, q') \<Longrightarrow>
    pend_steps p (l\<lparr>lg_done := bump req (r \<noteq> None) (lg_done l),
      lg_late := bump req (\<not> only \<and> r \<noteq> None \<and> \<not> open_req q req) (lg_late l)\<rparr>) q'"
| expire: "pend_steps p l q \<Longrightarrow> clpend_expire q now = Some (t, q') \<Longrightarrow>
    pend_steps p (l\<lparr>lg_done := (\<lambda>h. lg_done l h + length (filter (\<lambda>s. pd_req s = h) (overdue now q)))\<rparr>) q'"
| release: "pend_steps p l q \<Longrightarrow> clpend_find q h = Some i \<Longrightarrow>
    pend_steps p l (clpend_release q i)"
| park: "pend_steps p l q \<Longrightarrow> i < pe_cap q \<Longrightarrow> pd_req s = pd_req (pe_pend q ! i) \<Longrightarrow> pd_gen s = pd_gen (pe_pend q ! i) \<Longrightarrow>
    pd_kind s = pd_kind (pe_pend q ! i) \<Longrightarrow> pd_answered s = pd_answered (pe_pend q ! i) \<Longrightarrow> pend_steps p l (put_slot i s q)"
| post: "pend_steps p l q \<Longrightarrow> clpend_cq_post mem q worker d = Some q' \<Longrightarrow> pend_steps p l q'"
| drain: "pend_steps p l q \<Longrightarrow> clpend_cq_drain q worker mx = Some (ds, q') \<Longrightarrow> pend_steps p l q'"
| register: "pend_steps p l q \<Longrightarrow> pend_steps p l (clpend_cq_register q worker)"

text \<open>The completions a worker's queue holds, oldest first, while its positions have not wrapped.\<close>

definition cq_ready :: "nat \<Rightarrow> cqueue \<Rightarrow> bool" where
  "cq_ready cap q \<longleftrightarrow> 0 < cap \<and> (\<exists>qs. cq_q q = Some qs \<and> length qs = cap) \<and> unat (cq_head q) \<le> unat (cq_tail q) \<and>
     unat (cq_tail q) \<le> unat (cq_head q) + cap \<and> unat (cq_tail q) < 2 ^ 31"

definition cq_items :: "nat \<Rightarrow> cqueue \<Rightarrow> pull_done list" where
  "cq_items cap q = map (\<lambda>k. the (cq_q q) ! (k mod cap)) [unat (cq_head q)..<unat (cq_tail q)]"

text \<open>What of a completion is queued: a value that could not be copied is reported as not found.\<close>

definition carried :: "bool \<Rightarrow> pull_done \<Rightarrow> pull_done" where
  "carried mem d = (if dn_vlen d > 0 \<and> dn_val d \<noteq> None then (if mem then d else d\<lparr>dn_val := None, dn_found := False\<rparr>)
     else d\<lparr>dn_val := None\<rparr>)"

section \<open>Handles\<close>

lemma small_bits: "unat (w :: 'a::len word) < 2 ^ k \<Longrightarrow> bit w n \<Longrightarrow> n < k"
proof (rule ccontr)
  assume a: "unat w < 2 ^ k" "bit w n" "\<not> n < k"
  then have "unat w < 2 ^ n" by (metis not_less one_le_numeral order_less_le_trans power_increasing)
  then show False using a(2) by (simp add: bit_odd_unat)
qed

lemma masks: "PEND_SLOT_MASK = mask 16" "drop_bit PEND_GEN_SHIFT PEND_GEN_MASK = mask 15"
  by (simp_all add: PEND_SLOT_MASK_def PEND_SLOT_BITS_def PEND_GEN_SHIFT_def PEND_GEN_MASK_def PEND_TAG_def mask_eq_exp_minus_1
      push_bit_eq_mult)

lemma tag_bit: "bit PEND_TAG n \<longleftrightarrow> n = 31"
proof -
  have t: "PEND_TAG = 2 ^ 31" by (simp add: PEND_TAG_def)
  show ?thesis unfolding t by (subst bit_exp_iff) auto
qed

lemma handle_bit:
  assumes "unat g < 32768" "i < 65536"
  shows "bit (pend_handle g i) n \<longleftrightarrow> n = 31 \<or> (16 \<le> n \<and> n < 31 \<and> bit g (n - 16)) \<or> n < 16 \<and> bit (of_nat i :: u32) n"
proof -
  have "unat (of_nat i :: u32) = i" using assms(2) by (intro unat_of_nat_small) simp
  then have "bit (of_nat i :: u32) n \<Longrightarrow> n < 16" using small_bits [of "of_nat i :: u32" 16 n] assms(2) by simp
  moreover have "bit g (n - 16) \<Longrightarrow> n - 16 < 15" using small_bits [of g 15 "n - 16"] assms(1) by simp
  moreover have "bit (pend_handle g i) n \<longleftrightarrow> n = 31 \<or> (16 \<le> n \<and> n < 32 \<and> bit g (n - 16)) \<or> bit (of_nat i :: u32) n"
    by (auto simp: pend_handle_def bit_or_iff tag_bit bit_push_bit_iff PEND_GEN_SHIFT_def PEND_SLOT_BITS_def)
  ultimately show ?thesis by auto
qed

lemma handle_facts:
  assumes "unat g < 32768" "i < 65536"
  shows "pend_handle g i AND PEND_TAG \<noteq> 0" "pend_handle g i \<noteq> 0" "unat (pend_handle g i AND PEND_SLOT_MASK) = i"
    "drop_bit 16 (pend_handle g i) AND mask 15 = g"
proof -
  have "bit (pend_handle g i AND PEND_TAG) 31" using handle_bit [OF assms] by (simp add: bit_and_iff tag_bit)
  then show "pend_handle g i AND PEND_TAG \<noteq> 0" by auto
  then show "pend_handle g i \<noteq> 0" by auto
  have u: "unat (of_nat i :: u32) = i" using assms(2) by (intro unat_of_nat_small) simp
  have "pend_handle g i AND PEND_SLOT_MASK = of_nat i"
    using small_bits [of "of_nat i :: u32" 16] u assms(2)
    by (intro bit_word_eqI) (auto simp: bit_and_iff masks bit_mask_iff handle_bit [OF assms])
  then show "unat (pend_handle g i AND PEND_SLOT_MASK) = i" using u by simp
  show "drop_bit 16 (pend_handle g i) AND mask 15 = g"
    using small_bits [of g 15] assms(1)
    by (intro bit_word_eqI) (auto simp: bit_and_iff bit_mask_iff bit_drop_bit_eq handle_bit [OF assms] comp_def)
qed

lemma handle_inj:
  assumes "unat g < 32768" "i < 65536" "unat g' < 32768" "i' < 65536" "pend_handle g i = pend_handle g' i'"
  shows "g = g'" "i = i'"
  using handle_facts(3,4) [OF assms(1,2)] handle_facts(3,4) [OF assms(3,4)] assms(5) by simp_all

lemma find_iff:
  assumes "parked_inv p"
  shows "clpend_find p h = Some i \<longleftrightarrow> i < pe_cap p \<and> pd_req (pe_pend p ! i) = h \<and> h \<noteq> 0"
proof
  assume "clpend_find p h = Some i"
  then show "i < pe_cap p \<and> pd_req (pe_pend p ! i) = h \<and> h \<noteq> 0" by (auto simp: clpend_find_def Let_def split: if_splits)
next
  assume a: "i < pe_cap p \<and> pd_req (pe_pend p ! i) = h \<and> h \<noteq> 0"
  then have "slot_ok i (pe_pend p ! i)" "i < 65536" using assms by (auto simp: parked_inv_def)
  then have "h AND PEND_TAG \<noteq> 0" "unat (h AND PEND_SLOT_MASK) = i" using a handle_facts by (auto simp: slot_ok_def)
  then show "clpend_find p h = Some i" using a by (simp add: clpend_find_def)
qed

section \<open>Changing one slot\<close>

lemma count_update:
  "i < length xs \<Longrightarrow> int (length (filter P (xs[i := y]))) = int (length (filter P xs)) - of_bool (P (xs ! i)) + of_bool (P y)"
proof (induction xs arbitrary: i)
  case (Cons x xs)
  then show ?case by (cases i) auto
qed simp

lemma gauge_dec_simps [simp]:
  "pe_pend (gauge_dec k p) = pe_pend p" "pe_cap (gauge_dec k p) = pe_cap p" "pe_used (gauge_dec k p) = pe_used p"
  "pe_peak (gauge_dec k p) = pe_peak p" "length (pe_used_kind (gauge_dec k p)) = length (pe_used_kind p)" "pe_cq (gauge_dec k p) = pe_cq p"
  by (simp_all add: gauge_dec_def)

lemma gauge_inc_simps [simp]:
  "pe_pend (gauge_inc k p) = pe_pend p" "pe_cap (gauge_inc k p) = pe_cap p" "pe_used (gauge_inc k p) = pe_used p"
  "pe_peak (gauge_inc k p) = pe_peak p" "length (pe_used_kind (gauge_inc k p)) = length (pe_used_kind p)" "pe_cq (gauge_inc k p) = pe_cq p"
  by (simp_all add: gauge_inc_def)

lemma put_slot_simps [simp]:
  "pe_pend (put_slot i s p) = (pe_pend p)[i := s]" "pe_cap (put_slot i s p) = pe_cap p" "pe_used (put_slot i s p) = pe_used p"
  "pe_peak (put_slot i s p) = pe_peak p" "pe_used_kind (put_slot i s p) = pe_used_kind p" "pe_cq (put_slot i s p) = pe_cq p"
  by (simp_all add: put_slot_def)

lemma gauge_simps [simp]:
  "gauge k (put_slot i s p) = gauge k p" "gauge k (p\<lparr>pe_used := u\<rparr>) = gauge k p" "gauge k (p\<lparr>pe_peak := u\<rparr>) = gauge k p"
  "gauge k (p\<lparr>pe_wpeak := w\<rparr>) = gauge k p" "gauge k (p\<lparr>pe_exhausted := n\<rparr>) = gauge k p"
  "gauge k (p\<lparr>pe_reconcile_expired := n\<rparr>) = gauge k p" "gauge k (p\<lparr>pe_cq := c\<rparr>) = gauge k p" "gauge k (p\<lparr>pe_pend := x\<rparr>) = gauge k p"
  by (simp_all add: gauge_def put_slot_def)

lemma gauge_after_dec:
  "length (pe_used_kind p) = 16 \<Longrightarrow> 0 \<le> j \<Longrightarrow> j < 16 \<Longrightarrow> 0 < gauge k p \<or> \<not> (0 \<le> k \<and> k < 16) \<Longrightarrow>
    gauge j (gauge_dec k p) = gauge j p - of_bool (j = k)"
  by (auto simp: gauge_dec_def gauge_def nth_list_update)

lemma gauge_after_inc:
  "length (pe_used_kind p) = 16 \<Longrightarrow> 0 \<le> j \<Longrightarrow> j < 16 \<Longrightarrow> gauge j (gauge_inc k p) = gauge j p + of_bool (j = k)"
  by (auto simp: gauge_inc_def gauge_def nth_list_update)

lemma inv_change:
  assumes "parked_inv p" "i < pe_cap p" "slot_ok i s"
    "pe_pend p' = (pe_pend p)[i := s]" "pe_cap p' = pe_cap p" "length (pe_used_kind p') = 16" "pe_used p' \<le> pe_peak p'"
    "pe_used p' = pe_used p - of_bool (pd_req (pe_pend p ! i) \<noteq> 0) + of_bool (pd_req s \<noteq> 0)"
    "\<And>k. 0 \<le> k \<Longrightarrow> k < 16 \<Longrightarrow> gauge k p' = gauge k p - of_bool (pd_req (pe_pend p ! i) \<noteq> 0 \<and> pd_kind (pe_pend p ! i) = k)
        + of_bool (pd_req s \<noteq> 0 \<and> pd_kind s = k)"
  shows "parked_inv p'"
proof -
  have l: "i < length (pe_pend p)" using assms(1,2) by (simp add: parked_inv_def)
  have "pe_used p' = int (length (occupied p'))"
    using assms(1,8) count_update [OF l, of "\<lambda>s. pd_req s \<noteq> 0" s] by (simp add: occupied_def assms(4) parked_inv_def)
  moreover have "gauge k p' = int (length (filter (\<lambda>s. pd_kind s = k) (occupied p')))" if "0 \<le> k" "k < 16" for k
    using assms(1) assms(9) [OF that] that count_update [OF l, of "\<lambda>s. pd_kind s = k \<and> pd_req s \<noteq> 0" s]
    by (simp add: occupied_def assms(4) parked_inv_def conj_commute)
  moreover have "slot_ok j (pe_pend p' ! j)" if "j < pe_cap p'" for j
    using that assms(1,2,3,5) l by (auto simp: assms(4) parked_inv_def nth_list_update)
  ultimately show ?thesis using assms(1,5-7) by (simp add: parked_inv_def assms(4))
qed

lemma occupied_kind:
  assumes "parked_inv p" "i < pe_cap p" "pd_req (pe_pend p ! i) \<noteq> 0"
  shows "0 < pe_used p" "0 < gauge (pd_kind (pe_pend p ! i)) p \<or> \<not> (0 \<le> pd_kind (pe_pend p ! i) \<and> pd_kind (pe_pend p ! i) < 16)"
proof -
  have m: "pe_pend p ! i \<in> set (occupied p)" using assms by (auto simp: occupied_def parked_inv_def)
  then have "occupied p \<noteq> []" by auto
  then show "0 < pe_used p" using assms(1) by (simp add: parked_inv_def)
  have "filter (\<lambda>s. pd_kind s = pd_kind (pe_pend p ! i)) (occupied p) \<noteq> []" using m by (auto simp: filter_empty_conv)
  then show "0 < gauge (pd_kind (pe_pend p ! i)) p \<or> \<not> (0 \<le> pd_kind (pe_pend p ! i) \<and> pd_kind (pe_pend p ! i) < 16)"
    using assms(1) by (auto simp: parked_inv_def)
qed

lemma release_fields:
  "pe_cap (clpend_release_locked p i) = pe_cap p" "pe_cq (clpend_release_locked p i) = pe_cq p" "pe_peak (clpend_release_locked p i) = pe_peak p"
  "pe_pend (clpend_release_locked p i) = (pe_pend p)[i := (pe_pend p ! i)\<lparr>pd_req := 0\<rparr>]"
proof -
  have "s\<lparr>pd_req := 0\<rparr> = s" if "pd_req s = 0" for s :: pending using that by (cases s) simp
  then have "pd_req (pe_pend p ! i) = 0 \<Longrightarrow> (pe_pend p)[i := (pe_pend p ! i)\<lparr>pd_req := 0\<rparr>] = pe_pend p"
    by (metis list_update_id)
  then show "pe_pend (clpend_release_locked p i) = (pe_pend p)[i := (pe_pend p ! i)\<lparr>pd_req := 0\<rparr>]"
    by (auto simp: clpend_release_locked_def Let_def)
qed (simp_all add: clpend_release_locked_def Let_def)

lemma release_inv:
  assumes "parked_inv p" "i < pe_cap p"
  shows "parked_inv (clpend_release_locked p i)"
proof (cases "pd_req (pe_pend p ! i) = 0")
  case True
  then show ?thesis using assms by (simp add: clpend_release_locked_def)
next
  case False
  let ?s = "(pe_pend p ! i)\<lparr>pd_req := 0\<rparr>"
  note o = occupied_kind [OF assms False]
  have ok: "slot_ok i ?s" using assms by (simp add: parked_inv_def slot_ok_def)
  have u: "length (pe_used_kind p) = 16" "pe_used p \<le> pe_peak p" using assms(1) by (simp_all add: parked_inv_def)
  have e: "clpend_release_locked p i = gauge_dec (pd_kind (pe_pend p ! i)) ((put_slot i ?s p)\<lparr>pe_used := pe_used p - 1\<rparr>)"
    using False o(1) by (simp add: clpend_release_locked_def Let_def)
  show ?thesis unfolding e
  proof (rule inv_change [OF assms ok])
    fix k :: int assume "0 \<le> k" "k < 16"
    then show "gauge k (gauge_dec (pd_kind (pe_pend p ! i)) ((put_slot i ?s p)\<lparr>pe_used := pe_used p - 1\<rparr>)) =
      gauge k p - of_bool (pd_req (pe_pend p ! i) \<noteq> 0 \<and> pd_kind (pe_pend p ! i) = k) + of_bool (pd_req ?s \<noteq> 0 \<and> pd_kind ?s = k)"
      using False o(2) u(1) by (subst gauge_after_dec) auto
  qed (use u False in auto)
qed

lemma put_inv:
  assumes "parked_inv p" "i < pe_cap p" "pd_req s = pd_req (pe_pend p ! i)" "pd_gen s = pd_gen (pe_pend p ! i)" "pd_kind s = pd_kind (pe_pend p ! i)"
  shows "parked_inv (put_slot i s p)"
  by (rule inv_change [OF assms(1,2), of s]) (use assms in \<open>auto simp: parked_inv_def slot_ok_def\<close>)

lemma put_release_inv:
  assumes "parked_inv p" "i < pe_cap p" "pd_req s = pd_req (pe_pend p ! i)" "pd_gen s = pd_gen (pe_pend p ! i)" "pd_kind s = pd_kind (pe_pend p ! i)"
  shows "parked_inv (clpend_release_locked (put_slot i s p) i)"
  using release_inv [OF put_inv [OF assms]] assms(2) by simp

lemma one_less_inv:
  assumes "parked_inv p" "i < pe_cap p" "pd_req s = pd_req (pe_pend p ! i)" "pd_gen s = pd_gen (pe_pend p ! i)" "pd_kind s = pd_kind (pe_pend p ! i)"
  shows "parked_inv (one_less p i s)"
  using put_inv [OF assms(1,2), of "s\<lparr>pd_expect := pd_expect s - 1\<rparr>"] put_release_inv [OF assms(1,2), of "s\<lparr>pd_expect := pd_expect s - 1\<rparr>"]
    assms by (simp add: one_less_def Let_def)

section \<open>The operations\<close>

lemma gen_next_range: "unat (pend_gen_next g) < 32768" "pend_gen_next g \<noteq> 0"
proof -
  have "unat ((g + 1) AND mask 15) < 32768" using unat_and_mask [of "g + 1" 15] by simp
  then show "unat (pend_gen_next g) < 32768" "pend_gen_next g \<noteq> 0" by (auto simp: pend_gen_next_def masks Let_def)
qed

lemma alloc_effect:
  assumes "parked_inv p" "clpend_alloc ticks p kind expect extra worker now tmo = ((h, slot, rc), p')"
  shows "parked_inv p' \<and> pe_cap p' = pe_cap p \<and> pe_cq p' = pe_cq p \<and>
    (case slot of
       None \<Rightarrow> h = 0 \<and> rc = PC_CLFAIL_BUSY \<and> pe_pend p' = pe_pend p \<and> pe_used p = int (pe_cap p)
     | Some i \<Rightarrow> i < pe_cap p \<and> rc = PC_CLFAIL_NONE \<and> pd_req (pe_pend p ! i) = 0 \<and> h = pend_handle (pend_gen_next (pd_gen (pe_pend p ! i))) i \<and>
         pe_pend p' = (pe_pend p)[i := zero_pending\<lparr>pd_gen := pend_gen_next (pd_gen (pe_pend p ! i)), pd_req := h, pd_worker := worker,
           pd_expect := expect, pd_kind := kind, pd_deadline := now + tmo + extra\<rparr>])"
proof (cases "find_index (\<lambda>s. pd_req s = 0) 0 (pe_pend p)")
  case None
  then have "occupied p = pe_pend p" by (simp add: find_index_None occupied_def)
  then have "pe_used p = int (pe_cap p)" using assms(1) by (simp add: parked_inv_def)
  then show ?thesis using assms None by (auto simp: clpend_alloc_def parked_inv_def occupied_def)
next
  case (Some i)
  have i: "i < pe_cap p" "pd_req (pe_pend p ! i) = 0"
    using find_index_Some [OF Some] assms(1) by (auto simp: parked_inv_def)
  define g where "g = pend_gen_next (pd_gen (pe_pend p ! i))"
  define s where "s = zero_pending\<lparr>pd_gen := g, pd_req := pend_handle g i, pd_worker := worker, pd_expect := expect, pd_kind := kind,
      pd_deadline := now + tmo + extra\<rparr>"
  have g: "unat g < 32768" "g \<noteq> 0" unfolding g_def by (rule gen_next_range)+
  have i2: "i < 65536" using i assms(1) by (simp add: parked_inv_def)
  have ok: "slot_ok i s" using g by (simp add: slot_ok_def s_def)
  have nz: "pd_req s \<noteq> 0" using handle_facts(2) [OF g(1) i2] by (simp add: s_def)
  have u: "length (pe_used_kind p) = 16" "pe_used p \<le> pe_peak p" using assms(1) by (simp_all add: parked_inv_def)
  define q where "q = (if pe_used p + 1 > pe_peak p then p\<lparr>pe_used := pe_used p + 1, pe_peak := pe_used p + 1\<rparr> else p\<lparr>pe_used := pe_used p + 1\<rparr>)"
  have q: "pe_pend q = pe_pend p" "pe_cap q = pe_cap p" "pe_used q = pe_used p + 1" "pe_used q \<le> pe_peak q" "gauge k q = gauge k p"
    "length (pe_used_kind q) = 16" "pe_cq q = pe_cq p" for k
    using u by (auto simp: q_def)
  have p': "p' = gauge_inc kind (put_slot i s (q\<lparr>pe_wpeak := pc_winmax_note (pe_wpeak q) ticks (nat (pe_used q))\<rparr>))"
    "h = pend_handle g i" "slot = Some i" "rc = PC_CLFAIL_NONE"
    using assms(2) Some unfolding clpend_alloc_def by (auto simp: Let_def q_def s_def g_def split: if_splits)
  have "parked_inv p'" unfolding p'(1)
  proof (rule inv_change [OF assms(1) i(1) ok])
    fix k :: int assume k: "0 \<le> k" "k < 16"
    show "gauge k (gauge_inc kind (put_slot i s (q\<lparr>pe_wpeak := pc_winmax_note (pe_wpeak q) ticks (nat (pe_used q))\<rparr>))) =
      gauge k p - of_bool (pd_req (pe_pend p ! i) \<noteq> 0 \<and> pd_kind (pe_pend p ! i) = k) + of_bool (pd_req s \<noteq> 0 \<and> pd_kind s = k)"
      using k q nz i(2) by (subst gauge_after_inc) (auto simp: s_def)
  qed (use q nz i in \<open>auto simp: q(6)\<close>)
  moreover have "pe_pend p' = (pe_pend p)[i := s]" "pe_cap p' = pe_cap p" "pe_cq p' = pe_cq p"
    unfolding p'(1) using q by simp_all
  ultimately show ?thesis using i p'(2-4) by (simp add: s_def g_def)
qed

lemma answer_effect:
  assumes "parked_inv p" "clpend_answer p req positive from_node ver vsum dl = (a, out, p')"
  shows "parked_inv p' \<and> pe_cap p' = pe_cap p \<and> pe_cq p' = pe_cq p \<and>
    (case clpend_find p req of
       None \<Rightarrow> a = ANS_IGNORE \<and> p' = p
     | Some i \<Rightarrow> \<exists>s'. pe_pend p' = (pe_pend p)[i := s'] \<and> slot_step (completing a) (pe_pend p ! i) s')"
proof (cases "clpend_find p req")
  case None
  then show ?thesis using assms by (simp add: clpend_answer_def)
next
  case (Some i)
  define s where "s = pe_pend p ! i"
  have i: "i < pe_cap p" "pd_req s = req" "req \<noteq> 0" using find_iff [OF assms(1)] Some by (auto simp: s_def)
  have l: "i < length (pe_pend p)" using assms(1) i by (simp add: parked_inv_def)
  have less: "parked_inv (one_less p i t) \<and> pe_cap (one_less p i t) = pe_cap p \<and> pe_cq (one_less p i t) = pe_cq p \<and>
      pe_pend (one_less p i t) = (pe_pend p)[i := (if pd_expect t \<le> 1 then t\<lparr>pd_expect := pd_expect t - 1, pd_req := 0\<rparr> else t\<lparr>pd_expect := pd_expect t - 1\<rparr>)]"
    if "pd_req t = pd_req s" "pd_gen t = pd_gen s" "pd_kind t = pd_kind s" for t
    using one_less_inv [OF assms(1) i(1)] that l by (auto simp: s_def one_less_def Let_def release_fields)
  have rel: "parked_inv (clpend_release_locked (put_slot i t p) i) \<and> pe_cap (clpend_release_locked (put_slot i t p) i) = pe_cap p \<and>
      pe_cq (clpend_release_locked (put_slot i t p) i) = pe_cq p \<and>
      pe_pend (clpend_release_locked (put_slot i t p) i) = (pe_pend p)[i := t\<lparr>pd_req := 0\<rparr>]"
    if "pd_req t = pd_req s" "pd_gen t = pd_gen s" "pd_kind t = pd_kind s" for t
    using put_release_inv [OF assms(1) i(1)] that l by (auto simp: s_def release_fields)
  show ?thesis
  proof (cases "pd_probe_op s \<noteq> 0 \<and> positive")
    case True
    define kind where "kind = (if pd_probe_op s = 2 then PC_DONE_FWD_ADD else if pd_probe_op s = 3 then PC_DONE_FWD_TOUCH
                 else if pd_probe_op s = 4 then PC_DONE_FWD_DEL else PC_DONE_FWD_SET)"
    define t where "t = s\<lparr>pd_kind := kind, pd_first_node := from_node, pd_first_ver := ver, pd_first_sum := vsum, pd_probe_op := 0,
               pd_probe_fwd := True, pd_stash := None, pd_stash_len := 0, pd_expect := 2 ^ 30, pd_deadline := dl\<rparr>"
    have p': "p' = put_slot i t (gauge_inc kind (gauge_dec (pd_kind s) p))" "a = ANS_PROBE_FWD"
      using assms(2) Some True by (auto simp: clpend_answer_def answer_probe_def Let_def s_def t_def kind_def)
    have u: "length (pe_used_kind p) = 16" "pe_used p \<le> pe_peak p" using assms(1) by (simp_all add: parked_inv_def)
    have nz: "pd_req (pe_pend p ! i) \<noteq> 0" using i by (simp add: s_def)
    note o = occupied_kind [OF assms(1) i(1) nz]
    have ok: "slot_ok i t" using assms(1) i(1) by (auto simp: parked_inv_def slot_ok_def t_def s_def)
    have "parked_inv p'" unfolding p'(1)
    proof (rule inv_change [OF assms(1) i(1) ok])
      fix k :: int assume k: "0 \<le> k" "k < 16"
      show "gauge k (put_slot i t (gauge_inc kind (gauge_dec (pd_kind s) p))) =
        gauge k p - of_bool (pd_req (pe_pend p ! i) \<noteq> 0 \<and> pd_kind (pe_pend p ! i) = k) + of_bool (pd_req t \<noteq> 0 \<and> pd_kind t = k)"
        using k u(1) o(2) nz by (simp add: gauge_after_inc gauge_after_dec s_def t_def)
    qed (use u nz in \<open>auto simp: t_def s_def\<close>)
    then show ?thesis using Some p' by (auto simp: slot_step_def completing_def t_def s_def)
  next
    case False
    show ?thesis
    proof (cases positive)
      case True
      then have "answer_positive p i s from_node ver vsum = (a, out, p')"
        using assms(2) Some False by (simp add: clpend_answer_def s_def Let_def)
      then show ?thesis
        using less [of s] less [of "s\<lparr>pd_answered := True, pd_first_node := from_node, pd_first_ver := ver, pd_first_sum := vsum\<rparr>"]
          rel [of "s\<lparr>pd_answered := True, pd_first_node := from_node, pd_first_ver := ver, pd_first_sum := vsum\<rparr>"] Some
        by (auto simp: answer_positive_def Let_def slot_step_def completing_def s_def [symmetric] split: if_splits)
    next
      case False
      then have n: "answer_negative p i s = (a, out, p')"
        using assms(2) Some by (simp add: clpend_answer_def s_def Let_def)
      have "parked_inv (put_slot i (s\<lparr>pd_expect := pd_expect s - 1\<rparr>) p)"
        using put_inv [OF assms(1) i(1)] by (simp add: s_def)
      then show ?thesis
        using n rel [of "s\<lparr>pd_expect := pd_expect s - 1\<rparr>"] rel [of "s\<lparr>pd_expect := pd_expect s - 1, pd_stash := None\<rparr>"] Some
        by (auto simp: answer_negative_def Let_def slot_step_def completing_def s_def [symmetric] split: if_splits)
    qed
  qed
qed

lemma retire_effect:
  assumes "parked_inv p" "clpend_retire p req only = (r, p')"
  shows "parked_inv p' \<and> pe_cap p' = pe_cap p \<and> pe_cq p' = pe_cq p \<and>
    (case clpend_find p req of
       None \<Rightarrow> r = None \<and> p' = p
     | Some i \<Rightarrow> (if only \<and> pd_answered (pe_pend p ! i) then r = None \<and> p' = p
         else r = Some (pd_worker (pe_pend p ! i), pd_kind (pe_pend p ! i)) \<and> pe_pend p' = (pe_pend p)[i := (pe_pend p ! i)\<lparr>pd_req := 0\<rparr>]))"
proof (cases "clpend_find p req")
  case (Some i)
  then have "i < pe_cap p" using find_iff [OF assms(1)] by auto
  then show ?thesis using assms release_inv [OF assms(1)] Some by (auto simp: clpend_retire_def Let_def release_fields split: if_splits)
qed (use assms in \<open>auto simp: clpend_retire_def\<close>)

section \<open>Deadlines\<close>

lemma inv_queue: "parked_inv (p\<lparr>pe_cq := c\<rparr>) = parked_inv p" "parked_inv (p\<lparr>pe_reconcile_expired := r\<rparr>) = parked_inv p"
  by (simp_all add: parked_inv_def occupied_def gauge_def)

lemma post_effect:
  assumes "clpend_cq_post mem p w d = Some q"
  shows "parked_inv q = parked_inv p" "pe_cap q = pe_cap p" "pe_pend q = pe_pend p"
  using assms by (auto simp: clpend_cq_post_def Let_def inv_queue split: if_splits option.splits)

lemma post_cong:
  assumes "pe_cq p = pe_cq p'" "pe_cap p = pe_cap p'"
  shows "map_option pe_cq (clpend_cq_post mem p w d) = map_option pe_cq (clpend_cq_post mem p' w d)"
  using assms by (auto simp: clpend_cq_post_def Let_def split: option.splits)

lemma expire_slot_effect:
  assumes "parked_inv p" "i < pe_cap p" "pe_cq p = pe_cq c" "pe_cap p = pe_cap c" "expire_slot now i (t, p) = Some (t', p')"
  defines "s \<equiv> pe_pend p ! i"
  shows "\<exists>c'. parked_inv p' \<and> pe_cap p' = pe_cap p \<and> pe_pend p' = (pe_pend p)[i := swept now s] \<and> pe_cq p' = pe_cq c' \<and> pe_cap c' = pe_cap c \<and>
    post_all c (filter (\<lambda>s. overran now s \<and> \<not> pd_answered s) [s]) = Some c' \<and> t' = t + of_bool (overran now s \<and> \<not> pd_answered s)"
proof (cases "overran now s")
  case False
  then show ?thesis using assms(1-5) by (auto simp: expire_slot_def overran_def swept_def s_def Let_def)
next
  case True
  define r where "r = clpend_release_locked (put_slot i (s\<lparr>pd_stash := None\<rparr>) p) i"
  have l: "i < length (pe_pend p)" using assms by (simp add: parked_inv_def)
  have r: "parked_inv r" "pe_cap r = pe_cap p" "pe_cq r = pe_cq p" "pe_pend r = (pe_pend p)[i := swept now s]"
    using put_release_inv [OF assms(1,2)] l True by (auto simp: r_def release_fields swept_def s_def)
  show ?thesis
  proof (cases "pd_answered s")
    case True
    then have "t' = t" "p' = r" using assms(5) \<open>overran now s\<close> by (auto simp: expire_slot_def overran_def r_def s_def Let_def)
    then show ?thesis using r assms(3,4) True by auto
  next
    case False
    define r' where "r' = (if pd_kind s = PC_DONE_RECONCILE then r\<lparr>pe_reconcile_expired := pe_reconcile_expired r + 1\<rparr> else r)"
    have r': "parked_inv r'" "pe_cap r' = pe_cap p" "pe_cq r' = pe_cq p" "pe_pend r' = pe_pend r"
      using r by (auto simp: r'_def inv_queue)
    have post: "clpend_cq_post True r' (pd_worker s) (timeout_done s) = Some p'" "t' = t + 1"
      using assms(5) \<open>overran now s\<close> False
      by (auto simp: expire_slot_def overran_def r_def [symmetric] r'_def [symmetric] s_def [symmetric] Let_def)
    then obtain c' where c': "clpend_cq_post True c (pd_worker s) (timeout_done s) = Some c'" "pe_cq c' = pe_cq p'"
      using post_cong [of r' c True "pd_worker s" "timeout_done s"] r' assms(3,4) by (auto simp: map_option_case split: option.splits)
    have "parked_inv p'" "pe_cap p' = pe_cap p" "pe_pend p' = pe_pend r" "pe_cap c' = pe_cap c"
      using post_effect [OF post(1)] post_effect [OF c'(1)] r' by simp_all
    then show ?thesis using c' r(4) post(2) True False by (intro exI [of _ c']) simp
  qed
qed

lemma post_all_append: "post_all p (xs @ ys) = Option.bind (post_all p xs) (\<lambda>q. post_all q ys)"
  by (induction xs arbitrary: p) (auto split: Option.bind_split)

lemma expire_loop_effect:
  assumes "parked_inv p" "pe_cq p = pe_cq c" "pe_cap p = pe_cap c" "expire_loop now [k..<pe_cap p] (t, p) = Some (t', p')" "k \<le> pe_cap p"
  shows "\<exists>c'. parked_inv p' \<and> pe_cap p' = pe_cap p \<and> pe_pend p' = take k (pe_pend p) @ map (swept now) (drop k (pe_pend p)) \<and>
    pe_cq p' = pe_cq c' \<and>
    post_all c (filter (\<lambda>s. overran now s \<and> \<not> pd_answered s) (drop k (pe_pend p))) = Some c' \<and>
    t' = t + length (filter (\<lambda>s. overran now s \<and> \<not> pd_answered s) (drop k (pe_pend p)))"
  using assms
proof (induction "pe_cap p - k" arbitrary: k p c t)
  case 0
  then have "k = pe_cap p" "length (pe_pend p) = pe_cap p" by (simp_all add: parked_inv_def)
  then show ?case using "0.prems" by auto
next
  case (Suc m)
  have k: "k < pe_cap p" using Suc.hyps(2) by simp
  have l: "k < length (pe_pend p)" using k Suc.prems(1) by (simp add: parked_inv_def)
  define s where "s = pe_pend p ! k"
  obtain t1 p1 where s1: "expire_slot now k (t, p) = Some (t1, p1)" "expire_loop now [Suc k..<pe_cap p] (t1, p1) = Some (t', p')"
    using Suc.prems(4) k by (auto simp: upt_conv_Cons bind_eq_Some_conv)
  obtain c1 where c1: "parked_inv p1" "pe_cap p1 = pe_cap p" "pe_pend p1 = (pe_pend p)[k := swept now s]" "pe_cq p1 = pe_cq c1"
    "pe_cap c1 = pe_cap c" "post_all c (filter (\<lambda>s. overran now s \<and> \<not> pd_answered s) [s]) = Some c1"
    "t1 = t + of_bool (overran now s \<and> \<not> pd_answered s)"
    using expire_slot_effect [OF Suc.prems(1) k Suc.prems(2,3) s1(1)] unfolding s_def by blast
  have d: "drop k (pe_pend p) = s # drop (Suc k) (pe_pend p)" using l by (simp add: Cons_nth_drop_Suc s_def)
  have d1: "drop (Suc k) (pe_pend p1) = drop (Suc k) (pe_pend p)" "take (Suc k) (pe_pend p1) = take k (pe_pend p) @ [swept now s]"
    using l by (simp_all add: c1(3) take_Suc_conv_app_nth)
  have "m = pe_cap p1 - Suc k" "pe_cap p1 = pe_cap c1" "Suc k \<le> pe_cap p1" using Suc.hyps(2) c1 Suc.prems(3) k by simp_all
  from Suc.hyps(1) [OF this(1) c1(1,4) this(2) _ this(3), of t1] obtain c' where
    "parked_inv p'" "pe_cap p' = pe_cap p1" "pe_pend p' = take (Suc k) (pe_pend p1) @ map (swept now) (drop (Suc k) (pe_pend p1))"
    "pe_cq p' = pe_cq c'" "post_all c1 (filter (\<lambda>s. overran now s \<and> \<not> pd_answered s) (drop (Suc k) (pe_pend p1))) = Some c'"
    "t' = t1 + length (filter (\<lambda>s. overran now s \<and> \<not> pd_answered s) (drop (Suc k) (pe_pend p1)))"
    using s1(2) c1(2) by auto
  note r = this
  have "post_all c (filter (\<lambda>s. overran now s \<and> \<not> pd_answered s) (drop k (pe_pend p))) = Some c'"
    using c1(6) r(5) post_all_append [of c "filter (\<lambda>s. overran now s \<and> \<not> pd_answered s) [s]"] unfolding d d1(1)
    by (cases "overran now s"; cases "pd_answered s") simp_all
  moreover have "t' = t + length (filter (\<lambda>s. overran now s \<and> \<not> pd_answered s) (drop k (pe_pend p)))"
    using c1(7) r(6) unfolding d d1(1) by (cases "overran now s"; cases "pd_answered s") simp_all
  moreover have "pe_pend p' = take k (pe_pend p) @ map (swept now) (drop k (pe_pend p))" using r(3) unfolding d d1 by simp
  ultimately show ?case using r(1,2,4) c1(2) by auto
qed

lemma expire_effect:
  assumes "parked_inv p" "clpend_expire p now = Some (t, p')"
  shows "\<exists>c. parked_inv p' \<and> pe_cap p' = pe_cap p \<and> pe_pend p' = map (swept now) (pe_pend p) \<and>
    pe_cq p' = pe_cq c \<and> post_all p (overdue now p) = Some c \<and> t = length (overdue now p)"
  using expire_loop_effect [OF assms(1) refl refl, of now 0 0 t p'] assms(2) unfolding clpend_expire_def overdue_def by simp

section \<open>Open requests\<close>

lemma open_iff:
  assumes "parked_inv p"
  shows "open_req p h \<longleftrightarrow> (\<exists>i < pe_cap p. pd_req (pe_pend p ! i) = h \<and> h \<noteq> 0 \<and> \<not> pd_answered (pe_pend p ! i))"
  using find_iff [OF assms] by (auto simp: open_req_def)

lemma req_unique:
  assumes "parked_inv p" "i < pe_cap p" "j < pe_cap p" "pd_req (pe_pend p ! i) = pd_req (pe_pend p ! j)" "pd_req (pe_pend p ! i) \<noteq> 0"
  shows "i = j"
proof -
  have "clpend_find p (pd_req (pe_pend p ! i)) = Some i" "clpend_find p (pd_req (pe_pend p ! i)) = Some j"
    using find_iff [OF assms(1)] assms(2-5) by auto
  then show ?thesis by simp
qed

lemma open_change:
  assumes "parked_inv p" "parked_inv p'" "pe_cap p' = pe_cap p" "i < pe_cap p" "pe_pend p' = (pe_pend p)[i := s']"
  shows "open_req p' h \<longleftrightarrow> (pd_req s' = h \<and> h \<noteq> 0 \<and> \<not> pd_answered s') \<or> (open_req p h \<and> pd_req (pe_pend p ! i) \<noteq> h)"
proof -
  define P where "P s \<longleftrightarrow> pd_req s = h \<and> h \<noteq> 0 \<and> \<not> pd_answered s" for s :: pending
  have l: "i < length (pe_pend p)" using assms(1,4) by (simp add: parked_inv_def)
  have n: "P (pe_pend p' ! j) \<longleftrightarrow> (if j = i then P s' else P (pe_pend p ! j))" for j using l assms(5) by simp
  have u: "pd_req (pe_pend p ! i) \<noteq> h" if "j < pe_cap p" "j \<noteq> i" "P (pe_pend p ! j)" for j
    using req_unique [OF assms(1,4) that(1)] that(2,3) by (auto simp: P_def)
  have v: "j \<noteq> i" if "P (pe_pend p ! j)" "pd_req (pe_pend p ! i) \<noteq> h" for j using that by (auto simp: P_def)
  have "(\<exists>j < pe_cap p. P (pe_pend p' ! j)) \<longleftrightarrow> P s' \<or> (\<exists>j < pe_cap p. P (pe_pend p ! j)) \<and> pd_req (pe_pend p ! i) \<noteq> h"
    using assms(4) u v unfolding n by (auto split: if_splits)
  then show ?thesis unfolding open_iff [OF assms(1)] open_iff [OF assms(2)] assms(3) P_def .
qed

lemma open_same: "parked_inv p \<Longrightarrow> parked_inv p' \<Longrightarrow> pe_cap p' = pe_cap p \<Longrightarrow> pe_pend p' = pe_pend p \<Longrightarrow> open_req p' h = open_req p h"
  by (simp add: open_iff)

lemma open_slot_step:
  assumes "parked_inv p" "parked_inv p'" "pe_cap p' = pe_cap p" "clpend_find p req = Some i" "pe_pend p' = (pe_pend p)[i := s']"
    "slot_step b (pe_pend p ! i) s'"
  shows "of_bool (h = req \<and> b) + of_bool (open_req p' h) \<le> (of_bool (open_req p h) :: nat)"
proof -
  have i: "i < pe_cap p" "pd_req (pe_pend p ! i) = req" "req \<noteq> 0" using find_iff [OF assms(1)] assms(4) by auto
  note step = assms(6) [unfolded slot_step_def]
  have o: "open_req p req \<longleftrightarrow> \<not> pd_answered (pe_pend p ! i)" using assms(4) by (simp add: open_req_def)
  show ?thesis
  proof (cases "h = req")
    case True
    then have "open_req p' h \<longleftrightarrow> pd_req s' = req \<and> \<not> pd_answered s'"
      using open_change [OF assms(1,2,3) i(1) assms(5), of h] i(2,3) by simp
    then show ?thesis using True o step i(3) by (cases b; cases "pd_answered s'") auto
  next
    case False
    then have "open_req p' h \<longleftrightarrow> open_req p h"
      using open_change [OF assms(1,2,3) i(1) assms(5), of h] i(2,3) step by auto
    then show ?thesis using False by simp
  qed
qed

lemma open_expire:
  assumes "parked_inv p" "clpend_expire p now = Some (t, p')"
  shows "length (filter (\<lambda>s. pd_req s = h) (overdue now p)) + of_bool (open_req p' h) \<le> (of_bool (open_req p h) :: nat)"
proof -
  have c: "parked_inv p'" "pe_cap p' = pe_cap p" "pe_pend p' = map (swept now) (pe_pend p)"
    using expire_effect [OF assms] by blast+
  have l: "length (pe_pend p) = pe_cap p" using assms(1) by (simp add: parked_inv_def)
  define D where "D = {i. i < pe_cap p \<and> pd_req (pe_pend p ! i) = h \<and> overran now (pe_pend p ! i) \<and> \<not> pd_answered (pe_pend p ! i)}"
  have len: "length (filter (\<lambda>s. pd_req s = h) (overdue now p)) = card D"
    unfolding overdue_def filter_filter length_filter_conv_card D_def l by (rule arg_cong [of _ _ card]) auto
  have open': "open_req p' h \<longleftrightarrow> (\<exists>i < pe_cap p. pd_req (pe_pend p ! i) = h \<and> h \<noteq> 0 \<and> \<not> pd_answered (pe_pend p ! i) \<and>
      \<not> overran now (pe_pend p ! i))"
  proof -
    have "pd_req (swept now s) = h \<and> h \<noteq> 0 \<and> \<not> pd_answered (swept now s) \<longleftrightarrow>
        pd_req s = h \<and> h \<noteq> 0 \<and> \<not> pd_answered s \<and> \<not> overran now s" for s by (auto simp: swept_def)
    then show ?thesis unfolding open_iff [OF c(1)] c(2,3) using l by (simp cong: conj_cong)
  qed
  show ?thesis
  proof (cases "D = {}")
    case True
    have "open_req p' h \<longrightarrow> open_req p h" unfolding open' open_iff [OF assms(1)] by blast
    then show ?thesis using len True by simp
  next
    case False
    then obtain i where i: "i \<in> D" by blast
    have u: "j = i" if "j < pe_cap p" "pd_req (pe_pend p ! j) = h" for j
      using i that req_unique [OF assms(1), of i j] by (auto simp: D_def overran_def)
    have "D = {i}" using i u by (auto simp: D_def)
    moreover have "\<not> open_req p' h" unfolding open' using u i unfolding D_def by blast
    moreover have "open_req p h" unfolding open_iff [OF assms(1)] using i by (auto simp: D_def overran_def)
    ultimately show ?thesis using len by simp
  qed
qed

section \<open>Runs\<close>

lemma init_inv: "clpend_init True p0 cap = (c, p) \<Longrightarrow> parked_inv p \<and> 64 \<le> pe_cap p \<and> int (pe_cap p) = c"
proof -
  assume a: "clpend_init True p0 cap = (c, p)"
  define q where "q n = p0\<lparr>pe_pend := replicate n zero_pending, pe_cap := n, pe_used := 0, pe_peak := 0, pe_exhausted := 0,
      pe_reconcile_expired := 0, pe_used_kind := replicate 16 0\<rparr>" for n
  have "\<exists>n. 64 \<le> n \<and> n \<le> 65536 \<and> c = int n \<and> p = q n"
    using a unfolding clpend_init_def q_def [symmetric] PEND_DEFAULT_def PEND_LIMIT_def PEND_MIN_def PEND_SLOT_BITS_def
    by (auto simp: Let_def intro!: exI [of _ "nat c"] split: if_splits)
  moreover have "parked_inv (q n)" if "n \<le> 65536" for n
    using that by (auto simp: q_def parked_inv_def occupied_def gauge_def slot_ok_def zero_pending_def)
  ultimately show ?thesis by (auto simp: q_def)
qed

lemma drain_effect:
  assumes "clpend_cq_drain p w mx = Some (ds, q)"
  shows "parked_inv q = parked_inv p" "pe_cap q = pe_cap p" "pe_pend q = pe_pend p"
  using assms by (auto simp: clpend_cq_drain_def Let_def inv_queue split: if_splits option.splits)

lemma register_effect:
  "parked_inv (clpend_cq_register p w) = parked_inv p" "pe_cap (clpend_cq_register p w) = pe_cap p" "pe_pend (clpend_cq_register p w) = pe_pend p"
  by (auto simp: clpend_cq_register_def Let_def inv_queue)

lemma steps_inv: "pend_steps p l q \<Longrightarrow> parked_inv p \<Longrightarrow> parked_inv q \<and> pe_cap q = pe_cap p"
proof (induction rule: pend_steps.induct)
  case (alloc p l q ticks kind expect extra worker now tmo h i rc q')
  then have q: "parked_inv q" "pe_cap q = pe_cap p" by simp_all
  show ?case using alloc_effect [OF q(1) alloc.hyps(2)] q(2) by (elim conjE) simp
next
  case (full p l q ticks kind expect extra worker now tmo h rc q')
  then have q: "parked_inv q" "pe_cap q = pe_cap p" by simp_all
  show ?case using alloc_effect [OF q(1) full.hyps(2)] q(2) by (elim conjE) simp
next
  case (answer p l q req positive from_node ver vsum dl a out q')
  then have q: "parked_inv q" "pe_cap q = pe_cap p" by simp_all
  show ?case using answer_effect [OF q(1) answer.hyps(2)] q(2) by (elim conjE) simp
next
  case (retire p l q req only r q')
  then have q: "parked_inv q" "pe_cap q = pe_cap p" by simp_all
  show ?case using retire_effect [OF q(1) retire.hyps(2)] q(2) by (elim conjE) simp
next
  case (expire p l q now t q')
  then have q: "parked_inv q" "pe_cap q = pe_cap p" by simp_all
  show ?case using expire_effect [OF q(1) expire.hyps(2)] q(2) by (elim exE conjE) simp
next
  case (release p l q h i)
  then have q: "parked_inv q" "pe_cap q = pe_cap p" by simp_all
  have "i < pe_cap q" using find_iff [OF q(1)] release.hyps(2) by auto
  then show ?case using release_inv [OF q(1)] q(2) by (simp add: clpend_release_def release_fields)
next
  case (park p l q i s)
  then show ?case using put_inv by simp
next
  case (post p l q mem worker d q')
  then show ?case using post_effect [OF post.hyps(2)] by simp
next
  case (drain p l q worker mx ds q')
  then show ?case using drain_effect [OF drain.hyps(2)] by simp
next
  case (register p l q worker)
  then show ?case using register_effect by simp
qed simp

lemma bump_app: "bump r b f h = f h + of_bool (h = r \<and> b)"
  by (simp add: bump_def)

lemma log_simps:
  "lg_done (l\<lparr>lg_done := d\<rparr>) = d" "lg_opened (l\<lparr>lg_done := d\<rparr>) = lg_opened l" "lg_late (l\<lparr>lg_done := d\<rparr>) = lg_late l"
  "lg_done (l\<lparr>lg_late := d\<rparr>) = lg_done l" "lg_opened (l\<lparr>lg_late := d\<rparr>) = lg_opened l" "lg_late (l\<lparr>lg_late := d\<rparr>) = d"
  by simp_all

lemma ledger: "(d::nat) + o1 \<le> x + y + z \<Longrightarrow> e + o2 \<le> f + o1 \<Longrightarrow> (d + e) + o2 \<le> x + (y + f) + z"
  by simp

lemma steps_once:
  "pend_steps p l q \<Longrightarrow> parked_inv p \<Longrightarrow> lg_done l h + of_bool (open_req q h) \<le> lg_opened l h + lg_late l h + of_bool (open_req p h)"
proof (induction rule: pend_steps.induct)
  case (none p)
  then show ?case by (simp add: no_log_def)
next
  case (alloc p l q ticks kind expect extra worker now tmo hd i rc q')
  have q: "parked_inv q" using steps_inv [OF alloc.hyps(1) alloc.prems] by simp
  define s where "s = zero_pending\<lparr>pd_gen := pend_gen_next (pd_gen (pe_pend q ! i)), pd_req := hd, pd_worker := worker,
           pd_expect := expect, pd_kind := kind, pd_deadline := now + tmo + extra\<rparr>"
  have e: "parked_inv q'" "pe_cap q' = pe_cap q" "i < pe_cap q" "pe_pend q' = (pe_pend q)[i := s]"
    using alloc_effect [OF q alloc.hyps(2)] unfolding s_def by simp_all
  have "open_req q' h \<longrightarrow> h = hd \<or> open_req q h"
    using open_change [OF q e, of h] by (auto simp: s_def)
  moreover have "lg_done l h + of_bool (open_req q h) \<le> lg_opened l h + lg_late l h + of_bool (open_req p h)" using alloc.IH [OF alloc.prems] .
  ultimately show ?case by (cases "h = hd"; cases "open_req q' h"; cases "open_req q h") (simp_all add: bump_def)
next
  case (full p l q ticks kind expect extra worker now tmo hd rc q')
  have q: "parked_inv q" using steps_inv [OF full.hyps(1) full.prems] by simp
  have "open_req q' h = open_req q h" 
    by (rule open_same [OF q]) (use alloc_effect [OF q full.hyps(2)] in simp_all)
  then show ?case using full.IH [OF full.prems] by simp
next
  case (answer p l q req positive from_node ver vsum dl a out q')
  have q: "parked_inv q" using steps_inv [OF answer.hyps(1) answer.prems] by simp
  note e = answer_effect [OF q answer.hyps(2)]
  have "of_bool (h = req \<and> completing a) + of_bool (open_req q' h) \<le> 0 + (of_bool (open_req q h) :: nat)"
  proof (cases "clpend_find q req")
    case None
    then show ?thesis using e by (simp add: completing_def)
  next
    case (Some i)
    then obtain s' where "pe_pend q' = (pe_pend q)[i := s']" "slot_step (completing a) (pe_pend q ! i) s'" using e by auto
    with e Some open_slot_step [OF q, of q' req i s' "completing a" h] show ?thesis by linarith
  qed
  from ledger [OF answer.IH [OF answer.prems] this] show ?case by (simp only: log_simps bump_app add_0_right)
next
  case (retire p l q req only r q')
  have q: "parked_inv q" using steps_inv [OF retire.hyps(1) retire.prems] by simp
  note e = retire_effect [OF q retire.hyps(2)]
  have "of_bool (h = req \<and> r \<noteq> None) + of_bool (open_req q' h) \<le>
      of_bool (h = req \<and> \<not> only \<and> r \<noteq> None \<and> \<not> open_req q req) + (of_bool (open_req q h) :: nat)"
  proof (cases "clpend_find q req")
    case None
    then show ?thesis using e by simp
  next
    case (Some i)
    define s where "s = pe_pend q ! i"
    have o: "open_req q req \<longleftrightarrow> \<not> pd_answered s" using Some by (simp add: open_req_def s_def)
    have st: "slot_step (\<not> pd_answered s) s (s\<lparr>pd_req := 0\<rparr>)" by (simp add: slot_step_def)
    show ?thesis
    proof (cases "only \<and> pd_answered s")
      case True
      then show ?thesis using e Some by (simp add: s_def)
    next
      case False
      then have r: "r \<noteq> None" "parked_inv q'" "pe_cap q' = pe_cap q" "pe_pend q' = (pe_pend q)[i := s\<lparr>pd_req := 0\<rparr>]"
        using e Some by (auto simp: s_def)
      from open_slot_step [OF q r(2,3) Some r(4) [unfolded s_def] st [unfolded s_def], of h, folded s_def]
      show ?thesis using r(1) o False by (cases "h = req"; cases "pd_answered s") simp_all
    qed
  qed
  from ledger [OF retire.IH [OF retire.prems] this] show ?case by (simp only: log_simps bump_app add_0_right)
next
  case (expire p l q now t q')
  have q: "parked_inv q" using steps_inv [OF expire.hyps(1) expire.prems] by simp
  show ?case using open_expire [OF q expire.hyps(2), of h] expire.IH [OF expire.prems] by simp
next
  case (release p l q r i)
  have q: "parked_inv q" using steps_inv [OF release.hyps(1) release.prems] by simp
  have i: "i < pe_cap q" using find_iff [OF q] release.hyps(2) by auto
  have "open_req (clpend_release q i) h \<longrightarrow> open_req q h"
    using open_change [OF q release_inv [OF q i] _ i release_fields(4), of h] by (auto simp: clpend_release_def release_fields)
  then show ?case using release.IH [OF release.prems] by (cases "open_req (clpend_release q i) h") simp_all
next
  case (park p l q i s)
  have q: "parked_inv q" using steps_inv [OF park.hyps(1) park.prems] by simp
  have "open_req (put_slot i s q) h \<longrightarrow> open_req q h"
    using open_change [OF q put_inv [OF q park.hyps(2-5)] _ park.hyps(2), of s h] park.hyps(2,3,6) unfolding open_iff [OF q] by auto
  then show ?case using park.IH [OF park.prems] by (cases "open_req (put_slot i s q) h") simp_all
next
  case (post p l q mem worker d q')
  have q: "parked_inv q" using steps_inv [OF post.hyps(1) post.prems] by simp
  have "open_req q' h = open_req q h" 
    by (rule open_same [OF q]) (use post_effect [OF post.hyps(2)] q in simp_all)
  then show ?case using post.IH [OF post.prems] by simp
next
  case (drain p l q worker mx ds q')
  have q: "parked_inv q" using steps_inv [OF drain.hyps(1) drain.prems] by simp
  have "open_req q' h = open_req q h" 
    by (rule open_same [OF q]) (use drain_effect [OF drain.hyps(2)] q in simp_all)
  then show ?case using drain.IH [OF drain.prems] by simp
next
  case (register p l q worker)
  have q: "parked_inv q" using steps_inv [OF register.hyps(1) register.prems] by simp
  have "open_req (clpend_cq_register q worker) h = open_req q h" 
    by (rule open_same [OF q]) (use register_effect q in simp_all)
  then show ?case using register.IH [OF register.prems] by simp
qed

section \<open>Generations\<close>

lemma gen_next_val:
  assumes "unat g < 32768"
  shows "unat (pend_gen_next g) = (if unat g = 32767 then 1 else unat g + 1)"
proof -
  have "unat (g + 1) = unat g + 1" using assms by (subst unat_add_lem [THEN iffD1]) simp_all
  then have "unat ((g + 1) AND mask 15) = (unat g + 1) mod 32768" using unat_and_mask [of "g + 1" 15] by simp
  moreover have "(g + 1) AND mask 15 = 0 \<longleftrightarrow> unat ((g + 1) AND mask 15) = 0" by (metis unat_eq_0)
  ultimately show ?thesis using assms by (auto simp: pend_gen_next_def masks Let_def)
qed

lemma gen_orbit:
  assumes "unat g < 32768" "g \<noteq> 0"
  shows "unat ((pend_gen_next ^^ n) g) = (unat g - 1 + n) mod 32767 + 1"
proof (induction n)
  case 0
  have "unat g \<noteq> 0" using assms(2) by (metis unat_eq_0)
  then show ?case using assms(1) by simp
next
  case (Suc n)
  have "unat ((pend_gen_next ^^ n) g) < 32768" using Suc by (simp add: less_Suc_eq_le)
  from gen_next_val [OF this] show ?case using Suc by (simp add: mod_Suc)
qed

lemma gen_returns:
  assumes "unat g < 32768" "g \<noteq> 0" "n < 32767" "(pend_gen_next ^^ n) g = g"
  shows "n = 0"
proof -
  have g: "unat g \<noteq> 0" using assms(2) by (metis unat_eq_0)
  define v where "v = unat g - 1"
  have v: "(v + n) mod 32767 = v" "v < 32767" using gen_orbit [OF assms(1,2), of n] assms(1,4) g by (simp_all add: v_def)
  show ?thesis
  proof (cases "v + n < 32767")
    case False
    then have "(v + n) mod 32767 = v + n - 32767" using v(2) assms(3) by (simp add: le_mod_geq)
    then show ?thesis using v assms(3) False by simp
  qed (use v in simp)
qed

lemma gen_update:
  assumes "pe_pend q' = (pe_pend q)[i := s']" "pd_gen s' = pd_gen (pe_pend q ! i)"
  shows "pd_gen (pe_pend q' ! j) = pd_gen (pe_pend q ! j)"
  using assms by (cases "i < length (pe_pend q)"; cases "i = j") (simp_all add: list_update_beyond)

lemma steps_gen:
  "pend_steps p l q \<Longrightarrow> parked_inv p \<Longrightarrow> j < pe_cap p \<Longrightarrow> pd_gen (pe_pend q ! j) = (pend_gen_next ^^ lg_reuse l j) (pd_gen (pe_pend p ! j))"
proof (induction rule: pend_steps.induct)
  case (none p)
  then show ?case by (simp add: no_log_def)
next
  case (alloc p l q ticks kind expect extra worker now tmo hd i rc q')
  have q: "parked_inv q" using steps_inv [OF alloc.hyps(1) alloc.prems(1)] by simp
  have l: "length (pe_pend q) = pe_cap q" using q by (simp add: parked_inv_def)
  have e: "i < pe_cap q" "pe_pend q' = (pe_pend q)[i := zero_pending\<lparr>pd_gen := pend_gen_next (pd_gen (pe_pend q ! i)), pd_req := hd,
      pd_worker := worker, pd_expect := expect, pd_kind := kind, pd_deadline := now + tmo + extra\<rparr>]"
    using alloc_effect [OF q alloc.hyps(2)] by simp_all
  show ?case using e(1) l alloc.IH [OF alloc.prems] unfolding e(2) by (cases "i = j") (simp_all add: bump_def)
next
  case (full p l q ticks kind expect extra worker now tmo hd rc q')
  have q: "parked_inv q" using steps_inv [OF full.hyps(1) full.prems(1)] by simp
  show ?case using alloc_effect [OF q full.hyps(2)] full.IH [OF full.prems] by simp
next
  case (answer p l q req positive from_node ver vsum dl a out q')
  have q: "parked_inv q" using steps_inv [OF answer.hyps(1) answer.prems(1)] by simp
  have "pd_gen (pe_pend q' ! j) = pd_gen (pe_pend q ! j)"
  proof (cases "clpend_find q req")
    case None
    then show ?thesis using answer_effect [OF q answer.hyps(2)] by simp
  next
    case (Some i)
    then obtain s' where "pe_pend q' = (pe_pend q)[i := s']" "slot_step (completing a) (pe_pend q ! i) s'"
      using answer_effect [OF q answer.hyps(2)] by auto
    then show ?thesis using gen_update unfolding slot_step_def by blast
  qed
  then show ?case using answer.IH [OF answer.prems] by simp
next
  case (retire p l q req only r q')
  have q: "parked_inv q" using steps_inv [OF retire.hyps(1) retire.prems(1)] by simp
  have "pd_gen (pe_pend q' ! j) = pd_gen (pe_pend q ! j)"
  proof (cases "clpend_find q req")
    case None
    then show ?thesis using retire_effect [OF q retire.hyps(2)] by simp
  next
    case (Some i)
    then have "q' = q \<or> pe_pend q' = (pe_pend q)[i := (pe_pend q ! i)\<lparr>pd_req := 0\<rparr>]"
      using retire_effect [OF q retire.hyps(2)] by (simp split: if_splits)
    then show ?thesis using gen_update [of q' q i "(pe_pend q ! i)\<lparr>pd_req := 0\<rparr>"] by auto
  qed
  then show ?case using retire.IH [OF retire.prems] by simp
next
  case (expire p l q now t q')
  have q: "parked_inv q" "pe_cap q = pe_cap p" using steps_inv [OF expire.hyps(1) expire.prems(1)] by simp_all
  have "pe_pend q' = map (swept now) (pe_pend q)" using expire_effect [OF q(1) expire.hyps(2)] by blast
  moreover have "j < length (pe_pend q)" using q expire.prems(2) by (simp add: parked_inv_def)
  ultimately have "pd_gen (pe_pend q' ! j) = pd_gen (pe_pend q ! j)" by (simp add: swept_def)
  then show ?case using expire.IH [OF expire.prems] by simp
next
  case (release p l q h i)
  have "pd_gen (pe_pend (clpend_release q i) ! j) = pd_gen (pe_pend q ! j)"
    by (rule gen_update [of _ _ i "(pe_pend q ! i)\<lparr>pd_req := 0\<rparr>"]) (simp_all add: clpend_release_def release_fields)
  then show ?case using release.IH [OF release.prems] by simp
next
  case (park p l q i s)
  have "pd_gen (pe_pend (put_slot i s q) ! j) = pd_gen (pe_pend q ! j)" by (rule gen_update [of _ _ i s]) (use park.hyps in simp_all)
  then show ?case using park.IH [OF park.prems] by simp
next
  case (post p l q mem worker d q')
  then show ?case using post_effect [OF post.hyps(2)] by simp
next
  case (drain p l q worker mx ds q')
  then show ?case using drain_effect [OF drain.hyps(2)] by simp
next
  case (register p l q worker)
  then show ?case using register_effect by simp
qed

lemma stale_handle:
  assumes "parked_inv q" "pend_steps q l r" "clpend_find q h = Some i" "clpend_find r h \<noteq> None" "lg_reuse l i < 32767"
  shows "lg_reuse l i = 0"
proof -
  have i: "i < pe_cap q" "pd_req (pe_pend q ! i) = h" "h \<noteq> 0" using find_iff [OF assms(1)] assms(3) by auto
  have r: "parked_inv r" "pe_cap r = pe_cap q" using steps_inv [OF assms(2,1)] by simp_all
  obtain j where j: "j < pe_cap r" "pd_req (pe_pend r ! j) = h" using find_iff [OF r(1)] assms(4) by auto
  have a: "unat (pd_gen (pe_pend q ! i)) < 32768" "pd_gen (pe_pend q ! i) \<noteq> 0" "h = pend_handle (pd_gen (pe_pend q ! i)) i" "i < 65536"
    using assms(1) i by (auto simp: parked_inv_def slot_ok_def)
  have b: "unat (pd_gen (pe_pend r ! j)) < 32768" "h = pend_handle (pd_gen (pe_pend r ! j)) j" "j < 65536"
    using r(1) j i(3) by (auto simp: parked_inv_def slot_ok_def)
  have "pd_gen (pe_pend r ! j) = pd_gen (pe_pend q ! i)" "j = i"
    using handle_inj [OF b(1,3) a(1,4)] a(3) b(2) by simp_all
  then show ?thesis using steps_gen [OF assms(2,1) i(1)] gen_returns [OF a(1,2) assms(5)] by simp
qed

section \<open>Queues\<close>

lemma sint_small32: "unat (w :: 32 word) < 2 ^ 31 \<Longrightarrow> sint w = int (unat w)"
proof -
  assume "unat w < 2 ^ 31"
  then have "int (unat w) < int (2 ^ 31)" by (simp only: of_nat_less_iff)
  then have "uint w < 2 ^ 31" by simp
  then have "signed_take_bit 31 (uint w) = uint w" by (intro signed_take_bit_int_eq_self) (simp_all add: order_trans [OF _ uint_ge_0])
  then show ?thesis by (simp add: sint_uint)
qed

lemma smod_nonneg: "0 \<le> (a::int) \<Longrightarrow> 0 \<le> b \<Longrightarrow> a smod b = a mod b"
  by (cases "a = 0") (simp_all add: smod_int_alt_def)

lemma cq_index_val: "unat w < 2 ^ 31 \<Longrightarrow> cq_index w cap = Some (unat w mod cap)"
proof -
  assume a: "unat w < 2 ^ 31"
  then have "sint w = int (unat w)" using sint_small32 by simp
  moreover have "int (unat w) smod int cap = int (unat w mod cap)"
    unfolding zmod_int by (rule smod_nonneg) simp_all
  ultimately show ?thesis by (simp add: cq_index_def)
qed

lemma cq_slots_distinct:
  assumes "(0::nat) < cap" "a \<le> k" "k < b" "b < a + cap"
  shows "k mod cap \<noteq> b mod cap"
proof
  assume "k mod cap = b mod cap"
  then have "(b - k) mod cap = 0" using assms(3) by (metis less_imp_le_nat mod_eq_dvd_iff_nat dvd_imp_mod_0)
  then show False using assms by simp
qed

lemma cq_post_items:
  assumes "cq_ready cap q" "pe_cq p w = q" "pe_cap p = cap" "int w < WORKERS_MAX"
  shows "\<exists>q'. clpend_cq_post mem p (int w) d = Some (p\<lparr>pe_cq := (pe_cq p)(w := q')\<rparr>) \<and>
    cq_items cap q' = (if length (cq_items cap q) < cap then cq_items cap q @ [carried mem d] else cq_items cap q) \<and>
    (unat (cq_tail q) + 1 < 2 ^ 31 \<longrightarrow> cq_ready cap q')"
proof -
  obtain qs where qs: "cq_q q = Some qs" "length qs = cap" using assms(1) by (auto simp: cq_ready_def)
  define h t where "h = unat (cq_head q)" and "t = unat (cq_tail q)"
  have r: "0 < cap" "h \<le> t" "t \<le> h + cap" "t < 2 ^ 31" using assms(1) by (auto simp: cq_ready_def h_def t_def)
  have "unat (cq_tail q - cq_head q) = t - h" using r(2) by (simp add: h_def t_def unat_sub word_le_nat_alt)
  moreover from this have "sint (cq_tail q - cq_head q) = int (t - h)" using sint_small32 [of "cq_tail q - cq_head q"] r(4) by simp
  ultimately have d: "sint (cq_tail q - cq_head q) < int cap \<longleftrightarrow> t - h < cap" by simp
  have len: "length (cq_items cap q) = t - h" by (simp add: cq_items_def h_def t_def)
  have i: "cq_index (cq_tail q) cap = Some (t mod cap)" using cq_index_val r(4) by (simp add: t_def)
  show ?thesis
  proof (cases "t - h < cap")
    case False
    then have "clpend_cq_post mem p (int w) d = Some p"
      using qs assms d by (simp add: clpend_cq_post_def)
    then show ?thesis using False len assms(1,2) by (intro exI [of _ q]) auto
  next
    case True
    define q' where "q' = q\<lparr>cq_q := Some (qs[t mod cap := carried mem d]), cq_tail := cq_tail q + 1\<rparr>"
    have t': "unat (cq_tail q + 1) = t + 1" using r(4) by (subst unat_add_lem [THEN iffD1]) (simp_all add: t_def)
    have "clpend_cq_post mem p (int w) d = Some (p\<lparr>pe_cq := (pe_cq p)(w := q')\<rparr>)"
      using qs assms d i True by (simp add: clpend_cq_post_def q'_def carried_def)
    moreover have "cq_items cap q' = cq_items cap q @ [carried mem d]"
    proof -
      have "k mod cap \<noteq> t mod cap" if "k \<in> set [h..<t]" for k using cq_slots_distinct [OF r(1), of h k t] that True by auto
      then have "map (\<lambda>k. qs[t mod cap := carried mem d] ! (k mod cap)) [h..<t] = map (\<lambda>k. qs ! (k mod cap)) [h..<t]"
        by (intro map_cong [OF refl] nth_list_update_neq) metis
      moreover have "qs[t mod cap := carried mem d] ! (t mod cap) = carried mem d" using qs(2) r(1) by simp
      ultimately show ?thesis using r(2) qs t' by (simp add: cq_items_def q'_def h_def [symmetric] t_def [symmetric])
    qed
    moreover have "t + 1 < 2 ^ 31 \<longrightarrow> cq_ready cap q'"
      using r qs True t' by (simp add: cq_ready_def q'_def h_def [symmetric]) linarith
    ultimately show ?thesis using True len by (intro exI [of _ q']) (simp add: t_def)
  qed
qed

lemma cq_take_items:
  assumes "unat h \<le> unat t" "unat t < 2 ^ 31"
  shows "\<exists>h'. cq_take n qs cap h t = Some (take n (map (\<lambda>k. qs ! (k mod cap)) [unat h..<unat t]), h') \<and>
    unat h' = min (unat h + n) (unat t)"
  using assms
proof (induction n arbitrary: h)
  case (Suc n)
  show ?case
  proof (cases "h = t")
    case False
    then have lt: "unat h < unat t" using Suc.prems by (metis le_neq_implies_less word_unat_eq_iff)
    then have h1: "unat (h + 1) = unat h + 1" using Suc.prems by (subst unat_add_lem [THEN iffD1]) simp_all
    obtain h' where "cq_take n qs cap (h + 1) t = Some (take n (map (\<lambda>k. qs ! (k mod cap)) [unat h + 1..<unat t]), h')"
      "unat h' = min (unat h + 1 + n) (unat t)"
      using Suc.IH [of "h + 1"] Suc.prems lt h1 by auto
    moreover have "cq_index h cap = Some (unat h mod cap)" using cq_index_val Suc.prems lt by simp
    ultimately show ?thesis using False lt by (simp add: upt_conv_Cons)
  qed simp
qed simp

lemma cq_drain_items:
  assumes "cq_ready cap q" "pe_cq p w = q" "pe_cap p = cap" "int w < WORKERS_MAX"
  shows "\<exists>q'. clpend_cq_drain p (int w) mx = Some (take mx (cq_items cap q), p\<lparr>pe_cq := (pe_cq p)(w := q')\<rparr>) \<and>
    cq_items cap q' = drop mx (cq_items cap q) \<and> cq_ready cap q'"
proof -
  obtain qs where qs: "cq_q q = Some qs" "length qs = cap" using assms(1) by (auto simp: cq_ready_def)
  have r: "unat (cq_head q) \<le> unat (cq_tail q)" "unat (cq_tail q) < 2 ^ 31" "unat (cq_tail q) \<le> unat (cq_head q) + cap" "0 < cap"
    using assms(1) by (auto simp: cq_ready_def)
  obtain h' where h': "cq_take mx qs cap (cq_head q) (cq_tail q) = Some (take mx (cq_items cap q), h')"
    "unat h' = min (unat (cq_head q) + mx) (unat (cq_tail q))"
    using cq_take_items [OF r(1,2), of mx qs cap] qs by (auto simp: cq_items_def)
  have "clpend_cq_drain p (int w) mx = Some (take mx (cq_items cap q), p\<lparr>pe_cq := (pe_cq p)(w := q\<lparr>cq_head := h'\<rparr>)\<rparr>)"
    using h' qs assms by (simp add: clpend_cq_drain_def)
  moreover have "cq_items cap (q\<lparr>cq_head := h'\<rparr>) = drop mx (cq_items cap q)"
    using h'(2) by (auto simp: cq_items_def drop_map min_def)
  moreover have "cq_ready cap (q\<lparr>cq_head := h'\<rparr>)" using h'(2) r qs by (auto simp: cq_ready_def)
  ultimately show ?thesis by blast
qed

lemma post_returns:
  assumes "\<And>w. unat (cq_tail (pe_cq p w)) + Suc n < 2 ^ 31"
  shows "\<exists>q. clpend_cq_post mem p w d = Some q \<and> (\<forall>w. unat (cq_tail (pe_cq q w)) + n < 2 ^ 31)"
proof -
  have t: "unat (cq_tail (pe_cq p w) + 1) + n < 2 ^ 31" "cq_index (cq_tail (pe_cq p w)) cap = Some (unat (cq_tail (pe_cq p w)) mod cap)" for w cap
  proof -
    have "unat (cq_tail (pe_cq p w) + 1) = unat (cq_tail (pe_cq p w)) + 1" using assms [of w] by (subst unat_add_lem [THEN iffD1]) simp_all
    then show "unat (cq_tail (pe_cq p w) + 1) + n < 2 ^ 31" using assms [of w] by simp
    show "cq_index (cq_tail (pe_cq p w)) cap = Some (unat (cq_tail (pe_cq p w)) mod cap)" using assms [of w] by (intro cq_index_val) simp
  qed
  have "\<forall>w. unat (cq_tail (pe_cq p w)) + n < 2 ^ 31"
  proof
    fix w show "unat (cq_tail (pe_cq p w)) + n < 2 ^ 31" using assms [of w] by linarith
  qed
  then show ?thesis using t by (simp add: clpend_cq_post_def Let_def split: option.splits)
qed

lemma expire_slot_returns:
  assumes "\<And>w. unat (cq_tail (pe_cq p w)) + Suc n < 2 ^ 31"
  shows "\<exists>t' p'. expire_slot now i (t, p) = Some (t', p') \<and> (\<forall>w. unat (cq_tail (pe_cq p' w)) + n < 2 ^ 31)"
proof -
  have le: "\<forall>w. unat (cq_tail (pe_cq p w)) + n < 2 ^ 31"
  proof
    fix w show "unat (cq_tail (pe_cq p w)) + n < 2 ^ 31" using assms [of w] by linarith
  qed
  define s where "s = pe_pend p ! i"
  define r where "r = clpend_release_locked (put_slot i (s\<lparr>pd_stash := None\<rparr>) p) i"
  define r' where "r' = (if pd_kind s = PC_DONE_RECONCILE then r\<lparr>pe_reconcile_expired := pe_reconcile_expired r + 1\<rparr> else r)"
  have cq: "pe_cq r = pe_cq p" "pe_cq r' = pe_cq p" by (simp_all add: r_def r'_def release_fields)
  obtain q where "clpend_cq_post True r' (pd_worker s) (timeout_done s) = Some q" "\<forall>w. unat (cq_tail (pe_cq q w)) + n < 2 ^ 31"
    using post_returns [of r' n True "pd_worker s" "timeout_done s"] assms cq by auto
  moreover have "expire_slot now i (t, p) = (if pd_req s \<noteq> 0 \<and> pd_deadline s \<le> now
      then (if \<not> pd_answered s then map_option (\<lambda>p. (t + 1, p)) (clpend_cq_post True r' (pd_worker s) (timeout_done s)) else Some (t, r))
      else Some (t, p))"
    unfolding expire_slot_def by (simp add: Let_def s_def [symmetric] r_def [symmetric] r'_def [symmetric])
  ultimately show ?thesis using le cq by simp
qed

lemma expire_loop_returns:
  "(\<And>w. unat (cq_tail (pe_cq p w)) + length is < 2 ^ 31) \<Longrightarrow> \<exists>t' p'. expire_loop now is (t, p) = Some (t', p')"
proof (induction "is" arbitrary: t p)
  case (Cons i "is")
  obtain t1 p1 where "expire_slot now i (t, p) = Some (t1, p1)" "\<forall>w. unat (cq_tail (pe_cq p1 w)) + length is < 2 ^ 31"
    using expire_slot_returns [of p "length is" now i t] Cons.prems by auto
  then show ?case using Cons.IH [of p1 t1] by simp
qed simp

section \<open>Two holders\<close>

lemma race_symmetric:
  fixes s :: pending and na nb :: int and va vb :: u64 and ca cb :: u32
  assumes "na \<noteq> nb"
  defines "sa \<equiv> s\<lparr>pd_answered := True, pd_first_node := na, pd_first_ver := va, pd_first_sum := ca\<rparr>"
    and "sb \<equiv> s\<lparr>pd_answered := True, pd_first_node := nb, pd_first_ver := vb, pd_first_sum := cb\<rparr>"
  shows "same_record (sa\<lparr>pd_expect := e\<rparr>) vb cb = same_record (sb\<lparr>pd_expect := e\<rparr>) va ca"
    "race_out (sa\<lparr>pd_expect := e\<rparr>) nb vb = race_out (sb\<lparr>pd_expect := e\<rparr>) na va"
proof -
  show "same_record (sa\<lparr>pd_expect := e\<rparr>) vb cb = same_record (sb\<lparr>pd_expect := e\<rparr>) va ca"
    unfolding same_record_def sa_def sb_def by auto
  show "race_out (sa\<lparr>pd_expect := e\<rparr>) nb vb = race_out (sb\<lparr>pd_expect := e\<rparr>) na va"
    using assms(1) unfolding race_out_def sa_def sb_def Let_def by auto
qed

lemma answer_two:
  fixes p :: clpend and na :: int and va :: u64 and ca :: u32
  assumes "parked_inv p" "clpend_find p req = Some i" "\<not> pd_answered (pe_pend p ! i)" "\<not> pd_probe_fwd (pe_pend p ! i)"
    "pd_probe_op (pe_pend p ! i) = 0" "pd_kind (pe_pend p ! i) \<noteq> PC_DONE_POSSESS" "2 \<le> pd_expect (pe_pend p ! i)"
  defines "s1 \<equiv> (pe_pend p ! i)\<lparr>pd_answered := True, pd_first_node := na, pd_first_ver := va, pd_first_sum := ca,
      pd_expect := pd_expect (pe_pend p ! i) - 1\<rparr>"
  shows "\<exists>o1 p1 p2. clpend_answer p req True na va ca dl = (ANS_HIT, o1, p1) \<and>
    clpend_answer p1 req True nb vb cb dl =
      (if same_record s1 vb cb then (ANS_SAME, zero_out, p2) else (ANS_RACE, race_out s1 nb vb, p2))"
proof -
  have i: "i < pe_cap p" "pd_req (pe_pend p ! i) = req" "req \<noteq> 0" using find_iff [OF assms(1)] assms(2) by auto
  have l: "i < length (pe_pend p)" using assms(1) i by (simp add: parked_inv_def)
  have a: "clpend_answer p req True na va ca dl =
      (ANS_HIT, zero_out\<lparr>ao_worker := pd_worker (pe_pend p ! i), ao_from_node := na, ao_col := pd_col (pe_pend p ! i),
         ao_key := pd_key (pe_pend p ! i)\<rparr>, put_slot i s1 p)"
    using assms(2-7) unfolding clpend_answer_def answer_positive_def one_less_def s1_def by (simp add: Let_def)
  have f: "clpend_find (put_slot i s1 p) req = Some i"
    using assms(2) l unfolding clpend_find_def Let_def s1_def by (auto split: if_splits)
  have s: "pe_pend (put_slot i s1 p) ! i = s1" using l by simp
  have "clpend_answer (put_slot i s1 p) req True nb vb cb dl =
      (if same_record s1 vb cb then (ANS_SAME, zero_out, one_less (put_slot i s1 p) i s1)
       else (ANS_RACE, race_out s1 nb vb, one_less (put_slot i s1 p) i s1))"
    using assms(5) unfolding clpend_answer_def f answer_positive_def option.case Let_def s by (simp add: s1_def)
  with a show ?thesis by blast
qed

section \<open>The properties\<close>

lemma occupied_card: "length (filter P (pe_pend q)) = card {i. i < length (pe_pend q) \<and> P (pe_pend q ! i)}"
  by (rule length_filter_conv_card)

text \<open>C24: From a fresh table, after any sequence of allocations, answers, retirements, expiries, queue
  operations and changes that requesters make to their own slots, the occupancy gauge is exactly the number of
  slots that hold a request, each of the sixteen gauges by kind is the number of those of that kind, the gauge
  never exceeds the recorded peak or the capacity, and a lookup by handle finds exactly the slot that holds that
  handle.\<close>

theorem pend_occupancy_exact:
  assumes "clpend_init True p0 cap = (c, p)" "pend_steps p l q"
  shows "int (pe_cap q) = c \<and> pe_used q = int (card {i. i < pe_cap q \<and> pd_req (pe_pend q ! i) \<noteq> 0}) \<and>
    pe_used q \<le> c \<and> pe_used q \<le> pe_peak q \<and>
    (\<forall>k. 0 \<le> k \<and> k < 16 \<longrightarrow>
       clpend_used_kind q k = int (card {i. i < pe_cap q \<and> pd_req (pe_pend q ! i) \<noteq> 0 \<and> pd_kind (pe_pend q ! i) = k})) \<and>
    (\<forall>h i. clpend_find q h = Some i \<longleftrightarrow> i < pe_cap q \<and> h \<noteq> 0 \<and> pd_req (pe_pend q ! i) = h)"
proof -
  have p: "parked_inv p" "int (pe_cap p) = c" using init_inv [OF assms(1)] by simp_all
  have q: "parked_inv q" "pe_cap q = pe_cap p" using steps_inv [OF assms(2) p(1)] by simp_all
  have l: "length (pe_pend q) = pe_cap q" using q(1) by (simp add: parked_inv_def)
  have "pe_used q = int (card {i. i < pe_cap q \<and> pd_req (pe_pend q ! i) \<noteq> 0})"
    using q(1) unfolding parked_inv_def occupied_def occupied_card by simp
  moreover have "pe_used q \<le> pe_peak q" using q(1) by (simp add: parked_inv_def)
  moreover have "pe_used q \<le> c"
    using q p(2) length_filter_le [of "\<lambda>s. pd_req s \<noteq> 0" "pe_pend q"] by (simp add: parked_inv_def occupied_def)
  moreover have "clpend_used_kind q k = int (card {i. i < pe_cap q \<and> pd_req (pe_pend q ! i) \<noteq> 0 \<and> pd_kind (pe_pend q ! i) = k})"
    if "0 \<le> k \<and> k < 16" for k
    using q(1) that unfolding parked_inv_def occupied_def filter_filter occupied_card clpend_used_kind_def l by simp
  moreover have "clpend_find q h = Some i \<longleftrightarrow> i < pe_cap q \<and> h \<noteq> 0 \<and> pd_req (pe_pend q ! i) = h" for h i
    using find_iff [OF q(1), of h i] by auto
  ultimately show ?thesis using p(2) q(2) by simp
qed

text \<open>C5: From a fresh table, along any such sequence, a handle is completed at most as often as it was given
  to a requester: by an answer that settles it, by a retirement or by an expiry; while it is still open, one
  completion fewer has been delivered. The one exception the code allows is counted apart: a retirement that
  does not ask whether the request was answered may meet one that was.\<close>

theorem pend_completes_once:
  assumes "clpend_init True p0 cap = (c, p)" "pend_steps p l q"
  shows "lg_done l h + of_bool (open_req q h) \<le> lg_opened l h + lg_late l h"
proof -
  have p: "parked_inv p" using init_inv [OF assms(1)] by simp
  have "pe_used p = 0" using assms(1) by (auto simp: clpend_init_def Let_def)
  then have "occupied p = []" using p by (simp add: parked_inv_def)
  then have "pd_req s = 0" if "s \<in> set (pe_pend p)" for s using that by (auto simp: occupied_def filter_empty_conv)
  then have "\<not> open_req p h" using p unfolding open_iff [OF p] by (auto simp: parked_inv_def)
  then show ?thesis using steps_once [OF assms(2) p, of h] by simp
qed

text \<open>C6: A handle taken before its slot was handed out again finds nothing afterwards, as long as the slot was
  handed out fewer than 32767 more times: late answers to a recycled slot are ignored.\<close>

theorem pend_stale_reply_ignored:
  assumes "clpend_init True p0 cap = (c, p)" "pend_steps p l q" "pend_steps q m r"
    "clpend_find q h = Some i" "0 < lg_reuse m i" "lg_reuse m i < 32767"
  shows "clpend_find r h = None \<and> clpend_answer r h positive n ver vsum dl = (ANS_IGNORE, zero_out, r) \<and>
    clpend_retire r h only = (None, r)"
proof -
  have "parked_inv q" using init_inv [OF assms(1)] steps_inv [OF assms(2)] by simp
  then have "clpend_find r h = None" using stale_handle [OF _ assms(3,4) _ assms(6)] assms(5) by (metis less_irrefl_nat)
  then show ?thesis by (simp add: clpend_answer_def clpend_retire_def)
qed



text \<open>C27: A worker's completion queue is a bounded first-in first-out list while its positions have not wrapped:
  posting appends the completion, or drops it when the queue holds a full table of them; draining takes the
  oldest ones and leaves the rest; no other worker's queue changes.\<close>

theorem cq_refines_fifo:
  assumes "cq_ready (pe_cap p) (pe_cq p w)" "int w < WORKERS_MAX"
  shows "(\<exists>q. clpend_cq_post mem p (int w) d = Some (p\<lparr>pe_cq := (pe_cq p)(w := q)\<rparr>) \<and>
      cq_items (pe_cap p) q = (if length (cq_items (pe_cap p) (pe_cq p w)) < pe_cap p
        then cq_items (pe_cap p) (pe_cq p w) @ [carried mem d] else cq_items (pe_cap p) (pe_cq p w)) \<and>
      (unat (cq_tail (pe_cq p w)) + 1 < 2 ^ 31 \<longrightarrow> cq_ready (pe_cap p) q)) \<and>
    (\<exists>q. clpend_cq_drain p (int w) mx = Some (take mx (cq_items (pe_cap p) (pe_cq p w)), p\<lparr>pe_cq := (pe_cq p)(w := q)\<rparr>) \<and>
      cq_items (pe_cap p) q = drop mx (cq_items (pe_cap p) (pe_cq p w)) \<and> cq_ready (pe_cap p) q)"
  using cq_post_items [OF assms(1) refl refl assms(2), of mem d] cq_drain_items [OF assms(1) refl refl assms(2), of mx] by blast

text \<open>The positions are C \<open>int\<close>s that only grow: once one has passed the largest, the remainder that selects the
  slot is negative and the post would write in front of the queue.\<close>

lemma cq_position_wraps: "cq_index 0x80000001 8192 = None"
  by code_simp

section \<open>Examples\<close>

definition ex_blank :: clpend where
  "ex_blank = \<lparr>pe_pend = [], pe_cap = 0, pe_used = 0, pe_peak = 0, pe_wpeak = \<lparr>wm_mi = replicate 6 0, wm_m = replicate 6 0\<rparr>,
     pe_used_kind = [], pe_exhausted = 0, pe_reconcile_expired = 0, pe_cq = (\<lambda>_. \<lparr>cq_q = None, cq_head = 0, cq_tail = 0\<rparr>)\<rparr>"

definition ex_start :: clpend where
  "ex_start = snd (clpend_init True ex_blank 64)"

text \<open>One request parked by worker 3 that expects two answers; and the table after it was retired and the slot
  handed out again.\<close>

definition ex_one :: clpend where
  "ex_one = snd (clpend_alloc 0 ex_start 0 2 0 3 0 100)"

definition ex_gone :: clpend where
  "ex_gone = snd (clpend_retire ex_one 0x80010000 True)"

definition ex_again :: clpend where
  "ex_again = snd (clpend_alloc 0 ex_gone 0 2 0 3 0 100)"

definition ex_queue :: clpend where
  "ex_queue = clpend_cq_register ex_start 3"

definition ex_log :: pend_log where
  "ex_log = no_log\<lparr>lg_reuse := bump 0 True (lg_reuse no_log), lg_opened := bump 0x80010000 True (lg_opened no_log)\<rparr>"

lemma ex_init: "clpend_init True ex_blank 64 = (64, ex_start)"
proof -
  have "fst (clpend_init True ex_blank 64) = 64" by code_simp
  then show ?thesis by (simp add: ex_start_def prod_eq_iff)
qed

lemma ex_alloc: "clpend_alloc 0 ex_start 0 2 0 3 0 100 = ((0x80010000, Some 0, PC_CLFAIL_NONE), ex_one)"
proof -
  have "fst (clpend_alloc 0 ex_start 0 2 0 3 0 100) = (0x80010000, Some 0, PC_CLFAIL_NONE)" by code_simp
  then show ?thesis by (simp add: ex_one_def prod_eq_iff)
qed

lemma ex_steps: "pend_steps ex_start ex_log ex_one"
  unfolding ex_log_def by (rule pend_steps.alloc [OF pend_steps.none ex_alloc])

lemma ex_alloc_again: "clpend_alloc 0 ex_gone 0 2 0 3 0 100 = ((0x80020000, Some 0, PC_CLFAIL_NONE), ex_again)"
proof -
  have "fst (clpend_alloc 0 ex_gone 0 2 0 3 0 100) = (0x80020000, Some 0, PC_CLFAIL_NONE)" by code_simp
  then show ?thesis by (simp add: ex_again_def prod_eq_iff)
qed

lemma ex_retire: "clpend_retire ex_one 0x80010000 True = (fst (clpend_retire ex_one 0x80010000 True), ex_gone)"
  by (simp add: ex_gone_def)

lemma ex_reuse: "\<exists>m. pend_steps ex_one m ex_again \<and> lg_reuse m 0 = 1"
  by (rule exI, rule conjI, rule pend_steps.alloc [OF pend_steps.retire [OF pend_steps.none ex_retire] ex_alloc_again])
    (simp add: bump_def no_log_def)

lemma ex_find: "clpend_find ex_one 0x80010000 = Some 0"
  by code_simp

lemma ex_one_queues: "pe_cq ex_one w = \<lparr>cq_q = None, cq_head = 0, cq_tail = 0\<rparr>"
proof -
  have "parked_inv ex_start" using init_inv [OF ex_init] by simp
  from alloc_effect [OF this ex_alloc] have "pe_cq ex_one = pe_cq ex_start" by simp
  then show ?thesis by (simp add: ex_start_def clpend_init_def ex_blank_def Let_def)
qed

theorem pend_occupancy_exact_witness:
  "pe_used ex_one = int (card {i. i < pe_cap ex_one \<and> pd_req (pe_pend ex_one ! i) \<noteq> 0}) \<and> pe_used ex_one = 1 \<and> pe_used ex_one \<le> 64"
proof -
  have "pe_used ex_one = 1" by code_simp
  then show ?thesis using pend_occupancy_exact [OF ex_init ex_steps] by simp
qed

theorem pend_completes_once_witness: "open_req ex_one 0x80010000 \<and> lg_opened ex_log 0x80010000 = 1 \<and> lg_done ex_log 0x80010000 = 0"
proof -
  have "\<not> pd_answered (pe_pend ex_one ! 0)" by code_simp
  then have "open_req ex_one 0x80010000" using ex_find by (simp add: open_req_def)
  then show ?thesis using pend_completes_once [OF ex_init ex_steps, of "0x80010000"] by (simp add: ex_log_def no_log_def bump_def)
qed

theorem pend_stale_reply_ignored_witness:
  "clpend_find ex_again 0x80010000 = None \<and> clpend_answer ex_again 0x80010000 True 1 5 0 100 = (ANS_IGNORE, zero_out, ex_again)"
proof -
  obtain m where "pend_steps ex_one m ex_again" "lg_reuse m 0 = 1" using ex_reuse by blast
  then show ?thesis using pend_stale_reply_ignored [OF ex_init ex_steps _ ex_find, of m ex_again True 1 5 0 100] by simp
qed



theorem cq_refines_fifo_witness:
  "cq_ready 64 (pe_cq ex_queue 3) \<and>
   (\<exists>q. clpend_cq_post True ex_queue 3 zero_done = Some (ex_queue\<lparr>pe_cq := (pe_cq ex_queue)(3 := q)\<rparr>) \<and> cq_items 64 q = [zero_done])"
proof -
  have c: "pe_cap ex_queue = 64" "cq_q (pe_cq ex_queue 3) = Some (replicate 64 zero_done)" "cq_head (pe_cq ex_queue 3) = 0"
    "cq_tail (pe_cq ex_queue 3) = 0" by code_simp+
  have r: "cq_ready (pe_cap ex_queue) (pe_cq ex_queue 3)" unfolding cq_ready_def c by simp
  have i: "cq_items (pe_cap ex_queue) (pe_cq ex_queue 3) = []" unfolding cq_items_def c by simp
  have w: "int 3 < WORKERS_MAX" by code_simp
  have z: "carried True zero_done = zero_done" by (simp add: carried_def zero_done_def)
  show ?thesis using cq_refines_fifo [OF r w, of True zero_done 0] r i z c(1) by auto
qed

end
