(* ===== verification/Clreplay.thy ===== *)
theory Clreplay
  imports Tables
begin

text \<open>
  Replay protection of sealed cluster frames (\<open>src/src/clreplay.c\<close>, \<open>src/src/clreplay.h\<close>): per sender the
  newest incarnation, per stream of a sender a window of the sequence numbers taken.  Sequence numbers
  are unsigned 64-bit and kept as naturals: every sum formed here is at most the number being admitted.
  A slot of the senders' table is an index.  The counts are naturals.  The locks are held across each step, so an admission is
  one transition; whether memory for a window is there is a parameter.
\<close>

unbundle bit_operations_syntax

section \<open>The window of a stream\<close>

definition CLREPLAY_WIN :: nat where "CLREPLAY_WIN = 131072"
definition CLREPLAY_SENDERS :: nat where "CLREPLAY_SENDERS = 512"
definition CLREPLAY_STREAMS :: nat where "CLREPLAY_STREAMS = 256"
definition CLREPLAY_STALE_MS :: int where "CLREPLAY_STALE_MS = 60000"

datatype clreplay_rc = CLREPLAY_OK | CLREPLAY_DUP | CLREPLAY_OLD | CLREPLAY_INCARN | CLREPLAY_FULL

record win =
  wn_incarn :: u64
  wn_hi :: nat
  wn_bits :: "u64 list"

definition zero_win :: "u64 \<Rightarrow> win" where
  "zero_win incarn = \<lparr>wn_incarn = incarn, wn_hi = 0, wn_bits = replicate (CLREPLAY_WIN div 64) 0\<rparr>"

function bit_clear_range :: "u64 list \<Rightarrow> nat \<Rightarrow> nat \<Rightarrow> u64 list" where
  "bit_clear_range bits i to =
    (if i < to then
       let b = i mod CLREPLAY_WIN in
       if b mod 64 = 0 \<and> to - i \<ge> 64 then bit_clear_range (bits[b div 64 := 0]) (i + 63 + 1) to
       else bit_clear_range (bits[b div 64 := bits ! (b div 64) AND NOT (push_bit (b mod 64) 1)]) (i + 1) to
     else bits)"
  by pat_completeness auto
termination by (relation "measure (\<lambda>(bits, i, to). to - i)") (auto simp: Let_def)

declare bit_clear_range.simps [simp del]

definition win_admit :: "win \<Rightarrow> nat \<Rightarrow> clreplay_rc \<times> win" where
  "win_admit w seq =
    (let b = seq mod CLREPLAY_WIN; m = push_bit (b mod 64) 1;
         mark = (\<lambda>bits. bits[b div 64 := bits ! (b div 64) OR m]) in
     if seq > wn_hi w then
       let bits = (if seq - wn_hi w > CLREPLAY_WIN then replicate (CLREPLAY_WIN div 64) 0
                   else bit_clear_range (wn_bits w) (wn_hi w + 1) seq)
       in (CLREPLAY_OK, w\<lparr>wn_bits := mark bits, wn_hi := seq\<rparr>)
     else if wn_hi w - seq \<ge> CLREPLAY_WIN then (CLREPLAY_OLD, w)
     else if wn_bits w ! (b div 64) AND m \<noteq> 0 then (CLREPLAY_DUP, w)
     else (CLREPLAY_OK, w\<lparr>wn_bits := mark (wn_bits w)\<rparr>))"

section \<open>The senders\<close>

record sender =
  sd_key :: u64
  sd_incarn :: u64
  sd_seen :: int
  sd_w :: "win option list"

record clwire_id =
  id_incarn :: u64
  id_seq :: nat
  id_ip :: u32
  id_port :: u16
  id_stream :: u16

record clreplay =
  rp_tab :: "sender list"
  rp_cnt :: "clreplay_rc \<Rightarrow> nat"

definition sender_key :: "u32 \<Rightarrow> u16 \<Rightarrow> u64" where
  "sender_key ip port = push_bit 48 1 OR push_bit 16 (ucast ip) OR ucast port"

definition sender_hash :: "u64 \<Rightarrow> nat" where
  "sender_hash key = unat (ucast (drop_bit 40 (key * 0x9E3779B97F4A7C15)) :: u32)"

definition sender_slot :: "u64 \<Rightarrow> nat \<Rightarrow> nat" where
  "sender_slot key i = (sender_hash key + i) mod CLREPLAY_SENDERS"

text \<open>The search under the table's lock, from the free slot on.\<close>

fun claim_from :: "sender list \<Rightarrow> u64 \<Rightarrow> nat list \<Rightarrow> nat option \<times> sender list" where
  "claim_from tab key [] = (None, tab)"
| "claim_from tab key (k # ks) =
    (let j = sender_slot key k; s = tab ! j in
     if sd_key s = key \<or> sd_key s = 0
     then (Some j, if sd_key s = 0 then tab[j := s\<lparr>sd_key := key\<rparr>] else tab)
     else claim_from tab key ks)"

fun sender_from :: "sender list \<Rightarrow> u64 \<Rightarrow> nat list \<Rightarrow> nat option \<times> sender list" where
  "sender_from tab key [] = (None, tab)"
| "sender_from tab key (i # is) =
    (let j = sender_slot key i; sk = sd_key (tab ! j) in
     if sk = key then (Some j, tab)
     else if sk \<noteq> 0 then sender_from tab key is
     else claim_from tab key (i # is))"

definition sender_of :: "sender list \<Rightarrow> u32 \<Rightarrow> u16 \<Rightarrow> nat option \<times> sender list" where
  "sender_of tab ip port = sender_from tab (sender_key ip port) [0..<CLREPLAY_SENDERS]"

definition counted :: "clreplay_rc \<Rightarrow> clreplay \<Rightarrow> clreplay_rc \<times> clreplay" where
  "counted rc r = (rc, r\<lparr>rp_cnt := (rp_cnt r)(rc := rp_cnt r rc + 1)\<rparr>)"

text \<open>The part of an admission that follows the check of the sender's incarnation; \<open>lower\<close> says that the
  sender's newer incarnation has gone quiet and this one takes its place.\<close>

definition admit_stream :: "bool \<Rightarrow> clreplay \<Rightarrow> nat \<Rightarrow> bool \<Rightarrow> clwire_id \<Rightarrow> int \<Rightarrow> clreplay_rc \<times> clreplay" where
  "admit_stream mem r j lower fid now =
    (let s = rp_tab r ! j; st = unat (id_stream fid) in
     case (case sd_w s ! st of Some w \<Rightarrow> Some w | None \<Rightarrow> if mem then Some (zero_win (id_incarn fid)) else None) of
       None \<Rightarrow> counted CLREPLAY_FULL r
     | Some w \<Rightarrow>
         let s = s\<lparr>sd_w := (sd_w s)[st := Some w]\<rparr>; r = r\<lparr>rp_tab := (rp_tab r)[j := s]\<rparr> in
         if id_incarn fid \<noteq> wn_incarn w \<and> id_incarn fid < wn_incarn w \<and> \<not> lower then counted CLREPLAY_INCARN r
         else
           let w = (if id_incarn fid \<noteq> wn_incarn w then zero_win (id_incarn fid) else w) in
           case win_admit w (id_seq fid) of (rc, w) \<Rightarrow>
             let s = s\<lparr>sd_w := (sd_w s)[st := Some w]\<rparr>;
                 s = (if rc = CLREPLAY_OK \<and> now - sd_seen s \<ge> 1000 then s\<lparr>sd_seen := now\<rparr> else s);
                 r = r\<lparr>rp_tab := (rp_tab r)[j := s]\<rparr>
             in if rc = CLREPLAY_OK then (rc, r) else counted rc r)"

definition clreplay_admit :: "bool \<Rightarrow> clreplay \<Rightarrow> clwire_id \<Rightarrow> int \<Rightarrow> clreplay_rc \<times> clreplay" where
  "clreplay_admit mem r fid now =
    (case sender_of (rp_tab r) (id_ip fid) (id_port fid) of (js, tab) \<Rightarrow>
       let r = r\<lparr>rp_tab := tab\<rparr> in
       case js of
         None \<Rightarrow> counted CLREPLAY_FULL r
       | Some j \<Rightarrow>
           if unat (id_stream fid) \<ge> CLREPLAY_STREAMS then counted CLREPLAY_FULL r
           else
             let s = tab ! j; cur = sd_incarn s in
             if id_incarn fid < cur then
               (if now - sd_seen s < CLREPLAY_STALE_MS then counted CLREPLAY_INCARN r
                else admit_stream mem (r\<lparr>rp_tab := tab[j := s\<lparr>sd_incarn := id_incarn fid\<rparr>]\<rparr>) j True fid now)
             else
               admit_stream mem
                 (r\<lparr>rp_tab := tab[j := s\<lparr>sd_incarn := (if id_incarn fid > cur then id_incarn fid else cur)\<rparr>]\<rparr>)
                 j False fid now)"

definition clreplay_start :: clreplay where
  "clreplay_start = \<lparr>rp_tab = replicate CLREPLAY_SENDERS
     \<lparr>sd_key = 0, sd_incarn = 0, sd_seen = 0, sd_w = replicate CLREPLAY_STREAMS None\<rparr>, rp_cnt = (\<lambda>_. 0)\<rparr>"

definition clreplay_counts :: "clreplay \<Rightarrow> nat list" where
  "clreplay_counts r = map (rp_cnt r) [CLREPLAY_OK, CLREPLAY_DUP, CLREPLAY_OLD, CLREPLAY_INCARN, CLREPLAY_FULL]"

section \<open>Runs\<close>

text \<open>The numbers offered to one window, with the answers.\<close>

fun win_run :: "win \<Rightarrow> nat list \<Rightarrow> (nat \<times> clreplay_rc) list \<times> win" where
  "win_run w [] = ([], w)"
| "win_run w (q # qs) = (case win_admit w q of (rc, w) \<Rightarrow> case win_run w qs of (rs, w) \<Rightarrow> ((q, rc) # rs, w))"

text \<open>What a window has to answer for the numbers it has taken so far.\<close>

definition win_verdict :: "nat set \<Rightarrow> nat \<Rightarrow> clreplay_rc" where
  "win_verdict T q =
    (if q + CLREPLAY_WIN \<le> Max (insert 0 T) then CLREPLAY_OLD else if q \<in> T then CLREPLAY_DUP else CLREPLAY_OK)"

text \<open>The frames offered to the node, each with the answer and with whether the sender's newer
  incarnation gave way to it.\<close>

definition gives_way :: "clreplay \<Rightarrow> clwire_id \<Rightarrow> int \<Rightarrow> bool" where
  "gives_way r fid now \<longleftrightarrow> unat (id_stream fid) < CLREPLAY_STREAMS \<and>
    (case sender_of (rp_tab r) (id_ip fid) (id_port fid) of
       (Some j, tab) \<Rightarrow> id_incarn fid < sd_incarn (tab ! j) \<and> CLREPLAY_STALE_MS \<le> now - sd_seen (tab ! j)
     | (None, tab) \<Rightarrow> False)"

fun admit_run :: "clreplay \<Rightarrow> (bool \<times> clwire_id \<times> int) list \<Rightarrow> (clwire_id \<times> clreplay_rc \<times> bool) list" where
  "admit_run r [] = []"
| "admit_run r ((mem, fid, now) # es) =
    (case clreplay_admit mem r fid now of (rc, r') \<Rightarrow> (fid, rc, gives_way r fid now) # admit_run r' es)"

section \<open>Bitmaps\<close>

definition win_bit :: "u64 list \<Rightarrow> nat \<Rightarrow> bool" where
  "win_bit bits q = bit (bits ! (q mod CLREPLAY_WIN div 64)) (q mod CLREPLAY_WIN mod 64)"

lemma replay_index: "q mod CLREPLAY_WIN div 64 < CLREPLAY_WIN div 64"
proof -
  have "q mod CLREPLAY_WIN < CLREPLAY_WIN" by (simp add: CLREPLAY_WIN_def)
  then show ?thesis by (simp add: CLREPLAY_WIN_def)
qed

lemma win_same: "a div 64 = b div 64 \<and> a mod 64 = b mod 64 \<longleftrightarrow> a = (b :: nat)"
  by (metis div_mult_mod_eq)

lemma one_bit: "k < 64 \<Longrightarrow> bit (push_bit k 1 :: u64) n \<longleftrightarrow> n = k"
  by (subst bit_push_bit_iff) (auto simp: bit_1_iff)

lemma win_bit_set:
  assumes "length bits = CLREPLAY_WIN div 64"
  shows "win_bit (bits[q mod CLREPLAY_WIN div 64 := bits ! (q mod CLREPLAY_WIN div 64) OR push_bit (q mod CLREPLAY_WIN mod 64) 1]) p \<longleftrightarrow>
    p mod CLREPLAY_WIN = q mod CLREPLAY_WIN \<or> win_bit bits p"
proof -
  have m: "q mod CLREPLAY_WIN mod 64 < 64" by simp
  show ?thesis
    using win_same [of "p mod CLREPLAY_WIN" "q mod CLREPLAY_WIN"] replay_index [of q] assms one_bit [OF m]
    by (cases "p mod CLREPLAY_WIN div 64 = q mod CLREPLAY_WIN div 64") (auto simp: win_bit_def bit_or_iff)
qed

lemma win_bit_unset:
  assumes "length bits = CLREPLAY_WIN div 64"
  shows "win_bit (bits[q mod CLREPLAY_WIN div 64 := bits ! (q mod CLREPLAY_WIN div 64) AND NOT (push_bit (q mod CLREPLAY_WIN mod 64) 1)]) p \<longleftrightarrow>
    p mod CLREPLAY_WIN \<noteq> q mod CLREPLAY_WIN \<and> win_bit bits p"
proof -
  have m: "q mod CLREPLAY_WIN mod 64 < 64" and p: "p mod CLREPLAY_WIN mod 64 < 64" by simp_all
  show ?thesis
    using win_same [of "p mod CLREPLAY_WIN" "q mod CLREPLAY_WIN"] replay_index [of q] assms one_bit [OF m] p
    by (cases "p mod CLREPLAY_WIN div 64 = q mod CLREPLAY_WIN div 64") (auto simp: win_bit_def bit_and_iff bit_not_iff)
qed

lemma win_bit_word:
  assumes "length bits = CLREPLAY_WIN div 64" "q mod CLREPLAY_WIN mod 64 = 0"
  shows "win_bit (bits[q mod CLREPLAY_WIN div 64 := 0]) p \<longleftrightarrow>
    \<not> (\<exists>k < 64. p mod CLREPLAY_WIN = (q + k) mod CLREPLAY_WIN) \<and> win_bit bits p"
proof -
  let ?d = "q mod CLREPLAY_WIN div 64"
  have q: "q mod CLREPLAY_WIN = 64 * ?d" using assms(2) by (metis add.right_neutral mult_div_mod_eq)
  have d: "?d < CLREPLAY_WIN div 64" by (rule replay_index)
  have s: "(q + k) mod CLREPLAY_WIN = 64 * ?d + k" if "k < 64" for k
  proof -
    have "(q + k) mod CLREPLAY_WIN = (64 * ?d + k) mod CLREPLAY_WIN" by (metis q mod_add_left_eq)
    moreover have "64 * ?d + k < CLREPLAY_WIN" using d that by (simp add: CLREPLAY_WIN_def)
    ultimately show ?thesis by simp
  qed
  have "(\<exists>k < 64. p mod CLREPLAY_WIN = (q + k) mod CLREPLAY_WIN) \<longleftrightarrow> p mod CLREPLAY_WIN div 64 = ?d"
  proof
    assume "p mod CLREPLAY_WIN div 64 = ?d"
    then have "p mod CLREPLAY_WIN = 64 * ?d + p mod CLREPLAY_WIN mod 64" by (metis mult_div_mod_eq)
    moreover have "p mod CLREPLAY_WIN mod 64 < 64" by simp
    ultimately show "\<exists>k < 64. p mod CLREPLAY_WIN = (q + k) mod CLREPLAY_WIN" using s by metis
  qed (auto simp: s)
  then show ?thesis using d assms(1) by (cases "p mod CLREPLAY_WIN div 64 = ?d") (auto simp: win_bit_def)
qed

lemma clear_range_bits:
  "length bits = CLREPLAY_WIN div 64 \<Longrightarrow> length (bit_clear_range bits i to) = CLREPLAY_WIN div 64 \<and>
    (win_bit (bit_clear_range bits i to) p \<longleftrightarrow> \<not> (\<exists>q. i \<le> q \<and> q < to \<and> p mod CLREPLAY_WIN = q mod CLREPLAY_WIN) \<and> win_bit bits p)"
proof (induction bits i to rule: bit_clear_range.induct)
  case (1 bits i to)
  define b where "b = i mod CLREPLAY_WIN"
  let ?in = "\<lambda>i. \<exists>q. i \<le> q \<and> q < to \<and> p mod CLREPLAY_WIN = q mod CLREPLAY_WIN"
  show ?case
  proof (cases "i < to")
    case False
    then show ?thesis using "1.prems" by (subst (1 2) bit_clear_range.simps) auto
  next
    case lt: True
    show ?thesis
    proof (cases "b mod 64 = 0 \<and> to - i \<ge> 64")
      case True
      have eq: "bit_clear_range bits i to = bit_clear_range (bits[b div 64 := 0]) (i + 63 + 1) to"
        using lt True by (subst bit_clear_range.simps) (simp add: b_def Let_def)
      have "?in i \<longleftrightarrow> (\<exists>k < 64. p mod CLREPLAY_WIN = (i + k) mod CLREPLAY_WIN) \<or> ?in (i + 63 + 1)"
      proof
        assume "?in i"
        then obtain q where q: "i \<le> q" "q < to" "p mod CLREPLAY_WIN = q mod CLREPLAY_WIN" by blast
        show "(\<exists>k < 64. p mod CLREPLAY_WIN = (i + k) mod CLREPLAY_WIN) \<or> ?in (i + 63 + 1)"
        proof (cases "q < i + 64")
          case True
          then show ?thesis using q by (intro disjI1 exI [of _ "q - i"]) auto
        next
          case False
          then have "i + 63 + 1 \<le> q" by simp
          then show ?thesis using q(2,3) by blast
        qed
      next
        assume "(\<exists>k < 64. p mod CLREPLAY_WIN = (i + k) mod CLREPLAY_WIN) \<or> ?in (i + 63 + 1)"
        then show "?in i"
        proof
          assume "\<exists>k < 64. p mod CLREPLAY_WIN = (i + k) mod CLREPLAY_WIN"
          then obtain k where "k < 64" "p mod CLREPLAY_WIN = (i + k) mod CLREPLAY_WIN" by blast
          then show ?thesis using True by (intro exI [of _ "i + k"]) auto
        next
          assume "?in (i + 63 + 1)"
          then obtain q where "i + 63 + 1 \<le> q" "q < to" "p mod CLREPLAY_WIN = q mod CLREPLAY_WIN" by blast
          moreover from this(1) have "i \<le> q" by simp
          ultimately show ?thesis by blast
        qed
      qed
      then show ?thesis
        using "1.IH"(1) [OF lt b_def True] win_bit_word [OF "1.prems", of i p] True "1.prems" unfolding eq b_def
        by (simp only: length_list_update simp_thms de_Morgan_disj conj_ac)
    next
      case False
      have eq: "bit_clear_range bits i to = bit_clear_range (bits[b div 64 := bits ! (b div 64) AND NOT (push_bit (b mod 64) 1)]) (i + 1) to"
        by (subst bit_clear_range.simps) (simp only: lt if_True Let_def b_def [symmetric] False if_False)
      have "?in i \<longleftrightarrow> p mod CLREPLAY_WIN = i mod CLREPLAY_WIN \<or> ?in (i + 1)"
      proof
        assume "?in i"
        then obtain q where q: "i \<le> q" "q < to" "p mod CLREPLAY_WIN = q mod CLREPLAY_WIN" by blast
        show "p mod CLREPLAY_WIN = i mod CLREPLAY_WIN \<or> ?in (i + 1)"
        proof (cases "q = i")
          case False
          then have "i + 1 \<le> q" using q(1) by simp
          then show ?thesis using q(2,3) by blast
        qed (use q(3) in simp)
      next
        assume "p mod CLREPLAY_WIN = i mod CLREPLAY_WIN \<or> ?in (i + 1)"
        then show "?in i" using lt by (meson add_leE order_refl)
      qed
      then show ?thesis
        using "1.IH"(2) [OF lt b_def False] win_bit_unset [OF "1.prems", of i p] "1.prems" unfolding eq b_def
        by (simp only: length_list_update simp_thms de_Morgan_disj conj_ac)
    qed
  qed
qed

section \<open>A window takes each number once\<close>

definition win_ok :: "win \<Rightarrow> nat set \<Rightarrow> bool" where
  "win_ok w T \<longleftrightarrow> finite T \<and> length (wn_bits w) = CLREPLAY_WIN div 64 \<and> wn_hi w = Max (insert 0 T) \<and>
     (\<forall>q. q \<le> wn_hi w \<and> wn_hi w < q + CLREPLAY_WIN \<longrightarrow> (win_bit (wn_bits w) q \<longleftrightarrow> q \<in> T))"

lemma zero_win_ok: "win_ok (zero_win incarn) {}"
  using replay_index [of 0] by (auto simp: win_ok_def zero_win_def win_bit_def)

lemma near_same:
  assumes "(a :: nat) \<le> b" "b < a + n" "a mod n = b mod n"
  shows "a = b"
proof -
  have "n dvd b - a" using mod_eq_dvd_iff_nat [OF assms(1)] assms(3) by metis
  moreover have "b - a < n" using assms(1,2) by linarith
  ultimately have "b - a = 0" by (metis dvd_imp_le not_le not_gr_zero)
  then show ?thesis using assms(1) by simp
qed

lemma bit_test: "(w :: u64) AND push_bit k 1 \<noteq> 0 \<longleftrightarrow> k < 64 \<and> bit w k"
proof -
  have "w AND push_bit k 1 = 0 \<longleftrightarrow> (\<forall>n < 64. \<not> (bit w n \<and> bit (push_bit k 1 :: u64) n))"
    by (auto simp: bit_eq_iff bit_and_iff)
  moreover have "bit (push_bit k 1 :: u64) n \<longleftrightarrow> n = k" if "n < 64" for n
    using that by (subst bit_push_bit_iff) (auto simp: bit_1_iff)
  ultimately show ?thesis by auto
qed

lemma win_admit_ok:
  assumes "win_ok w T" "win_admit w q = (rc, w')"
  shows "rc = win_verdict T q \<and> win_ok w' (if rc = CLREPLAY_OK then insert q T else T) \<and> wn_incarn w' = wn_incarn w"
proof -
  let ?W = CLREPLAY_WIN
  define b where "b = q mod ?W"
  define mark where "mark bits = bits[b div 64 := bits ! (b div 64) OR (push_bit (b mod 64) 1 :: u64)]" for bits
  have T: "finite T" "length (wn_bits w) = ?W div 64" "wn_hi w = Max (insert 0 T)" using assms(1) by (simp_all add: win_ok_def)
  have bits: "win_bit (wn_bits w) p \<longleftrightarrow> p \<in> T" if "p \<le> wn_hi w" "wn_hi w < p + ?W" for p using assms(1) that by (simp add: win_ok_def)
  have top: "p \<le> wn_hi w" if "p \<in> T" for p using that T by simp
  have set: "win_bit (mark bs) p \<longleftrightarrow> p mod ?W = b \<or> win_bit bs p" "length (mark bs) = ?W div 64" if "length bs = ?W div 64" for bs p
    using win_bit_set [OF that, of q p] that by (simp_all add: mark_def b_def)
  consider "q > wn_hi w" | "q \<le> wn_hi w" "?W \<le> wn_hi w - q" | "q \<le> wn_hi w" "wn_hi w - q < ?W" by linarith
  then show ?thesis
  proof cases
    case 1
    define bs where "bs = (if q - wn_hi w > ?W then replicate (?W div 64) 0 else bit_clear_range (wn_bits w) (wn_hi w + 1) q)"
    have r: "rc = CLREPLAY_OK" "w' = w\<lparr>wn_bits := mark bs, wn_hi := q\<rparr>"
      using assms(2) 1 by (auto simp: win_admit_def Let_def bs_def mark_def b_def)
    have l: "length bs = ?W div 64" using clear_range_bits [OF T(2)] by (simp add: bs_def)
    have v: "win_verdict T q = CLREPLAY_OK" using 1 top [of q] T(3) by (auto simp: win_verdict_def)
    have "Max (insert 0 (insert q T)) = q"
      using 1 T by (intro Max_eqI) (auto dest: top)
    moreover have "win_bit (mark bs) p \<longleftrightarrow> p \<in> insert q T" if p: "p \<le> q" "q < p + ?W" for p
    proof -
      have sq: "p mod ?W = b \<longleftrightarrow> p = q" using near_same [of p q ?W] p by (auto simp: b_def)
      have "win_bit bs p \<longleftrightarrow> p \<in> T" if "p \<noteq> q"
      proof (cases "q - wn_hi w > ?W")
        case True
        then have "p \<notin> T" using top [of p] p by auto
        then show ?thesis using True replay_index by (simp add: bs_def win_bit_def)
      next
        case False
        have c: "win_bit bs p \<longleftrightarrow> \<not> (\<exists>r. wn_hi w + 1 \<le> r \<and> r < q \<and> p mod ?W = r mod ?W) \<and> win_bit (wn_bits w) p"
          using False clear_range_bits [OF T(2), of "wn_hi w + 1" q p] by (simp add: bs_def)
        show ?thesis
        proof (cases "p \<le> wn_hi w")
          case True
          have "p = r" if "wn_hi w + 1 \<le> r" "r < q" "p mod ?W = r mod ?W" for r
            using near_same [of p r ?W] that True p by simp
          then have "\<not> (\<exists>r. wn_hi w + 1 \<le> r \<and> r < q \<and> p mod ?W = r mod ?W)" using True by (metis Suc_eq_plus1 not_less_eq_eq)
          then show ?thesis using c bits [of p] True p 1 by simp
        next
          case False
          then have "wn_hi w + 1 \<le> p" "p < q" using p \<open>p \<noteq> q\<close> by simp_all
          then show ?thesis using c top [of p] False by blast
        qed
      qed
      then show ?thesis using set(1) [OF l, of p] sq by auto
    qed
    ultimately show ?thesis using r v T(1) set(2) [OF l] by (simp add: win_ok_def)
  next
    case 2
    then have "rc = CLREPLAY_OLD" "w' = w" using assms(2) by (auto simp: win_admit_def Let_def)
    then show ?thesis using 2 assms(1) T(3) by (simp add: win_verdict_def)
  next
    case 3
    have t: "wn_bits w ! (b div 64) AND push_bit (b mod 64) 1 \<noteq> 0 \<longleftrightarrow> q \<in> T"
      using bit_test [of "wn_bits w ! (b div 64)" "b mod 64"] bits [of q] 3 by (simp add: win_bit_def b_def)
    have v: "win_verdict T q = (if q \<in> T then CLREPLAY_DUP else CLREPLAY_OK)" using 3 T(3) by (simp add: win_verdict_def)
    show ?thesis
    proof (cases "q \<in> T")
      case True
      then have "rc = CLREPLAY_DUP" "w' = w" using assms(2) 3 t by (auto simp: win_admit_def Let_def b_def)
      then show ?thesis using v True assms(1) by simp
    next
      case False
      then have r: "rc = CLREPLAY_OK" "w' = w\<lparr>wn_bits := mark (wn_bits w)\<rparr>"
        using assms(2) 3 t by (auto simp: win_admit_def Let_def b_def mark_def)
      have "Max (insert 0 (insert q T)) = wn_hi w" using 3 T by (subst insert_commute) (simp add: max_def)
      moreover have "win_bit (mark (wn_bits w)) p \<longleftrightarrow> p \<in> insert q T" if p: "p \<le> wn_hi w" "wn_hi w < p + ?W" for p
      proof -
        have "p mod ?W = b \<longleftrightarrow> p = q"
        proof (cases "p \<le> q")
          case True
          then show ?thesis using near_same [of p q ?W] p 3 by (auto simp: b_def)
        next
          case False
          then have "q \<le> p" "p < q + ?W" using p 3 by linarith+
          then show ?thesis using near_same [of q p ?W] by (auto simp: b_def)
        qed
        then show ?thesis using set(1) [OF T(2), of p] bits [OF p] by auto
      qed
      ultimately show ?thesis using r v False T(1) set(2) [OF T(2)] by (simp add: win_ok_def)
    qed
  qed
qed

definition taken :: "(nat \<times> clreplay_rc) list \<Rightarrow> nat set" where
  "taken rs = {q. (q, CLREPLAY_OK) \<in> set rs}"

lemma win_run_ok:
  "win_ok w T \<Longrightarrow> win_run w qs = (rs, w') \<Longrightarrow> win_ok w' (T \<union> taken rs)"
proof (induction qs arbitrary: w T rs)
  case Nil
  then show ?case by (simp add: taken_def)
next
  case (Cons q qs)
  obtain rc w1 where a: "win_admit w q = (rc, w1)" by fastforce
  obtain rs1 where r: "win_run w1 qs = (rs1, w')" "rs = (q, rc) # rs1" using Cons.prems(2) a by (auto split: prod.splits)
  have "win_ok w1 (if rc = CLREPLAY_OK then insert q T else T)" using win_admit_ok [OF Cons.prems(1) a] by blast
  from Cons.IH [OF this r(1)] have "win_ok w' ((if rc = CLREPLAY_OK then insert q T else T) \<union> taken rs1)" .
  moreover have "(if rc = CLREPLAY_OK then insert q T else T) \<union> taken rs1 = T \<union> taken rs"
    using r(2) by (auto simp: taken_def)
  ultimately show ?case by simp
qed

section \<open>The table of senders\<close>

text \<open>Every slot before a sender's own on its path of probes is held by another sender.\<close>

definition sender_inv :: "sender list \<Rightarrow> bool" where
  "sender_inv tab \<longleftrightarrow> length tab = CLREPLAY_SENDERS \<and> (\<forall>s \<in> set tab. length (sd_w s) = CLREPLAY_STREAMS) \<and>
     (\<forall>j < CLREPLAY_SENDERS. sd_key (tab ! j) \<noteq> 0 \<longrightarrow>
        (\<exists>i < CLREPLAY_SENDERS. sender_slot (sd_key (tab ! j)) i = j \<and>
           (\<forall>k < i. sd_key (tab ! sender_slot (sd_key (tab ! j)) k) \<noteq> 0 \<and> sd_key (tab ! sender_slot (sd_key (tab ! j)) k) \<noteq> sd_key (tab ! j))))"

lemma slot_range: "sender_slot key i < CLREPLAY_SENDERS"
  by (simp add: sender_slot_def CLREPLAY_SENDERS_def)

lemma claim_here:
  "sd_key (tab ! sender_slot key i) = 0 \<Longrightarrow>
    claim_from tab key (i # is) = (Some (sender_slot key i), tab[sender_slot key i := (tab ! sender_slot key i)\<lparr>sd_key := key\<rparr>])"
  by (simp add: Let_def)

lemma sender_from_spec:
  assumes "k \<le> CLREPLAY_SENDERS" "sender_from tab key [k..<CLREPLAY_SENDERS] = (js, tab')"
  shows "(js = None \<and> tab' = tab \<and> (\<forall>i. k \<le> i \<and> i < CLREPLAY_SENDERS \<longrightarrow> sd_key (tab ! sender_slot key i) \<notin> {0, key})) \<or>
    (\<exists>i. k \<le> i \<and> i < CLREPLAY_SENDERS \<and> js = Some (sender_slot key i) \<and>
       (\<forall>m. k \<le> m \<and> m < i \<longrightarrow> sd_key (tab ! sender_slot key m) \<notin> {0, key}) \<and>
       (sd_key (tab ! sender_slot key i) = key \<and> tab' = tab \<or>
        sd_key (tab ! sender_slot key i) \<noteq> key \<and> sd_key (tab ! sender_slot key i) = 0 \<and>
          tab' = tab[sender_slot key i := (tab ! sender_slot key i)\<lparr>sd_key := key\<rparr>]))"
  using assms
proof (induction "CLREPLAY_SENDERS - k" arbitrary: k)
  case 0
  then show ?case by auto
next
  case (Suc n)
  then have k: "k < CLREPLAY_SENDERS" by simp
  define sk where "sk = sd_key (tab ! sender_slot key k)"
  have u: "[k..<CLREPLAY_SENDERS] = k # [Suc k..<CLREPLAY_SENDERS]" using k by (rule upt_conv_Cons)
  consider "sk = key" | "sk \<noteq> key" "sk = 0" | "sk \<noteq> key" "sk \<noteq> 0" by blast
  then show ?case
  proof cases
    case 1
    then have "js = Some (sender_slot key k)" "tab' = tab" using Suc.prems(2) unfolding u by (simp_all add: Let_def sk_def)
    then show ?thesis using 1 k unfolding sk_def by (intro disjI2 exI [of _ k]) auto
  next
    case 2
    then have "(js, tab') = claim_from tab key (k # [Suc k..<CLREPLAY_SENDERS])"
      using Suc.prems(2) unfolding u by (simp add: Let_def sk_def del: claim_from.simps)
    then have "js = Some (sender_slot key k)" "tab' = tab[sender_slot key k := (tab ! sender_slot key k)\<lparr>sd_key := key\<rparr>]"
      using claim_here [of tab key k] 2(2) unfolding sk_def by simp_all
    then show ?thesis using 2 k unfolding sk_def by (intro disjI2 exI [of _ k]) auto
  next
    case 3
    then have r: "sender_from tab key [Suc k..<CLREPLAY_SENDERS] = (js, tab')" using Suc.prems(2) unfolding u by (simp add: Let_def sk_def)
    have "n = CLREPLAY_SENDERS - Suc k" "Suc k \<le> CLREPLAY_SENDERS" using Suc.hyps(2) k by simp_all
    note ih = Suc.hyps(1) [OF this r]
    have step: "k \<le> m \<longleftrightarrow> m = k \<or> Suc k \<le> m" for m by auto
    have here: "sd_key (tab ! sender_slot key k) \<notin> {0, key}" using 3 by (simp add: sk_def)
    from ih show ?thesis
    proof (elim disjE exE conjE)
      assume "js = None" "tab' = tab" "\<forall>i. Suc k \<le> i \<and> i < CLREPLAY_SENDERS \<longrightarrow> sd_key (tab ! sender_slot key i) \<notin> {0, key}"
      then show ?thesis using here step by (intro disjI1) metis
    next
      fix i assume "Suc k \<le> i" "i < CLREPLAY_SENDERS" "js = Some (sender_slot key i)"
        "\<forall>m. Suc k \<le> m \<and> m < i \<longrightarrow> sd_key (tab ! sender_slot key m) \<notin> {0, key}"
        "sd_key (tab ! sender_slot key i) = key" "tab' = tab"
      then show ?thesis using here step by (intro disjI2 exI [of _ i]) (metis Suc_leD)
    next
      fix i assume "Suc k \<le> i" "i < CLREPLAY_SENDERS" "js = Some (sender_slot key i)"
        "\<forall>m. Suc k \<le> m \<and> m < i \<longrightarrow> sd_key (tab ! sender_slot key m) \<notin> {0, key}"
        "sd_key (tab ! sender_slot key i) \<noteq> key" "sd_key (tab ! sender_slot key i) = 0"
        "tab' = tab[sender_slot key i := (tab ! sender_slot key i)\<lparr>sd_key := key\<rparr>]"
      then show ?thesis using here step by (intro disjI2 exI [of _ i]) (metis Suc_leD)
    qed
  qed
qed

lemma key_nonzero: "sender_key ip port \<noteq> 0"
proof -
  have "bit (sender_key ip port) 48" by (simp add: sender_key_def bit_or_iff bit_push_bit_iff)
  then show ?thesis by auto
qed

lemma key_bit: "bit (sender_key ip port) m \<longleftrightarrow> m = 48 \<or> (16 \<le> m \<and> m < 64 \<and> bit ip (m - 16)) \<or> bit port m"
proof -
  have "bit (push_bit 48 1 :: u64) m \<longleftrightarrow> m = 48" by (rule one_bit) simp
  moreover have "bit (push_bit 16 (ucast ip) :: u64) m \<longleftrightarrow> 16 \<le> m \<and> m < 64 \<and> bit ip (m - 16)"
    by (subst bit_push_bit_iff) (auto simp: bit_ucast_iff)
  moreover have "bit (ucast port :: u64) m \<longleftrightarrow> bit port m" using bit_imp_le_length [of port m] by (auto simp: bit_ucast_iff)
  ultimately show ?thesis unfolding sender_key_def bit_or_iff by blast
qed

lemma key_bits:
  "n < 16 \<Longrightarrow> bit (sender_key ip port) n \<longleftrightarrow> bit port n"
  "n < 32 \<Longrightarrow> bit (sender_key ip port) (n + 16) \<longleftrightarrow> bit ip n"
  using bit_imp_le_length [of port "n + 16"] unfolding key_bit by auto

lemma key_inj: "sender_key ip port = sender_key ip' port' \<longleftrightarrow> ip = ip' \<and> port = port'"
proof
  assume e: "sender_key ip port = sender_key ip' port'"
  have "bit ip n = bit ip' n" if "n < 32" for n using key_bits(2) [OF that] e by metis
  moreover have "bit port n = bit port' n" if "n < 16" for n using key_bits(1) [OF that] e by metis
  ultimately show "ip = ip' \<and> port = port'" by (auto intro: bit_word_eqI)
qed simp

lemma sender_unique:
  assumes "sender_inv tab" "j < CLREPLAY_SENDERS" "j' < CLREPLAY_SENDERS" "sd_key (tab ! j) = sd_key (tab ! j')" "sd_key (tab ! j) \<noteq> 0"
  shows "j = j'"
proof -
  let ?k = "sd_key (tab ! j)"
  obtain i where i: "sender_slot ?k i = j" "\<forall>k < i. sd_key (tab ! sender_slot ?k k) \<noteq> ?k"
    using assms(1,2,5) unfolding sender_inv_def by blast
  obtain i' where i': "sender_slot ?k i' = j'" "\<forall>k < i'. sd_key (tab ! sender_slot ?k k) \<noteq> ?k"
    using assms(1,3,4,5) unfolding sender_inv_def by metis
  have "i = i'" using i i' assms(4) by (metis linorder_neqE_nat)
  then show ?thesis using i(1) i'(1) by simp
qed

lemma sender_of_spec:
  assumes "sender_inv tab" "sender_of tab ip port = (js, tab')"
  shows "sender_inv tab' \<and> (case js of
      None \<Rightarrow> tab' = tab
    | Some j \<Rightarrow> j < CLREPLAY_SENDERS \<and> tab' = tab[j := (tab ! j)\<lparr>sd_key := sender_key ip port\<rparr>] \<and>
        (\<forall>i < CLREPLAY_SENDERS. sd_key (tab ! i) = sender_key ip port \<longrightarrow> i = j) \<and>
        (sd_key (tab ! j) \<noteq> 0 \<longrightarrow> sd_key (tab ! j) = sender_key ip port))"
proof -
  let ?k = "sender_key ip port"
  have l: "length tab = CLREPLAY_SENDERS" using assms(1) by (simp add: sender_inv_def)
  from sender_from_spec [of 0 tab ?k js tab'] assms(2)
  have "(js = None \<and> tab' = tab) \<or> (\<exists>i < CLREPLAY_SENDERS. js = Some (sender_slot ?k i) \<and>
       (\<forall>m < i. sd_key (tab ! sender_slot ?k m) \<notin> {0, ?k}) \<and>
       (sd_key (tab ! sender_slot ?k i) = ?k \<and> tab' = tab \<or>
        sd_key (tab ! sender_slot ?k i) = 0 \<and> tab' = tab[sender_slot ?k i := (tab ! sender_slot ?k i)\<lparr>sd_key := ?k\<rparr>]))"
    unfolding sender_of_def by auto
  then show ?thesis
  proof (elim disjE exE conjE)
    assume "js = None" "tab' = tab"
    then show ?thesis using assms(1) by simp
  next
    fix i assume i: "i < CLREPLAY_SENDERS" "js = Some (sender_slot ?k i)" "\<forall>m < i. sd_key (tab ! sender_slot ?k m) \<notin> {0, ?k}"
      "sd_key (tab ! sender_slot ?k i) = ?k" "tab' = tab"
    have "(tab ! sender_slot ?k i)\<lparr>sd_key := ?k\<rparr> = tab ! sender_slot ?k i" using i(4) by (cases "tab ! sender_slot ?k i") simp
    then have "tab[sender_slot ?k i := (tab ! sender_slot ?k i)\<lparr>sd_key := ?k\<rparr>] = tab" by (simp add: list_update_id)
    moreover have "m = sender_slot ?k i" if "m < CLREPLAY_SENDERS" "sd_key (tab ! m) = ?k" for m
      using sender_unique [OF assms(1) that(1) slot_range] that(2) i(4) key_nonzero by simp
    ultimately show ?thesis using i(2,4,5) assms(1) slot_range by simp
  next
    fix i assume i: "i < CLREPLAY_SENDERS" "js = Some (sender_slot ?k i)" "\<forall>m < i. sd_key (tab ! sender_slot ?k m) \<notin> {0, ?k}"
      "sd_key (tab ! sender_slot ?k i) = 0" "tab' = tab[sender_slot ?k i := (tab ! sender_slot ?k i)\<lparr>sd_key := ?k\<rparr>]"
    let ?j = "sender_slot ?k i"
    have j: "?j < length tab" using slot_range l by simp
    have key: "sd_key (tab' ! m) = (if m = ?j then ?k else sd_key (tab ! m))" for m using i(5) j by simp
    have none: "sd_key (tab ! m) \<noteq> ?k" if m: "m < CLREPLAY_SENDERS" for m
    proof
      assume e: "sd_key (tab ! m) = ?k"
      then obtain n where n: "sender_slot ?k n = m" "\<forall>k < n. sd_key (tab ! sender_slot ?k k) \<noteq> 0"
        using assms(1) m key_nonzero [of ip port] unfolding sender_inv_def by metis
      have "\<not> i < n" using n(2) i(4) by blast
      moreover have "\<not> n < i" using i(3) n(1) e by auto
      ultimately show False using n(1) e i(4) key_nonzero [of ip port] by (metis linorder_neqE_nat)
    qed
    have "sender_inv tab'"
      unfolding sender_inv_def
    proof (intro conjI allI impI)
      show "length tab' = CLREPLAY_SENDERS" using i(5) l by simp
      show "\<forall>s \<in> set tab'. length (sd_w s) = CLREPLAY_STREAMS"
        using assms(1) i(5) j set_update_subset_insert [of tab ?j "(tab ! ?j)\<lparr>sd_key := ?k\<rparr>"] nth_mem [OF j] by (auto simp: sender_inv_def)
    next
      fix m assume m: "m < CLREPLAY_SENDERS" "sd_key (tab' ! m) \<noteq> 0"
      let ?P = "\<lambda>t. \<exists>n < CLREPLAY_SENDERS. sender_slot (sd_key (t ! m)) n = m \<and>
           (\<forall>k < n. sd_key (t ! sender_slot (sd_key (t ! m)) k) \<noteq> 0 \<and> sd_key (t ! sender_slot (sd_key (t ! m)) k) \<noteq> sd_key (t ! m))"
      show "?P tab'"
      proof (cases "m = ?j")
        case True
        have "sd_key (tab' ! sender_slot ?k k) \<noteq> 0 \<and> sd_key (tab' ! sender_slot ?k k) \<noteq> ?k" if "k < i" for k
        proof -
          have a: "sd_key (tab ! sender_slot ?k k) \<notin> {0, ?k}" using i(3) that by blast
          then have "sender_slot ?k k \<noteq> ?j" using i(4) by auto
          then show ?thesis using a key by auto
        qed
        then show ?thesis using i(1) True key [of m] by (intro exI [of _ i]) simp
      next
        case False
        then have km: "sd_key (tab' ! m) = sd_key (tab ! m)" using key by simp
        then obtain n where n: "n < CLREPLAY_SENDERS" "sender_slot (sd_key (tab ! m)) n = m"
          "\<forall>k < n. sd_key (tab ! sender_slot (sd_key (tab ! m)) k) \<noteq> 0 \<and> sd_key (tab ! sender_slot (sd_key (tab ! m)) k) \<noteq> sd_key (tab ! m)"
          using assms(1) m unfolding sender_inv_def by metis
        have "sd_key (tab' ! q) \<noteq> 0 \<and> sd_key (tab' ! q) \<noteq> sd_key (tab ! m)" if "sd_key (tab ! q) \<noteq> 0 \<and> sd_key (tab ! q) \<noteq> sd_key (tab ! m)" for q
          using that key [of q] i(4) by (cases "q = ?j") auto
        then show ?thesis using n unfolding km by blast
      qed
    qed
    then show ?thesis using i(2,4,5) none slot_range by auto
  qed
qed

section \<open>An admission\<close>

definition win_next :: "bool \<Rightarrow> bool \<Rightarrow> clwire_id \<Rightarrow> win option \<Rightarrow> clreplay_rc \<times> win option" where
  "win_next mem lower fid ow =
    (case (case ow of Some w \<Rightarrow> Some w | None \<Rightarrow> if mem then Some (zero_win (id_incarn fid)) else None) of
       None \<Rightarrow> (CLREPLAY_FULL, ow)
     | Some w \<Rightarrow>
         if id_incarn fid < wn_incarn w \<and> \<not> lower then (CLREPLAY_INCARN, Some w)
         else case win_admit (if id_incarn fid \<noteq> wn_incarn w then zero_win (id_incarn fid) else w) (id_seq fid) of (rc, w) \<Rightarrow> (rc, Some w))"

definition ow_ok :: "win option \<Rightarrow> bool" where
  "ow_ok ow \<longleftrightarrow> (case ow of None \<Rightarrow> True | Some w \<Rightarrow> \<exists>T. win_ok w T)"

text \<open>No frame of this incarnation and number is taken any more.\<close>

definition shut :: "u64 \<Rightarrow> nat \<Rightarrow> win option \<Rightarrow> bool" where
  "shut X q ow \<longleftrightarrow> (case ow of None \<Rightarrow> False | Some w \<Rightarrow> X < wn_incarn w \<or> X = wn_incarn w \<and> fst (win_admit w q) \<noteq> CLREPLAY_OK)"

lemma verdict_mono: "finite T \<Longrightarrow> win_verdict T q \<noteq> CLREPLAY_OK \<Longrightarrow> win_verdict (insert p T) q \<noteq> CLREPLAY_OK"
proof -
  assume f: "finite T" and v: "win_verdict T q \<noteq> CLREPLAY_OK"
  have "Max (insert 0 T) \<le> Max (insert 0 (insert p T))" using f by (intro Max_mono) auto
  then show ?thesis using v by (auto simp: win_verdict_def split: if_splits)
qed

lemma win_admit_shuts:
  assumes "win_ok w T" "win_admit w p = (rc, w')"
  shows "\<exists>T. win_ok w' T" "fst (win_admit w q) \<noteq> CLREPLAY_OK \<Longrightarrow> fst (win_admit w' q) \<noteq> CLREPLAY_OK"
    "rc = CLREPLAY_OK \<Longrightarrow> fst (win_admit w' p) \<noteq> CLREPLAY_OK" "wn_incarn w' = wn_incarn w"
proof -
  define T' where "T' = (if rc = CLREPLAY_OK then insert p T else T)"
  have a: "win_ok w' T'" "wn_incarn w' = wn_incarn w" using win_admit_ok [OF assms] unfolding T'_def by blast+
  have v: "fst (win_admit w q) = win_verdict T q" "fst (win_admit w' q) = win_verdict T' q" for q
    using win_admit_ok [OF assms(1)] win_admit_ok [OF a(1)] by (metis prod.collapse)+
  show "\<exists>T. win_ok w' T" "wn_incarn w' = wn_incarn w" using a by blast+
  have "finite T" using assms(1) by (simp add: win_ok_def)
  then show "fst (win_admit w q) \<noteq> CLREPLAY_OK \<Longrightarrow> fst (win_admit w' q) \<noteq> CLREPLAY_OK"
    unfolding v T'_def using verdict_mono by auto
  show "rc = CLREPLAY_OK \<Longrightarrow> fst (win_admit w' p) \<noteq> CLREPLAY_OK" unfolding v T'_def by (simp add: win_verdict_def)
qed

lemma win_next_shut:
  assumes "ow_ok ow" "win_next mem lower fid ow = (rc, ow')"
  shows "ow_ok ow'" "shut X q ow \<Longrightarrow> \<not> lower \<Longrightarrow> shut X q ow'"
    "rc = CLREPLAY_OK \<Longrightarrow> shut (id_incarn fid) (id_seq fid) ow'"
    "rc = CLREPLAY_OK \<Longrightarrow> \<not> lower \<Longrightarrow> \<not> shut (id_incarn fid) (id_seq fid) ow"
proof -
  let ?base = "case ow of Some w \<Rightarrow> Some w | None \<Rightarrow> if mem then Some (zero_win (id_incarn fid)) else None"
  have "ow_ok ow' \<and> (shut X q ow \<and> \<not> lower \<longrightarrow> shut X q ow') \<and> (rc = CLREPLAY_OK \<longrightarrow> shut (id_incarn fid) (id_seq fid) ow') \<and>
    (rc = CLREPLAY_OK \<and> \<not> lower \<longrightarrow> \<not> shut (id_incarn fid) (id_seq fid) ow)"
  proof (cases ?base)
    case None
    then show ?thesis using assms by (auto simp: win_next_def)
  next
    case (Some w)
    obtain T where T: "win_ok w T" using assms(1) Some zero_win_ok by (auto simp: ow_ok_def split: option.splits if_splits)
    have sh: "shut X q ow \<Longrightarrow> shut X q (Some w)" for X q using Some by (auto simp: shut_def split: option.splits)
    show ?thesis
    proof (cases "id_incarn fid < wn_incarn w \<and> \<not> lower")
      case True
      then have "rc = CLREPLAY_INCARN" "ow' = Some w" using assms(2) Some by (simp_all add: win_next_def)
      then show ?thesis using T sh by (auto simp: ow_ok_def)
    next
      case False
      define w0 where "w0 = (if id_incarn fid \<noteq> wn_incarn w then zero_win (id_incarn fid) else w)"
      obtain w1 where w1: "win_admit w0 (id_seq fid) = (rc, w1)" "ow' = Some w1"
        using assms(2) Some False by (auto simp: win_next_def w0_def split: prod.splits)
      have "win_ok w0 (if id_incarn fid \<noteq> wn_incarn w then {} else T)" using T zero_win_ok by (simp add: w0_def)
      then obtain T0 where T0: "win_ok w0 T0" by blast
      have i0: "wn_incarn w0 = id_incarn fid" by (simp add: w0_def zero_win_def)
      note e = win_admit_shuts [OF T0 w1(1)]
      have "shut X q ow \<and> \<not> lower \<longrightarrow> shut X q ow'"
      proof
        assume a: "shut X q ow \<and> \<not> lower"
        then have s: "X < wn_incarn w \<or> X = wn_incarn w \<and> fst (win_admit w q) \<noteq> CLREPLAY_OK" using sh by (auto simp: shut_def)
        show "shut X q ow'"
        proof (cases "id_incarn fid = wn_incarn w")
          case True
          then show ?thesis using s e(2,4) w1(2) i0 by (auto simp: shut_def w0_def)
        next
          case n: False
          then have "wn_incarn w < id_incarn fid" using False a by auto
          then show ?thesis using s e(4) w1(2) i0 by (auto simp: shut_def)
        qed
      qed
      moreover have "rc = CLREPLAY_OK \<longrightarrow> shut (id_incarn fid) (id_seq fid) ow'" using e(3,4) w1(2) i0 by (auto simp: shut_def)
      moreover have "rc = CLREPLAY_OK \<and> \<not> lower \<longrightarrow> \<not> shut (id_incarn fid) (id_seq fid) ow"
        using False w1(1) sh [of "id_incarn fid" "id_seq fid"] by (auto simp: shut_def w0_def)
      ultimately show ?thesis using e(1) w1(2) by (simp add: ow_ok_def)
    qed
  qed
  then show "ow_ok ow'" "shut X q ow \<Longrightarrow> \<not> lower \<Longrightarrow> shut X q ow'"
    "rc = CLREPLAY_OK \<Longrightarrow> shut (id_incarn fid) (id_seq fid) ow'"
    "rc = CLREPLAY_OK \<Longrightarrow> \<not> lower \<Longrightarrow> \<not> shut (id_incarn fid) (id_seq fid) ow" by blast+
qed


lemma admit_stream_effect:
  assumes "j < length (rp_tab r)" "admit_stream mem r j lower fid now = (rc, r')"
  shows "\<exists>s' ow'. win_next mem lower fid (sd_w (rp_tab r ! j) ! unat (id_stream fid)) = (rc, ow') \<and> rp_tab r' = (rp_tab r)[j := s'] \<and>
    sd_key s' = sd_key (rp_tab r ! j) \<and> sd_w s' = (sd_w (rp_tab r ! j))[unat (id_stream fid) := ow']"
proof -
  define st where "st = unat (id_stream fid)"
  define s where "s = rp_tab r ! j"
  define ow where "ow = sd_w s ! st"
  let ?base = "case ow of Some w \<Rightarrow> Some w | None \<Rightarrow> if mem then Some (zero_win (id_incarn fid)) else None"
  show ?thesis
    unfolding st_def [symmetric] s_def [symmetric] ow_def [symmetric]
  proof (cases ?base)
    case None
    have "sd_w s = (sd_w s)[st := ow]" "rp_tab r = (rp_tab r)[j := s]" by (simp_all only: ow_def s_def list_update_id)
    moreover have "rc = CLREPLAY_FULL" "rp_tab r' = rp_tab r"
      using assms(2) None unfolding admit_stream_def Let_def st_def [symmetric] s_def [symmetric] ow_def [symmetric]
      by (auto simp: counted_def)
    moreover have "win_next mem lower fid ow = (CLREPLAY_FULL, ow)" using None by (simp add: win_next_def)
    ultimately show "\<exists>s' ow'. win_next mem lower fid ow = (rc, ow') \<and> rp_tab r' = (rp_tab r)[j := s'] \<and>
      sd_key s' = sd_key s \<and> sd_w s' = (sd_w s)[st := ow']" by metis
  next
    case (Some w)
    note eq = assms(2) [unfolded admit_stream_def Let_def, folded st_def s_def, folded ow_def]
    show "\<exists>s' ow'. win_next mem lower fid ow = (rc, ow') \<and> rp_tab r' = (rp_tab r)[j := s'] \<and>
      sd_key s' = sd_key s \<and> sd_w s' = (sd_w s)[st := ow']"
    proof (cases "id_incarn fid < wn_incarn w \<and> \<not> lower")
      case True
      then have ne: "id_incarn fid \<noteq> wn_incarn w" by auto
      have "rc = CLREPLAY_INCARN" "rp_tab r' = (rp_tab r)[j := s\<lparr>sd_w := (sd_w s)[st := Some w]\<rparr>]"
        using eq True ne by (auto simp: counted_def Some)
      moreover have "win_next mem lower fid ow = (CLREPLAY_INCARN, Some w)" using Some True by (simp add: win_next_def)
      ultimately show ?thesis by (intro exI [of _ "s\<lparr>sd_w := (sd_w s)[st := Some w]\<rparr>"] exI [of _ "Some w"]) simp
    next
      case False
      define w0 where "w0 = (if id_incarn fid \<noteq> wn_incarn w then zero_win (id_incarn fid) else w)"
      obtain rc1 w1 where w1: "win_admit w0 (id_seq fid) = (rc1, w1)" by fastforce
      have n: "win_next mem lower fid ow = (rc1, Some w1)" 
        by (simp only: win_next_def Some option.case False if_False w0_def [symmetric] w1 prod.case)
      let ?s = "s\<lparr>sd_w := (sd_w s)[st := Some w1]\<rparr>"
      have c: "\<not> (id_incarn fid \<noteq> wn_incarn w \<and> id_incarn fid < wn_incarn w \<and> \<not> lower)" using False by blast
      note eq1 = eq [unfolded Some option.case if_not_P [OF c], folded w0_def, unfolded w1 prod.case]
      have "rc = rc1" using eq1 by (simp add: counted_def split: if_splits)
      moreover have "rp_tab r' = (rp_tab r)[j := ?s] \<or> rp_tab r' = (rp_tab r)[j := ?s\<lparr>sd_seen := now\<rparr>]"
        using eq1 by (cases "rc1 = CLREPLAY_OK"; cases "1000 \<le> now - sd_seen s") (auto simp: counted_def)
      moreover have "sd_key ?s = sd_key s" "sd_key (?s\<lparr>sd_seen := now\<rparr>) = sd_key s"
        "sd_w ?s = (sd_w s)[st := Some w1]" "sd_w (?s\<lparr>sd_seen := now\<rparr>) = (sd_w s)[st := Some w1]" by simp_all
      ultimately show ?thesis using n by metis
    qed
  qed
qed

lemma sender_inv_update:
  assumes "sender_inv tab" "j < CLREPLAY_SENDERS" "sd_key s = sd_key (tab ! j)" "length (sd_w s) = CLREPLAY_STREAMS"
  shows "sender_inv (tab[j := s])"
proof -
  have l: "length tab = CLREPLAY_SENDERS" using assms(1) by (simp add: sender_inv_def)
  have k: "sd_key (tab[j := s] ! m) = sd_key (tab ! m)" for m using assms(2,3) l by (cases "m = j") auto
  have "\<forall>s' \<in> set (tab[j := s]). length (sd_w s') = CLREPLAY_STREAMS"
    using assms(1,4) set_update_subset_insert [of tab j s] by (auto simp: sender_inv_def)
  then show ?thesis using assms(1) l unfolding sender_inv_def k by simp
qed

text \<open>An admission either refuses the frame and leaves every window as it was, or is a step of the window
  of the frame's sender and stream and of no other.\<close>

definition admit_at :: "bool \<Rightarrow> bool \<Rightarrow> clwire_id \<Rightarrow> sender list \<Rightarrow> clreplay_rc \<Rightarrow> sender list \<Rightarrow> nat \<Rightarrow> win option \<Rightarrow> bool" where
  "admit_at mem lower fid tab rc tab' j ow' \<longleftrightarrow>
    (let st = unat (id_stream fid); key = sender_key (id_ip fid) (id_port fid) in
     j < CLREPLAY_SENDERS \<and> st < CLREPLAY_STREAMS \<and> sd_key (tab' ! j) = key \<and>
     (\<forall>i < CLREPLAY_SENDERS. sd_key (tab ! i) = key \<longrightarrow> i = j) \<and>
     win_next mem lower fid (sd_w (tab ! j) ! st) = (rc, ow') \<and> sd_w (tab' ! j) = (sd_w (tab ! j))[st := ow'] \<and>
     (\<forall>m. m \<noteq> j \<longrightarrow> tab' ! m = tab ! m) \<and> (sd_key (tab ! j) \<noteq> 0 \<longrightarrow> sd_key (tab ! j) = key))"

definition admit_refused :: "sender list \<Rightarrow> clreplay_rc \<Rightarrow> sender list \<Rightarrow> bool" where
  "admit_refused tab rc tab' \<longleftrightarrow> rc \<noteq> CLREPLAY_OK \<and>
    (\<forall>m < CLREPLAY_SENDERS. sd_w (tab' ! m) = sd_w (tab ! m) \<and> (sd_key (tab ! m) \<noteq> 0 \<longrightarrow> sd_key (tab' ! m) = sd_key (tab ! m)))"


lemma admit_stream_at:
  assumes "sender_inv (rp_tab r)" "j < CLREPLAY_SENDERS" "unat (id_stream fid) < CLREPLAY_STREAMS"
    "rp_tab r1 = (rp_tab r)[j := s1]" "sd_key s1 = sender_key (id_ip fid) (id_port fid)" "sd_w s1 = sd_w (rp_tab r ! j)"
    "sender_inv (rp_tab r1)" "\<forall>i < CLREPLAY_SENDERS. sd_key (rp_tab r ! i) = sender_key (id_ip fid) (id_port fid) \<longrightarrow> i = j"
    "sd_key (rp_tab r ! j) \<noteq> 0 \<longrightarrow> sd_key (rp_tab r ! j) = sender_key (id_ip fid) (id_port fid)"
    "admit_stream mem r1 j lower fid now = (rc, r')"
  shows "sender_inv (rp_tab r') \<and> (\<exists>ow'. admit_at mem lower fid (rp_tab r) rc (rp_tab r') j ow')"
proof -
  have l: "length (rp_tab r) = CLREPLAY_SENDERS" "length (rp_tab r1) = CLREPLAY_SENDERS"
    using assms(1,7) by (simp_all add: sender_inv_def)
  have n: "rp_tab r1 ! j = s1" using assms(2,4) l(1) by simp
  have j1: "j < length (rp_tab r1)" using l(2) assms(2) by simp
  obtain s' ow' where e: "win_next mem lower fid (sd_w s1 ! unat (id_stream fid)) = (rc, ow')" "rp_tab r' = (rp_tab r1)[j := s']"
    "sd_key s' = sd_key s1" "sd_w s' = (sd_w s1)[unat (id_stream fid) := ow']"
    using admit_stream_effect [OF j1 assms(10)] unfolding n by blast
  have "length (sd_w s1) = CLREPLAY_STREAMS" using assms(7) nth_mem [OF j1] n by (auto simp: sender_inv_def)
  then have "length (sd_w s') = CLREPLAY_STREAMS" unfolding e(4) by simp
  moreover have "sd_key s' = sd_key (rp_tab r1 ! j)" unfolding n by (rule e(3))
  ultimately have "sender_inv (rp_tab r')" unfolding e(2) by (intro sender_inv_update [OF assms(7,2)])
  moreover have s': "rp_tab r' ! j = s'" unfolding e(2) using j1 by simp
  have o: "\<forall>m. m \<noteq> j \<longrightarrow> rp_tab r' ! m = rp_tab r ! m" unfolding e(2) assms(4) by simp
  have k: "sd_key (rp_tab r' ! j) = sender_key (id_ip fid) (id_port fid)" unfolding s' e(3) by (rule assms(5))
  have w: "sd_w (rp_tab r' ! j) = (sd_w (rp_tab r ! j))[unat (id_stream fid) := ow']" unfolding s' e(4) assms(6) by (rule refl)
  have "admit_at mem lower fid (rp_tab r) rc (rp_tab r') j ow'"
    unfolding admit_at_def Let_def by (intro conjI assms(2,3,8,9) k w o e(1) [unfolded assms(6)])
  ultimately show ?thesis by (intro conjI exI)
qed

lemma admit_effect:
  assumes "sender_inv (rp_tab r)" "clreplay_admit mem r fid now = (rc, r')"
  shows "sender_inv (rp_tab r') \<and> (admit_refused (rp_tab r) rc (rp_tab r') \<or>
    (\<exists>j ow'. admit_at mem (gives_way r fid now) fid (rp_tab r) rc (rp_tab r') j ow'))"
proof -
  let ?k = "sender_key (id_ip fid) (id_port fid)"
  obtain js tab1 where so: "sender_of (rp_tab r) (id_ip fid) (id_port fid) = (js, tab1)" by fastforce
  have sp: "sender_inv tab1" and spc: "case js of None \<Rightarrow> tab1 = rp_tab r
    | Some j \<Rightarrow> j < CLREPLAY_SENDERS \<and> tab1 = (rp_tab r)[j := (rp_tab r ! j)\<lparr>sd_key := ?k\<rparr>] \<and>
        (\<forall>i < CLREPLAY_SENDERS. sd_key (rp_tab r ! i) = ?k \<longrightarrow> i = j) \<and> (sd_key (rp_tab r ! j) \<noteq> 0 \<longrightarrow> sd_key (rp_tab r ! j) = ?k)"
    using sender_of_spec [OF assms(1) so] by blast+
  have l: "length (rp_tab r) = CLREPLAY_SENDERS" using assms(1) by (simp add: sender_inv_def)
  have same: "sd_w (tab1 ! m) = sd_w (rp_tab r ! m)" "sd_key (rp_tab r ! m) \<noteq> 0 \<Longrightarrow> sd_key (tab1 ! m) = sd_key (rp_tab r ! m)" for m
  proof -
    have "sd_w (tab1 ! m) = sd_w (rp_tab r ! m) \<and> (sd_key (rp_tab r ! m) \<noteq> 0 \<longrightarrow> sd_key (tab1 ! m) = sd_key (rp_tab r ! m))"
    proof (cases js)
      case (Some j)
      then show ?thesis using spc l by (cases "m = j") auto
    qed (use spc in simp)
    then show "sd_w (tab1 ! m) = sd_w (rp_tab r ! m)" "sd_key (rp_tab r ! m) \<noteq> 0 \<Longrightarrow> sd_key (tab1 ! m) = sd_key (rp_tab r ! m)"
      by blast+
  qed
  have ref: ?thesis if "rc \<noteq> CLREPLAY_OK" "rp_tab r' = tab1"
    using that sp same unfolding admit_refused_def by simp
  note eq = assms(2) [unfolded clreplay_admit_def so]
  show ?thesis
  proof (cases js)
    case None
    then show ?thesis using eq by (intro ref) (auto simp: counted_def)
  next
    case (Some j)
    note sj = spc [unfolded Some option.case]
    show ?thesis
    proof (cases "unat (id_stream fid) \<ge> CLREPLAY_STREAMS \<or> id_incarn fid < sd_incarn (tab1 ! j) \<and> now - sd_seen (tab1 ! j) < CLREPLAY_STALE_MS")
      case True
      then have "rc = CLREPLAY_FULL \<or> rc = CLREPLAY_INCARN" "rp_tab r' = tab1"
        using eq by (auto simp: Some Let_def counted_def split: if_splits)
      then show ?thesis by (intro ref) auto
    next
      case False
      have gw: "gives_way r fid now \<longleftrightarrow> id_incarn fid < sd_incarn (tab1 ! j)"
        using False so Some by (auto simp: gives_way_def)
      define i1 where "i1 = (if gives_way r fid now then id_incarn fid
        else if id_incarn fid > sd_incarn (tab1 ! j) then id_incarn fid else sd_incarn (tab1 ! j))"
      define r1 where "r1 = r\<lparr>rp_tab := tab1[j := (tab1 ! j)\<lparr>sd_incarn := i1\<rparr>]\<rparr>"
      have st: "admit_stream mem r1 j (gives_way r fid now) fid now = (rc, r')"
        using eq False unfolding r1_def i1_def gw by (cases "id_incarn fid < sd_incarn (tab1 ! j)") (simp_all add: Some Let_def)
      have t1: "tab1 ! j = (rp_tab r ! j)\<lparr>sd_key := ?k\<rparr>" using sj l by simp
      let ?s1 = "(rp_tab r ! j)\<lparr>sd_key := ?k, sd_incarn := i1\<rparr>"
      have r1: "rp_tab r1 = (rp_tab r)[j := ?s1]" unfolding r1_def t1 using sj by simp
      have j: "j < CLREPLAY_SENDERS" and u: "\<forall>i < CLREPLAY_SENDERS. sd_key (rp_tab r ! i) = ?k \<longrightarrow> i = j"
        and z: "sd_key (rp_tab r ! j) \<noteq> 0 \<longrightarrow> sd_key (rp_tab r ! j) = ?k" using sj by blast+
      have "length tab1 = CLREPLAY_SENDERS" using sp by (simp add: sender_inv_def)
      then have "tab1 ! j \<in> set tab1" using j by simp
      then have "length (sd_w (tab1 ! j)) = CLREPLAY_STREAMS" using sp by (simp add: sender_inv_def)
      then have i1: "sender_inv (rp_tab r1)" unfolding r1_def by (simp add: sender_inv_update [OF sp j])
      have "\<not> CLREPLAY_STREAMS \<le> unat (id_stream fid)" using False by blast
      then have lt: "unat (id_stream fid) < CLREPLAY_STREAMS" by (simp only: not_le)
      have s1: "sd_key ?s1 = ?k" "sd_w ?s1 = sd_w (rp_tab r ! j)" by simp_all
      have "sender_inv (rp_tab r') \<and> (\<exists>ow'. admit_at mem (gives_way r fid now) fid (rp_tab r) rc (rp_tab r') j ow')"
        by (rule admit_stream_at [OF assms(1) j lt r1 s1 i1 u z st])
      then show ?thesis by (intro conjI disjI2 exI [of _ j]) (erule conjunct1, erule conjunct2)
    qed
  qed
qed


section \<open>A frame is taken once\<close>

definition replay_inv :: "clreplay \<Rightarrow> bool" where
  "replay_inv r \<longleftrightarrow> sender_inv (rp_tab r) \<and> (\<forall>m < CLREPLAY_SENDERS. \<forall>st < CLREPLAY_STREAMS. ow_ok (sd_w (rp_tab r ! m) ! st))"

definition blocked :: "clreplay \<Rightarrow> clwire_id \<Rightarrow> bool" where
  "blocked r x \<longleftrightarrow> unat (id_stream x) < CLREPLAY_STREAMS \<and>
    (\<exists>j < CLREPLAY_SENDERS. sd_key (rp_tab r ! j) = sender_key (id_ip x) (id_port x) \<and>
       shut (id_incarn x) (id_seq x) (sd_w (rp_tab r ! j) ! unat (id_stream x)))"

lemma replay_inv_start: "replay_inv clreplay_start"
  by (simp add: replay_inv_def sender_inv_def clreplay_start_def ow_ok_def)

lemma blockedI:
  assumes "unat (id_stream x) < CLREPLAY_STREAMS" "j < CLREPLAY_SENDERS"
    "sd_key (rp_tab r ! j) = sender_key (id_ip x) (id_port x)" "shut (id_incarn x) (id_seq x) (sd_w (rp_tab r ! j) ! unat (id_stream x))"
  shows "blocked r x"
  unfolding blocked_def using assms by blast

lemma tab_stream_length: "sender_inv tab \<Longrightarrow> j < CLREPLAY_SENDERS \<Longrightarrow> length (sd_w (tab ! j)) = CLREPLAY_STREAMS"
  by (simp add: sender_inv_def)

lemma refused_step:
  assumes "replay_inv r" "sender_inv (rp_tab r')" "admit_refused (rp_tab r) rc (rp_tab r')"
  shows "replay_inv r'" "blocked r x \<Longrightarrow> blocked r' x"
proof -
  have w: "sd_w (rp_tab r' ! m) = sd_w (rp_tab r ! m)" "sd_key (rp_tab r ! m) \<noteq> 0 \<longrightarrow> sd_key (rp_tab r' ! m) = sd_key (rp_tab r ! m)"
    if "m < CLREPLAY_SENDERS" for m using assms(3) that unfolding admit_refused_def by blast+
  show "replay_inv r'" using assms(1,2) w(1) unfolding replay_inv_def by simp
  show "blocked r' x" if b: "blocked r x"
  proof -
    obtain j where j: "j < CLREPLAY_SENDERS" "sd_key (rp_tab r ! j) = sender_key (id_ip x) (id_port x)"
      "shut (id_incarn x) (id_seq x) (sd_w (rp_tab r ! j) ! unat (id_stream x))" "unat (id_stream x) < CLREPLAY_STREAMS"
      using b unfolding blocked_def by blast
    have "sd_key (rp_tab r' ! j) = sender_key (id_ip x) (id_port x)" using w(2) [OF j(1)] j(2) key_nonzero by simp
    moreover have "shut (id_incarn x) (id_seq x) (sd_w (rp_tab r' ! j) ! unat (id_stream x))" unfolding w(1) [OF j(1)] by (rule j(3))
    ultimately show ?thesis by (rule blockedI [OF j(4,1)])
  qed
qed

lemma admitted_step:
  assumes "replay_inv r" "sender_inv (rp_tab r')" "admit_at mem lower fid (rp_tab r) rc (rp_tab r') j ow'"
  shows "replay_inv r'"
    "blocked r x \<Longrightarrow> blocked r' x \<or> lower \<and> id_ip fid = id_ip x \<and> id_port fid = id_port x"
    "rc = CLREPLAY_OK \<Longrightarrow> blocked r' fid" "rc = CLREPLAY_OK \<Longrightarrow> blocked r fid \<Longrightarrow> lower"
proof -
  define st where "st = unat (id_stream fid)"
  note at = assms(3) [unfolded admit_at_def Let_def, folded st_def]
  have j: "j < CLREPLAY_SENDERS" and st: "st < CLREPLAY_STREAMS"
    and k': "sd_key (rp_tab r' ! j) = sender_key (id_ip fid) (id_port fid)"
    and u: "\<And>i. i < CLREPLAY_SENDERS \<Longrightarrow> sd_key (rp_tab r ! i) = sender_key (id_ip fid) (id_port fid) \<Longrightarrow> i = j"
    and wn: "win_next mem lower fid (sd_w (rp_tab r ! j) ! st) = (rc, ow')"
    and w: "sd_w (rp_tab r' ! j) = (sd_w (rp_tab r ! j))[st := ow']"
    and o: "\<And>m. m \<noteq> j \<Longrightarrow> rp_tab r' ! m = rp_tab r ! m"
    and z: "sd_key (rp_tab r ! j) \<noteq> 0 \<Longrightarrow> sd_key (rp_tab r ! j) = sender_key (id_ip fid) (id_port fid)"
    using at by blast+
  have ti: "sender_inv (rp_tab r)" using assms(1) by (simp add: replay_inv_def)
  have ok: "ow_ok (sd_w (rp_tab r ! m) ! t)" if "m < CLREPLAY_SENDERS" "t < CLREPLAY_STREAMS" for m t
    using assms(1) that unfolding replay_inv_def by blast
  note ns = win_next_shut [OF ok [OF j st] wn]
  have l: "length (sd_w (rp_tab r ! j)) = CLREPLAY_STREAMS" by (rule tab_stream_length [OF ti j])
  have w': "sd_w (rp_tab r' ! j) ! t = (if t = st then ow' else sd_w (rp_tab r ! j) ! t)" for t
    unfolding w using l st by simp
  have "ow_ok (sd_w (rp_tab r' ! m) ! t)" if "m < CLREPLAY_SENDERS" "t < CLREPLAY_STREAMS" for m t
    using that ok [OF that] ns(1) w' [of t] o [of m] by (cases "m = j"; cases "t = st") simp_all
  then show "replay_inv r'" unfolding replay_inv_def using assms(2) by blast
  show "blocked r' fid" if "rc = CLREPLAY_OK"
    by (rule blockedI [of fid j]) (use st j k' w' [of st] ns(3) [OF that] in \<open>simp_all add: st_def\<close>)
  show "lower" if rc: "rc = CLREPLAY_OK" and b: "blocked r fid"
  proof (rule ccontr)
    assume n: "\<not> lower"
    obtain i where i: "i < CLREPLAY_SENDERS" "sd_key (rp_tab r ! i) = sender_key (id_ip fid) (id_port fid)"
      "shut (id_incarn fid) (id_seq fid) (sd_w (rp_tab r ! i) ! st)" using b unfolding blocked_def st_def by blast
    have "i = j" using u i(1,2) by blast
    then show False using ns(4) [OF rc n] i(3) by simp
  qed
  show "blocked r' x \<or> lower \<and> id_ip fid = id_ip x \<and> id_port fid = id_port x" if b: "blocked r x"
  proof (rule disjCI)
    assume nl: "\<not> (lower \<and> id_ip fid = id_ip x \<and> id_port fid = id_port x)"
    obtain i where i: "i < CLREPLAY_SENDERS" "sd_key (rp_tab r ! i) = sender_key (id_ip x) (id_port x)"
      "shut (id_incarn x) (id_seq x) (sd_w (rp_tab r ! i) ! unat (id_stream x))" "unat (id_stream x) < CLREPLAY_STREAMS"
      using b unfolding blocked_def by blast
    have "shut (id_incarn x) (id_seq x) (sd_w (rp_tab r' ! i) ! unat (id_stream x)) \<and> sd_key (rp_tab r' ! i) = sender_key (id_ip x) (id_port x)"
    proof (cases "i = j")
      case False
      then show ?thesis unfolding o [OF False] using i(2,3) by blast
    next
      case True
      have kk: "sender_key (id_ip fid) (id_port fid) = sender_key (id_ip x) (id_port x)" using z i(2) True key_nonzero by simp
      then have "\<not> lower" using nl key_inj by blast
      then show ?thesis using True k' kk w' [of "unat (id_stream x)"] i(3) ns(2) by (cases "unat (id_stream x) = st") simp_all
    qed
    then show "blocked r' x" using blockedI [OF i(4,1)] by blast
  qed
qed

lemma admit_step:
  assumes "replay_inv r" "clreplay_admit mem r fid now = (rc, r')"
  shows "replay_inv r'"
    "blocked r x \<Longrightarrow> blocked r' x \<or> gives_way r fid now \<and> id_ip fid = id_ip x \<and> id_port fid = id_port x"
    "rc = CLREPLAY_OK \<Longrightarrow> blocked r' fid" "rc = CLREPLAY_OK \<Longrightarrow> blocked r fid \<Longrightarrow> gives_way r fid now"
proof -
  have ti: "sender_inv (rp_tab r)" using assms(1) by (simp add: replay_inv_def)
  have e: "sender_inv (rp_tab r')" "admit_refused (rp_tab r) rc (rp_tab r') \<or>
    (\<exists>j ow'. admit_at mem (gives_way r fid now) fid (rp_tab r) rc (rp_tab r') j ow')" using admit_effect [OF ti assms(2)] by blast+
  consider (ref) "admit_refused (rp_tab r) rc (rp_tab r')" "rc \<noteq> CLREPLAY_OK"
    | (adm) j ow' where "admit_at mem (gives_way r fid now) fid (rp_tab r) rc (rp_tab r') j ow'"
    using e(2) unfolding admit_refused_def by blast
  note c = this
  show "replay_inv r'" by (cases rule: c) (rule refused_step(1) [OF assms(1) e(1)] admitted_step(1) [OF assms(1) e(1)], assumption)+
  show "blocked r x \<Longrightarrow> blocked r' x \<or> gives_way r fid now \<and> id_ip fid = id_ip x \<and> id_port fid = id_port x"
    by (cases rule: c) (blast dest: refused_step(2) [OF assms(1) e(1)], rule admitted_step(2) [OF assms(1) e(1)])
  show "rc = CLREPLAY_OK \<Longrightarrow> blocked r' fid"
    by (cases rule: c) (blast, rule admitted_step(3) [OF assms(1) e(1)])
  show "rc = CLREPLAY_OK \<Longrightarrow> blocked r fid \<Longrightarrow> gives_way r fid now"
    by (cases rule: c) (blast, rule admitted_step(4) [OF assms(1) e(1)])
qed

text \<open>How often a frame was taken, and how often its sender was let back to an older incarnation.\<close>

definition times_taken :: "clwire_id \<Rightarrow> (clwire_id \<times> clreplay_rc \<times> bool) list \<Rightarrow> nat" where
  "times_taken x log = length (filter (\<lambda>(fid, rc, back). fid = x \<and> rc = CLREPLAY_OK) log)"

definition times_back :: "clwire_id \<Rightarrow> (clwire_id \<times> clreplay_rc \<times> bool) list \<Rightarrow> nat" where
  "times_back x log = length (filter (\<lambda>(fid, rc, back). back \<and> id_ip fid = id_ip x \<and> id_port fid = id_port x) log)"

lemma times_Cons:
  "times_taken x ((fid, rc, back) # log) = of_bool (fid = x \<and> rc = CLREPLAY_OK) + times_taken x log"
  "times_back x ((fid, rc, back) # log) = of_bool (back \<and> id_ip fid = id_ip x \<and> id_port fid = id_port x) + times_back x log"
  by (simp_all add: times_taken_def times_back_def)

lemma run_taken:
  "replay_inv r \<Longrightarrow> times_taken x (admit_run r es) + of_bool (blocked r x) \<le> 1 + times_back x (admit_run r es)"
proof (induction r es rule: admit_run.induct)
  case (1 r)
  show ?case by (simp add: times_taken_def times_back_def)
next
  case (2 r mem fid now es)
  obtain rc r' where a: "clreplay_admit mem r fid now = (rc, r')" by fastforce
  note st = admit_step [OF "2.prems" a]
  have ih: "times_taken x (admit_run r' es) + of_bool (blocked r' x) \<le> 1 + times_back x (admit_run r' es)"
    by (rule "2.IH" [OF a [symmetric] st(1)])
  have run: "admit_run r ((mem, fid, now) # es) = (fid, rc, gives_way r fid now) # admit_run r' es" using a by simp
  define tk where "tk \<longleftrightarrow> fid = x \<and> rc = CLREPLAY_OK"
  define gw where "gw \<longleftrightarrow> gives_way r fid now \<and> id_ip fid = id_ip x \<and> id_port fid = id_port x"
  have "tk \<Longrightarrow> blocked r' x" "tk \<Longrightarrow> blocked r x \<Longrightarrow> gw" "blocked r x \<Longrightarrow> blocked r' x \<or> gw"
    using st(2-4) unfolding tk_def gw_def by blast+
  then show ?case using ih unfolding run times_Cons tk_def [symmetric] gw_def [symmetric]
    by (cases tk; cases gw; cases "blocked r x"; cases "blocked r' x") simp_all
qed


text \<open>C20: The window of a stream is an exact record of what it took: after any sequence of numbers offered to a
  new window, the bitmap of \<open>CLREPLAY_WIN\<close> bits answers the next number as the set of the numbers taken so
  far does, namely too old when it lies a whole window below the highest, a duplicate when it is in the
  set, and taken otherwise.\<close>

theorem window_exact:
  "fst (win_admit (snd (win_run (zero_win incarn) qs)) q) = win_verdict (taken (fst (win_run (zero_win incarn) qs))) q"
proof -
  obtain rs w where r: "win_run (zero_win incarn) qs = (rs, w)" by fastforce
  obtain rc w' where a: "win_admit w q = (rc, w')" by fastforce
  have "win_ok w (taken rs)" using win_run_ok [OF zero_win_ok r] by simp
  from win_admit_ok [OF this a] have "rc = win_verdict (taken rs) q" by blast
  then show ?thesis using r a by simp
qed

end
