(* ===== verification/Pcglob.thy ===== *)
theory Pcglob
  imports Prelude
begin

text \<open>
  The key glob (\<open>src/src/pcglob.c\<close>): the matcher with one backtrack point, over byte strings with lengths,
  against a pattern language defined by tokens.  A pattern position is an index.  C leaves open whether
  \<open>char\<close> is signed, which the comparison of a range depends on, so it is a parameter.  The loop is a
  partial function, and the theorem says that it returns.
\<close>

section \<open>The matcher\<close>

abbreviation ch_star :: u8 where "ch_star \<equiv> 42"
abbreviation ch_any :: u8 where "ch_any \<equiv> 63"
abbreviation ch_open :: u8 where "ch_open \<equiv> 91"
abbreviation ch_close :: u8 where "ch_close \<equiv> 93"
abbreviation ch_caret :: u8 where "ch_caret \<equiv> 94"
abbreviation ch_bang :: u8 where "ch_bang \<equiv> 33"
abbreviation ch_esc :: u8 where "ch_esc \<equiv> 92"
abbreviation ch_dash :: u8 where "ch_dash \<equiv> 45"

definition char_val :: "bool \<Rightarrow> u8 \<Rightarrow> int" where
  "char_val sg c = (if sg then sint c else uint c)"

text \<open>The body of a class, from \<open>j\<close> on: where it ends, and whether the byte was in it.\<close>

function class_scan :: "bool \<Rightarrow> bytes \<Rightarrow> u8 \<Rightarrow> nat \<Rightarrow> nat \<Rightarrow> bool \<Rightarrow> nat \<times> bool" where
  "class_scan sg p c first j matched =
    (if j < length p \<and> (p ! j \<noteq> ch_close \<or> j = first) then
       let k = (if p ! j = ch_esc \<and> j + 1 < length p then j + 1 else j); lo = p ! k in
       if k + 2 < length p \<and> p ! (k + 1) = ch_dash \<and> p ! (k + 2) \<noteq> ch_close
       then class_scan sg p c first (k + 3)
         (if char_val sg c \<ge> char_val sg lo \<and> char_val sg c \<le> char_val sg (p ! (k + 2)) then True else matched)
       else class_scan sg p c first (k + 1) (if c = lo then True else matched)
     else (j, matched))"
  by pat_completeness auto
termination by (relation "measure (\<lambda>(sg, p, c, first, j, matched). length p - j)") (auto simp: Let_def)

declare class_scan.simps [simp del]

text \<open>What the pattern at \<open>pi\<close> says of the byte \<open>c\<close>.\<close>

datatype glob_move = MStar | MAdvance nat | MUnterminated | MMismatch

definition glob_one :: "bool \<Rightarrow> bytes \<Rightarrow> u8 \<Rightarrow> nat \<Rightarrow> glob_move" where
  "glob_one sg p c pi =
    (if pi < length p then
       let pc = p ! pi in
       if pc = ch_star then MStar
       else if pc = ch_any then MAdvance (pi + 1)
       else if pc = ch_open then
         let neg = (pi + 1 < length p \<and> (p ! (pi + 1) = ch_caret \<or> p ! (pi + 1) = ch_bang));
             j = (if neg then pi + 2 else pi + 1) in
         (case class_scan sg p c j j False of (j, matched) \<Rightarrow>
            if j \<ge> length p then MUnterminated
            else if matched \<noteq> neg then MAdvance (j + 1) else MMismatch)
       else if pc = ch_esc \<and> pi + 1 < length p then
         (if p ! (pi + 1) = c then MAdvance (pi + 2) else MMismatch)
       else if pc = c then MAdvance (pi + 1) else MMismatch
     else MMismatch)"

function glob_tail :: "bytes \<Rightarrow> nat \<Rightarrow> nat" where
  "glob_tail p pi = (if pi < length p \<and> p ! pi = ch_star then glob_tail p (pi + 1) else pi)"
  by pat_completeness auto
termination by (relation "measure (\<lambda>(p, pi). length p - pi)") auto

declare glob_tail.simps [simp del]

partial_function (option) glob_loop :: "bool \<Rightarrow> bytes \<Rightarrow> bytes \<Rightarrow> nat \<Rightarrow> nat \<Rightarrow> nat option \<Rightarrow> nat \<Rightarrow> bool option" where
  "glob_loop sg p s pi si star_p star_s =
    (if si < length s then
       (case glob_one sg p (s ! si) pi of
          MStar \<Rightarrow> glob_loop sg p s (pi + 1) si (Some (pi + 1)) si
        | MAdvance pi' \<Rightarrow> glob_loop sg p s pi' (si + 1) star_p star_s
        | MUnterminated \<Rightarrow> Some False
        | MMismatch \<Rightarrow>
            (case star_p of
               None \<Rightarrow> Some False
             | Some sp \<Rightarrow> glob_loop sg p s sp (star_s + 1) (Some sp) (star_s + 1)))
     else Some (glob_tail p pi = length p))"

definition pc_glob :: "bool \<Rightarrow> bytes \<Rightarrow> bytes \<Rightarrow> bool option" where
  "pc_glob sg p s = glob_loop sg p s 0 0 None 0"

definition pc_glob_match :: "bool \<Rightarrow> bytes \<Rightarrow> bytes \<Rightarrow> bool option" where
  "pc_glob_match sg p s = pc_glob sg p s"

section \<open>The pattern language\<close>

datatype class_item = Single u8 | Range u8 u8

datatype token = TStar | TAny | TLit u8 | TClass bool "class_item list" | TNothing

text \<open>The items of a class up to its closing bracket, which does not close it in the first place.\<close>

fun class_items :: "bool \<Rightarrow> bytes \<Rightarrow> (class_item list \<times> bytes) option" where
  "class_items first [] = None"
| "class_items first (x # xs) =
    (if x = ch_close \<and> \<not> first then Some ([], xs)
     else
       let lo = (if x = ch_esc \<and> xs \<noteq> [] then hd xs else x); r = (if x = ch_esc \<and> xs \<noteq> [] then tl xs else xs) in
       if 2 \<le> length r \<and> r ! 0 = ch_dash \<and> r ! 1 \<noteq> ch_close
       then map_option (apfst ((#) (Range lo (r ! 1)))) (class_items False (drop 2 r))
       else map_option (apfst ((#) (Single lo))) (class_items False r))"

lemma class_items_shorter: "class_items first xs = Some (it, r) \<Longrightarrow> length r < length xs"
proof (induction first xs arbitrary: it r rule: class_items.induct)
  case (2 first x xs)
  show ?case
  proof (cases "x = ch_close \<and> \<not> first")
    case True
    then show ?thesis using "2.prems" by simp
  next
    case False
    define lo where "lo = (if x = ch_esc \<and> xs \<noteq> [] then hd xs else x)"
    define t where "t = (if x = ch_esc \<and> xs \<noteq> [] then tl xs else xs)"
    have t: "length t \<le> length xs" by (simp add: t_def)
    show ?thesis
    proof (cases "2 \<le> length t \<and> t ! 0 = ch_dash \<and> t ! 1 \<noteq> ch_close")
      case True
      then obtain it' where "class_items False (drop 2 t) = Some (it', r)"
        using "2.prems" False by (auto simp: Let_def lo_def [symmetric] t_def [symmetric])
      from "2.IH"(1) [OF False lo_def t_def True this] show ?thesis using t by simp
    next
      case n: False
      have "class_items first (x # xs) = map_option (apfst ((#) (Single lo))) (class_items False t)"
        by (simp only: class_items.simps Let_def lo_def [symmetric] t_def [symmetric] False n if_False)
      then obtain it' where "class_items False t = Some (it', r)" using "2.prems" by auto
      from "2.IH"(2) [OF False lo_def t_def n this] show ?thesis using t by simp
    qed
  qed
qed simp

function tokens :: "bytes \<Rightarrow> token list" where
  "tokens [] = []"
| "tokens (x # xs) =
    (if x = ch_star then TStar # tokens xs
     else if x = ch_any then TAny # tokens xs
     else if x = ch_open then
       let neg = (xs \<noteq> [] \<and> (hd xs = ch_caret \<or> hd xs = ch_bang)) in
       (case class_items True (if neg then tl xs else xs) of
          None \<Rightarrow> [TNothing]
        | Some (it, r) \<Rightarrow> TClass neg it # tokens r)
     else if x = ch_esc \<and> xs \<noteq> [] then TLit (hd xs) # tokens (tl xs)
     else TLit x # tokens xs)"
  by pat_completeness auto
termination
proof (relation "measure length", goal_cases)
  case (4 x xs neg y it r)
  have "length (if neg then tl xs else xs) \<le> length xs" by simp
  then show ?case using class_items_shorter [of True "if neg then tl xs else xs" it r] 4 by simp
qed auto

declare tokens.simps(2) [simp del]

fun item_has :: "bool \<Rightarrow> u8 \<Rightarrow> class_item \<Rightarrow> bool" where
  "item_has sg c (Single lo) = (c = lo)"
| "item_has sg c (Range lo hi) = (char_val sg lo \<le> char_val sg c \<and> char_val sg c \<le> char_val sg hi)"

fun token_takes :: "bool \<Rightarrow> token \<Rightarrow> u8 \<Rightarrow> bool" where
  "token_takes sg TAny c = True"
| "token_takes sg (TLit x) c = (c = x)"
| "token_takes sg (TClass neg it) c = ((\<exists>i \<in> set it. item_has sg c i) \<noteq> neg)"
| "token_takes sg TStar c = False"
| "token_takes sg TNothing c = False"

text \<open>A star stands for any string, every other token for one byte.\<close>

fun matches :: "bool \<Rightarrow> token list \<Rightarrow> bytes \<Rightarrow> bool" where
  "matches sg [] s = (s = [])"
| "matches sg (t # ts) s =
    (if t = TStar then (\<exists>k \<in> set [0..<length s + 1]. matches sg ts (drop k s))
     else s \<noteq> [] \<and> token_takes sg t (hd s) \<and> matches sg ts (tl s))"


section \<open>A position of the pattern is a token\<close>

lemma class_scan_items:
  assumes "first \<le> j"
  shows "case class_items (j = first) (drop j p) of
      None \<Rightarrow> length p \<le> fst (class_scan sg p c first j m)
    | Some (it, r) \<Rightarrow> \<exists>e. class_scan sg p c first j m = (e, m \<or> (\<exists>i \<in> set it. item_has sg c i)) \<and> j \<le> e \<and> e < length p \<and> r = drop (e + 1) p"
  using assms
proof (induction sg p c first j m rule: class_scan.induct)
  case (1 sg p c first j m)
  show ?case
  proof (cases "j < length p")
    case False
    then show ?thesis by (subst (1 2) class_scan.simps) simp
  next
    case lt: True
    have d: "drop j p = p ! j # drop (j + 1) p" using lt by (simp add: Cons_nth_drop_Suc)
    show ?thesis
    proof (cases "p ! j \<noteq> ch_close \<or> j = first")
      case False
      have "class_scan sg p c first j m = (j, m)" by (subst class_scan.simps) (simp only: False simp_thms if_False)
      moreover have "class_items (j = first) (drop j p) = Some ([], drop (j + 1) p)" unfolding d using False by simp
      ultimately show ?thesis using lt by simp
    next
      case True
      define k where "k = (if p ! j = ch_esc \<and> j + 1 < length p then j + 1 else j)"
      have cond: "j < length p \<and> (p ! j \<noteq> ch_close \<or> j = first)" using lt True by blast
      have k: "j \<le> k" "k < length p" "k + 1 \<noteq> first" "k + 3 \<noteq> first" "first \<le> k + 1" "first \<le> k + 3" using lt "1.prems" by (auto simp: k_def)
      let ?xs = "drop (j + 1) p"
      have lo: "(if p ! j = ch_esc \<and> ?xs \<noteq> [] then hd ?xs else p ! j) = p ! k" by (auto simp: k_def hd_drop_conv_nth)
      have "tl ?xs = drop (j + 1 + 1) p" by (simp add: drop_Suc tl_drop)
      then have t: "(if p ! j = ch_esc \<and> ?xs \<noteq> [] then tl ?xs else ?xs) = drop (k + 1) p" by (simp add: k_def)
      let ?r = "k + 2 < length p \<and> p ! (k + 1) = ch_dash \<and> p ! (k + 2) \<noteq> ch_close"
      have rc: "2 \<le> length (drop (k + 1) p) \<and> drop (k + 1) p ! 0 = ch_dash \<and> drop (k + 1) p ! 1 \<noteq> ch_close \<longleftrightarrow> ?r"
        using k(2) by auto
      have nf: "\<not> (p ! j = ch_close \<and> \<not> j = first)" using True by blast
      note items = class_items.simps(2) [of "j = first" "p ! j" "drop (j + 1) p", unfolded Let_def lo t rc, folded d, unfolded if_not_P [OF nf]]
      note scan = class_scan.simps [of sg p c first j m, unfolded if_P [OF cond] Let_def, folded k_def]
      show ?thesis
      proof (cases ?r)
        case True
        let ?m = "if char_val sg c \<ge> char_val sg (p ! k) \<and> char_val sg c \<le> char_val sg (p ! (k + 2)) then True else m"
        have s: "class_scan sg p c first j m = class_scan sg p c first (k + 3) ?m" using scan unfolding if_P [OF True] .
        have "drop (k + 1) p ! 1 = p ! (k + 2)" "drop 2 (drop (k + 1) p) = drop (k + 3) p" using True by (simp_all add: numeral_eq_Suc)
        then have i: "class_items (j = first) (drop j p) = map_option (apfst ((#) (Range (p ! k) (p ! (k + 2))))) (class_items False (drop (k + 3) p))"
          using items unfolding if_P [OF True] by simp
        note ih = "1.IH"(1) [OF cond k_def refl True k(6)]
        show ?thesis
        proof (cases "class_items False (drop (k + 3) p)")
          case None
          then show ?thesis using ih k(4) unfolding s i by simp
        next
          case (Some a)
          then obtain it r where a: "class_items False (drop (k + 3) p) = Some (it, r)" by (cases a) simp
          then obtain e where e: "class_scan sg p c first (k + 3) ?m = (e, ?m \<or> (\<exists>i \<in> set it. item_has sg c i))" "k + 3 \<le> e" "e < length p" "r = drop (e + 1) p"
            using ih k(4) by auto
          have "(?m \<or> (\<exists>i \<in> set it. item_has sg c i)) = (m \<or> (\<exists>i \<in> set (Range (p ! k) (p ! (k + 2)) # it). item_has sg c i))" by auto
          then show ?thesis unfolding s i a e(1) using e(2-4) k(1) by simp
        qed
      next
        case False
        let ?m = "if c = p ! k then True else m"
        have s: "class_scan sg p c first j m = class_scan sg p c first (k + 1) ?m" using scan unfolding if_not_P [OF False] .
        have i: "class_items (j = first) (drop j p) = map_option (apfst ((#) (Single (p ! k)))) (class_items False (drop (k + 1) p))"
          using items unfolding if_not_P [OF False] .
        note ih = "1.IH"(2) [OF cond k_def refl False k(5)]
        show ?thesis
        proof (cases "class_items False (drop (k + 1) p)")
          case None
          then show ?thesis using ih k(3) unfolding s i by simp
        next
          case (Some a)
          then obtain it r where a: "class_items False (drop (k + 1) p) = Some (it, r)" by (cases a) simp
          then obtain e where e: "class_scan sg p c first (k + 1) ?m = (e, ?m \<or> (\<exists>i \<in> set it. item_has sg c i))" "k + 1 \<le> e" "e < length p" "r = drop (e + 1) p"
            using ih k(3) by auto
          have "(?m \<or> (\<exists>i \<in> set it. item_has sg c i)) = (m \<or> (\<exists>i \<in> set (Single (p ! k) # it). item_has sg c i))" by auto
          then show ?thesis unfolding s i a e(1) using e(2-4) k(1) by simp
        qed
      qed
    qed
  qed
qed


definition move_ok :: "bool \<Rightarrow> bytes \<Rightarrow> u8 \<Rightarrow> nat \<Rightarrow> glob_move \<Rightarrow> bool" where
  "move_ok sg p c pi mv \<longleftrightarrow>
    (case mv of
       MStar \<Rightarrow> pi < length p \<and> tokens (drop pi p) = TStar # tokens (drop (pi + 1) p)
     | MAdvance pi' \<Rightarrow> pi < pi' \<and> pi' \<le> length p \<and>
         (\<exists>t. t \<noteq> TStar \<and> token_takes sg t c \<and> tokens (drop pi p) = t # tokens (drop pi' p))
     | MUnterminated \<Rightarrow> tokens (drop pi p) = [TNothing]
     | MMismatch \<Rightarrow> tokens (drop pi p) = [] \<or> (\<exists>t ts. t \<noteq> TStar \<and> \<not> token_takes sg t c \<and> tokens (drop pi p) = t # ts))"

lemma class_move:
  assumes "pi < length p" "p ! pi = ch_open"
  shows "move_ok sg p c pi (glob_one sg p c pi)"
proof -
  define neg where "neg \<longleftrightarrow> pi + 1 < length p \<and> (p ! (pi + 1) = ch_caret \<or> p ! (pi + 1) = ch_bang)"
  define j where "j = (if neg then pi + 2 else pi + 1)"
  have j: "pi < j" by (simp add: j_def)
  let ?xs = "drop (pi + 1) p"
  have d: "drop pi p = ch_open # ?xs" using assms by (metis Cons_nth_drop_Suc Suc_eq_plus1)
  have n: "(?xs \<noteq> [] \<and> (hd ?xs = ch_caret \<or> hd ?xs = ch_bang)) = neg" by (auto simp: neg_def hd_drop_conv_nth)
  have "tl ?xs = drop (pi + 2) p" by (simp add: drop_Suc tl_drop numeral_2_eq_2)
  then have x: "(if neg then tl ?xs else ?xs) = drop j p" by (simp add: j_def)
  have tk: "tokens (drop pi p) = (case class_items True (drop j p) of None \<Rightarrow> [TNothing] | Some (it, r) \<Rightarrow> TClass neg it # tokens r)"
    unfolding d tokens.simps(2) Let_def n x by simp
  have g: "glob_one sg p c pi = (case class_scan sg p c j j False of (e, m) \<Rightarrow>
      if e \<ge> length p then MUnterminated else if m \<noteq> neg then MAdvance (e + 1) else MMismatch)"
    using assms unfolding glob_one_def Let_def neg_def [symmetric] j_def [symmetric] by simp
  note sc = class_scan_items [of j j p sg c False, simplified]
  show ?thesis
  proof (cases "class_items True (drop j p)")
    case None
    then have "glob_one sg p c pi = MUnterminated" using sc g by (auto split: prod.splits)
    then show ?thesis using tk None by (simp add: move_ok_def)
  next
    case (Some a)
    then obtain it r where a: "class_items True (drop j p) = Some (it, r)" by (cases a) simp
    then obtain e where e: "class_scan sg p c j j False = (e, \<exists>i \<in> set it. item_has sg c i)" "j \<le> e" "e < length p" "r = drop (e + 1) p"
      using sc by auto
    have tt: "tokens (drop pi p) = TClass neg it # tokens (drop (e + 1) p)" using tk a e(4) by simp
    have "glob_one sg p c pi = (if token_takes sg (TClass neg it) c then MAdvance (e + 1) else MMismatch)"
      unfolding g e(1) using e(3) by simp
    then show ?thesis using tt e(2,3) j by (auto simp: move_ok_def)
  qed
qed

lemma glob_one_token: "move_ok sg p c pi (glob_one sg p c pi)"
proof (cases "pi < length p")
  case False
  then show ?thesis by (simp add: glob_one_def move_ok_def)
next
  case lt: True
  show ?thesis
  proof (cases "p ! pi = ch_open")
    case True
    then show ?thesis by (rule class_move [OF lt])
  next
    case False
    let ?xs = "drop (pi + 1) p"
    have d: "drop pi p = p ! pi # ?xs" using lt by (simp add: Cons_nth_drop_Suc)
    have x: "?xs \<noteq> [] \<longleftrightarrow> pi + 1 < length p" "pi + 1 < length p \<Longrightarrow> hd ?xs = p ! (pi + 1)" by (auto simp: hd_drop_conv_nth)
    have t: "tl ?xs = drop (pi + 2) p" by (simp add: drop_Suc tl_drop numeral_2_eq_2)
    have tk: "tokens (drop pi p) = (if p ! pi = ch_star then TStar # tokens ?xs else if p ! pi = ch_any then TAny # tokens ?xs
      else if p ! pi = ch_esc \<and> pi + 1 < length p then TLit (p ! (pi + 1)) # tokens (drop (pi + 2) p) else TLit (p ! pi) # tokens ?xs)"
      unfolding d tokens.simps(2) using False x t by simp
    show ?thesis unfolding move_ok_def tk glob_one_def using lt False by (simp add: Let_def)
  qed
qed

section \<open>Strings and stars\<close>

lemma star_drop: "matches sg (TStar # ts) s \<longleftrightarrow> (\<exists>k \<le> length s. matches sg ts (drop k s))"
  by (simp add: Bex_def less_Suc_eq_le del: upt_Suc)

lemma star_step: "matches sg (TStar # ts) (drop n s) \<longleftrightarrow> matches sg ts (drop n s) \<or> matches sg (TStar # ts) (drop (n + 1) s)"
proof
  assume "matches sg (TStar # ts) (drop n s)"
  then obtain k where k: "k \<le> length (drop n s)" "matches sg ts (drop k (drop n s))" unfolding star_drop by blast
  show "matches sg ts (drop n s) \<or> matches sg (TStar # ts) (drop (n + 1) s)"
  proof (cases k)
    case (Suc i)
    then have "i \<le> length (drop (n + 1) s)" "matches sg ts (drop i (drop (n + 1) s))" using k by (simp_all add: add.commute)
    then show ?thesis unfolding star_drop by blast
  qed (use k in simp)
next
  assume "matches sg ts (drop n s) \<or> matches sg (TStar # ts) (drop (n + 1) s)"
  then show "matches sg (TStar # ts) (drop n s)"
  proof
    assume "matches sg ts (drop n s)"
    then show ?thesis unfolding star_drop by (intro exI [of _ 0]) simp
  next
    assume "matches sg (TStar # ts) (drop (n + 1) s)"
    then obtain k where k: "k \<le> length (drop (n + 1) s)" "matches sg ts (drop k (drop (n + 1) s))" unfolding star_drop by blast
    show ?thesis
    proof (cases "n < length s")
      case True
      then show ?thesis unfolding star_drop using k by (intro exI [of _ "Suc k"]) (simp add: add.commute)
    next
      case False
      then show ?thesis unfolding star_drop using k by (intro exI [of _ 0]) simp
    qed
  qed
qed

lemma star_longer: "matches sg (TStar # ts) (drop m s) \<Longrightarrow> n \<le> m \<Longrightarrow> matches sg (TStar # ts) (drop n s)"
proof (induction "m - n" arbitrary: n)
  case 0
  then have "m = n" by linarith
  then show ?case using 0 by blast
next
  case (Suc d)
  have "d = m - (n + 1)" "n + 1 \<le> m" using Suc.hyps(2) by linarith+
  then have "matches sg (TStar # ts) (drop (n + 1) s)" using Suc.hyps(1) Suc.prems(1) by blast
  then show ?case using star_step by blast
qed

lemma singles_take:
  "TStar \<notin> set seg \<Longrightarrow> matches sg (seg @ ts) s \<Longrightarrow> length seg \<le> length s \<and> matches sg ts (drop (length seg) s)"
proof (induction seg arbitrary: s)
  case (Cons t seg)
  then obtain c s' where "s = c # s'" "matches sg (seg @ ts) s'" by (cases s) auto
  then show ?case using Cons by simp
qed simp

lemma nothing_matches: "TNothing \<in> set ts \<Longrightarrow> \<not> matches sg ts s"
proof (induction ts arbitrary: s)
  case (Cons t ts)
  then show ?case by (cases "t = TNothing") auto
qed simp

lemma matches_empty: "matches sg ts [] \<longleftrightarrow> set ts \<subseteq> {TStar}"
  by (induction ts) auto

lemma glob_tail_stars: "pi \<le> length p \<Longrightarrow> glob_tail p pi = length p \<longleftrightarrow> set (tokens (drop pi p)) \<subseteq> {TStar}"
proof (induction p pi rule: glob_tail.induct)
  case (1 p pi)
  show ?case
  proof (cases "pi < length p")
    case False
    then show ?thesis using "1.prems" by (subst glob_tail.simps) simp
  next
    case lt: True
    have d: "drop pi p = p ! pi # drop (pi + 1) p" using lt by (simp add: Cons_nth_drop_Suc)
    show ?thesis
    proof (cases "p ! pi = ch_star")
      case True
      then show ?thesis using "1.IH" lt by (subst glob_tail.simps) (simp add: d tokens.simps(2))
    next
      case False
      have "\<exists>t \<in> set (tokens (drop pi p)). t \<noteq> TStar" unfolding d tokens.simps(2) using False
        by (auto simp: Let_def split: option.splits prod.splits)
      then show ?thesis using lt False by (subst glob_tail.simps) auto
    qed
  qed
qed


section \<open>The loop\<close>

text \<open>What the loop has still to decide: the rest of the pattern against the rest of the string, or the last star
  taking more.\<close>

definition glob_means :: "bool \<Rightarrow> bytes \<Rightarrow> bytes \<Rightarrow> nat \<Rightarrow> nat \<Rightarrow> nat option \<Rightarrow> nat \<Rightarrow> bool" where
  "glob_means sg p s pi si star_p star_s \<longleftrightarrow> matches sg (tokens (drop pi p)) (drop si s) \<or>
    (case star_p of None \<Rightarrow> False | Some sp \<Rightarrow> matches sg (TStar # tokens (drop sp p)) (drop (star_s + 1) s))"

definition glob_inv :: "bytes \<Rightarrow> bytes \<Rightarrow> nat \<Rightarrow> nat \<Rightarrow> nat option \<Rightarrow> nat \<Rightarrow> bool" where
  "glob_inv p s pi si star_p star_s \<longleftrightarrow> pi \<le> length p \<and> si \<le> length s \<and>
    (case star_p of
       None \<Rightarrow> True
     | Some sp \<Rightarrow> star_s \<le> si \<and> sp \<le> pi \<and>
         (\<exists>seg. TStar \<notin> set seg \<and> tokens (drop sp p) = seg @ tokens (drop pi p) \<and> star_s + length seg = si))"

definition glob_rank :: "bytes \<Rightarrow> bytes \<Rightarrow> nat \<times> nat option \<times> nat \<Rightarrow> nat \<times> nat \<times> nat" where
  "glob_rank p s = (\<lambda>(si, star_p, star_s).
    (case star_p of None \<Rightarrow> length p + 2 | Some sp \<Rightarrow> length p + 1 - sp, length s - star_s, length s - si))"

lemma past_star:
  assumes "glob_inv p s pi si (Some sp) star_s" "matches sg (TStar # tokens (drop sp p)) (drop (star_s + 1) s)"
  shows "\<exists>k \<ge> star_s + 1. matches sg (tokens (drop pi p)) (drop (k + (si - star_s)) s)"
proof -
  obtain seg where seg: "TStar \<notin> set seg" "tokens (drop sp p) = seg @ tokens (drop pi p)" "star_s + length seg = si"
    using assms(1) by (auto simp: glob_inv_def)
  obtain k where k: "k \<le> length (drop (star_s + 1) s)" "matches sg (seg @ tokens (drop pi p)) (drop k (drop (star_s + 1) s))"
    using assms(2) unfolding star_drop seg(2) by blast
  from singles_take [OF seg(1) k(2)] have "matches sg (tokens (drop pi p)) (drop (star_s + 1 + k + length seg) s)" by (simp add: add_ac)
  moreover have "length seg = si - star_s" using seg(3) by simp
  ultimately show ?thesis by (intro exI [of _ "star_s + 1 + k"]) simp
qed

lemma star_subsumes:
  assumes "glob_inv p s pi si (Some sp) star_s" "matches sg (TStar # tokens (drop sp p)) (drop (star_s + 1) s)"
    "tokens (drop pi p) = TStar # ts"
  shows "matches sg (TStar # ts) (drop si s)"
proof -
  obtain k where k: "k \<ge> star_s + 1" "matches sg (TStar # ts) (drop (k + (si - star_s)) s)"
    using past_star [OF assms(1,2)] unfolding assms(3) by blast
  have "star_s \<le> si" using assms(1) by (simp add: glob_inv_def)
  then have "si \<le> k + (si - star_s)" using k(1) by linarith
  then show ?thesis by (rule star_longer [OF k(2)])
qed

lemma end_of_string:
  assumes "glob_inv p s pi si star_p star_s" "\<not> si < length s"
  shows "glob_means sg p s pi si star_p star_s \<longleftrightarrow> glob_tail p pi = length p"
proof -
  have e: "si = length s" "pi \<le> length p" using assms by (auto simp: glob_inv_def)
  have t: "matches sg (tokens (drop pi p)) (drop si s) \<longleftrightarrow> glob_tail p pi = length p"
    using glob_tail_stars [OF e(2)] matches_empty e(1) by simp
  have "matches sg (tokens (drop pi p)) (drop si s)"
    if sp: "star_p = Some sp" and m: "matches sg (TStar # tokens (drop sp p)) (drop (star_s + 1) s)" for sp
  proof -
    have i: "glob_inv p s pi si (Some sp) star_s" using assms(1) sp by simp
    obtain k where k: "k \<ge> star_s + 1" "matches sg (tokens (drop pi p)) (drop (k + (si - star_s)) s)"
      using past_star [OF i m] by blast
    have "star_s \<le> si" using i by (simp add: glob_inv_def)
    then have "length s \<le> k + (si - star_s)" using k(1) e(1) by linarith
    then show ?thesis using k(2) e(1) by simp
  qed
  then show ?thesis using t unfolding glob_means_def by (auto split: option.splits)
qed

lemma glob_loop_correct:
  "glob_inv p s pi si star_p star_s \<Longrightarrow> glob_loop sg p s pi si star_p star_s = Some (glob_means sg p s pi si star_p star_s)"
proof (induction "(si, star_p, star_s)" arbitrary: pi si star_p star_s rule: wf_induct_rule [OF wf_inv_image [of "less_than <*lex*> less_than <*lex*> less_than" "glob_rank p s", OF wf_lex_prod [OF wf_less_than wf_lex_prod [OF wf_less_than wf_less_than]]]])
  case (1 si star_p star_s pi)
  have IH: "glob_loop sg p s pi' si' sp' ss' = Some (glob_means sg p s pi' si' sp' ss')"
    if "(glob_rank p s (si', sp', ss'), glob_rank p s (si, star_p, star_s)) \<in> less_than <*lex*> less_than <*lex*> less_than"
      "glob_inv p s pi' si' sp' ss'" for pi' si' sp' ss'
    using "1.hyps" [of si' sp' ss' pi'] that by (simp only: in_inv_image)
  note inv = "1.prems"
  show ?case
  proof (cases "si < length s")
    case False
    then show ?thesis using end_of_string [OF inv] by (subst glob_loop.simps) simp
  next
    case lt: True
    define c where "c = s ! si"
    have d: "drop si s = c # drop (si + 1) s" using lt by (simp add: c_def Cons_nth_drop_Suc)
    have mv: "move_ok sg p c pi (glob_one sg p c pi)" by (rule glob_one_token)
    note unf = glob_loop.simps [of sg p s pi si star_p star_s, unfolded if_P [OF lt], folded c_def]
    show ?thesis
    proof (cases "glob_one sg p c pi")
      case MStar
      then have tk: "pi < length p" "tokens (drop pi p) = TStar # tokens (drop (pi + 1) p)" using mv by (simp_all add: move_ok_def)
      have i: "glob_inv p s (pi + 1) si (Some (pi + 1)) si" using tk(1) lt by (simp add: glob_inv_def)
      have r: "(glob_rank p s (si, Some (pi + 1), si), glob_rank p s (si, star_p, star_s)) \<in> less_than <*lex*> less_than <*lex*> less_than"
        using tk(1) inv by (auto simp: glob_rank_def glob_inv_def split: option.splits)
      have "glob_means sg p s (pi + 1) si (Some (pi + 1)) si \<longleftrightarrow> matches sg (TStar # tokens (drop (pi + 1) p)) (drop si s)"
        unfolding glob_means_def option.case by (rule star_step [symmetric])
      moreover have "glob_means sg p s pi si star_p star_s \<longleftrightarrow> matches sg (TStar # tokens (drop (pi + 1) p)) (drop si s)"
      proof (cases star_p)
        case (Some sp)
        then have "glob_inv p s pi si (Some sp) star_s" using inv by simp
        from star_subsumes [OF this _ tk(2)] show ?thesis unfolding glob_means_def tk(2) Some option.case by blast
      qed (simp only: glob_means_def tk(2) option.case simp_thms)
      ultimately show ?thesis using unf IH [OF r i] MStar by (simp only: glob_move.case)
    next
      case (MAdvance pi')
      then obtain t where t: "pi < pi'" "pi' \<le> length p" "t \<noteq> TStar" "token_takes sg t c" "tokens (drop pi p) = t # tokens (drop pi' p)"
        using mv by (auto simp: move_ok_def)
      have i: "glob_inv p s pi' (si + 1) star_p star_s"
      proof (cases star_p)
        case None
        then show ?thesis using t(2) lt by (simp add: glob_inv_def)
      next
        case (Some sp)
        then obtain seg where seg: "TStar \<notin> set seg" "tokens (drop sp p) = seg @ tokens (drop pi p)" "star_s + length seg = si" "sp \<le> pi"
          using inv by (auto simp: glob_inv_def)
        have "TStar \<notin> set (seg @ [t]) \<and> tokens (drop sp p) = (seg @ [t]) @ tokens (drop pi' p) \<and> star_s + length (seg @ [t]) = si + 1"
          using seg(1-3) t(3,5) by simp
        then show ?thesis using Some seg(3,4) t(1,2) lt unfolding glob_inv_def by (auto intro!: exI [of _ "seg @ [t]"])
      qed
      have r: "(glob_rank p s (si + 1, star_p, star_s), glob_rank p s (si, star_p, star_s)) \<in> less_than <*lex*> less_than <*lex*> less_than"
        using lt by (auto simp: glob_rank_def)
      have "glob_means sg p s pi si star_p star_s = glob_means sg p s pi' (si + 1) star_p star_s"
        unfolding glob_means_def t(5) d using t(3,4) by simp
      then show ?thesis using unf IH [OF r i] MAdvance by (simp only: glob_move.case)
    next
      case MUnterminated
      then have t: "tokens (drop pi p) = [TNothing]" using mv by (simp add: move_ok_def)
      have "\<not> glob_means sg p s pi si star_p star_s"
      proof (cases star_p)
        case (Some sp)
        then obtain seg where "tokens (drop sp p) = seg @ [TNothing]" using inv t by (auto simp: glob_inv_def)
        then have "TNothing \<in> set (TStar # tokens (drop sp p))" by simp
        then show ?thesis using Some t nothing_matches unfolding glob_means_def by (simp del: matches.simps)
      qed (use t nothing_matches in \<open>simp add: glob_means_def\<close>)
      then show ?thesis using unf MUnterminated by simp
    next
      case MMismatch
      then have n: "\<not> matches sg (tokens (drop pi p)) (drop si s)" using mv unfolding d by (auto simp: move_ok_def)
      show ?thesis
      proof (cases star_p)
        case None
        then show ?thesis using unf MMismatch n by (simp add: glob_means_def)
      next
        case (Some sp)
        have b: "star_s \<le> si" "sp \<le> length p" using inv Some by (auto simp: glob_inv_def)
        have i: "glob_inv p s sp (star_s + 1) (Some sp) (star_s + 1)" using b lt by (simp add: glob_inv_def)
        have r: "(glob_rank p s (star_s + 1, Some sp, star_s + 1), glob_rank p s (si, star_p, star_s)) \<in> less_than <*lex*> less_than <*lex*> less_than"
          using b lt Some by (auto simp: glob_rank_def)
        have "glob_means sg p s sp (star_s + 1) (Some sp) (star_s + 1) \<longleftrightarrow> matches sg (TStar # tokens (drop sp p)) (drop (star_s + 1) s)"
          unfolding glob_means_def option.case by (rule star_step [symmetric])
        moreover have "glob_means sg p s pi si star_p star_s \<longleftrightarrow> matches sg (TStar # tokens (drop sp p)) (drop (star_s + 1) s)"
          unfolding glob_means_def Some option.case using n by blast
        ultimately show ?thesis using unf IH [OF r i] MMismatch Some by (simp only: glob_move.case option.case)
      qed
    qed
  qed
qed

text \<open>C21: The key glob always returns, and says exactly whether the string belongs to the pattern: a star stands for
  any string, a question mark for any byte, a class for the bytes of its items (ranges and escapes
  included, negated by a caret or an exclamation mark), an escaped byte and any other byte for itself,
  and a pattern with an unterminated class matches nothing.  One backtrack point, the last star, is
  therefore enough.\<close>

theorem glob_exact: "pc_glob sg p s = Some (matches sg (tokens p) s)"
  using glob_loop_correct [of p s 0 0 None 0 sg] by (simp add: pc_glob_def glob_inv_def glob_means_def)

end
