(* ===== verification/Spec2Isabelle.thy ===== *)
theory Spec2Isabelle
  imports Codec Clmap Clplace Lamport Keyhash Htable_Thms Clorder Clack Clackf Clterm Hashrec Slot Clpend_Thms Clreplay Pcglob
begin

text \<open>
  \<^bold>\<open>perfcached\<close>: a clustered in-memory cache daemon written in C.  This is the root of its verification
  library: it loads every theory and says what each one models and shows.  Paths are relative to
  \<open>src/src/\<close> of the repository.

  \<^bold>\<open>The program.\<close>  A node keeps its keys in a shared hash table (\<open>core/\<close>) whose readers take no lock
  and whose writers lock one chain.  Every write carries a version from a Lamport clock
  (\<open>compat/compat.c\<close>).  In a cluster, the map (\<open>clmap.c\<close>) names the members, the placement
  (\<open>clplace.c\<close>) says which of them hold a key, the hash slot of a key follows Redis (\<open>pc_slot.h\<close>), the
  apply order (\<open>clorder.c\<close>) brings replicated sets and deletes into the table, the watermarks
  (\<open>clack.c\<close>, \<open>clackf.c\<close>) say how far deletes have become durable everywhere, the term file
  (\<open>clterm.c\<close>) numbers masterships, and requests that wait for other nodes are parked
  (\<open>clpend.c\<close>).  Frames are written with the cursors of \<open>clcodec.h\<close>; a sealed frame is taken once
  (\<open>clreplay.c\<close>).  A hash value is one byte string (\<open>hashrec.c\<close>), and key patterns are globs
  (\<open>pcglob.c\<close>).

  \<^bold>\<open>Conventions.\<close>  C integers are words of their width, except where a theory says that a count is a
  natural or an integer and why that is harmless.  A buffer is a list of bytes and a pointer into it
  an offset; an array is a list and a slot an index; a NULL result or a failure is \<open>None\<close> or the code
  the C function returns.  State is a record passed along; what comes from outside a
  component (the clock, whether memory is there, what a file operation answers) is an argument, so
  that the theorems hold for every behaviour of it.  Each operation is one transition under the
  lock the code holds; where the interleaving of finer steps is the point, the steps are separate
  (\<open>Clorder\<close>).

  \<^bold>\<open>Shared theories.\<close>
  \<^item> \<open>Prelude\<close>: machine types, byte runs of a buffer, list and word facts.
  \<^item> \<open>Tables\<close>: small arrays with linear search as maps; used by \<open>Clackf\<close>, \<open>Clpend\<close>, \<open>Slot\<close>, \<open>Clreplay\<close>.
  \<^item> \<open>Select\<close>: choosing by a comparison, with the contract \<open>ranking\<close>; \<open>Clplace\<close> interprets it on \<open>beats\<close>.
  \<^item> \<open>Decimal\<close>: printed and parsed decimals, signed sums; used by \<open>Hashrec\<close> and \<open>Clterm\<close>.

  \<^bold>\<open>Wire and cluster map.\<close>
  \<^item> \<open>Codec\<close> (\<open>clcodec.h\<close>): pack and unpack helpers, the bounded write and read cursors.  The
    locale \<open>wire_field\<close> is the contract of a field and is interpreted on the 16, 32 and 64 bit fields,
    and in \<open>Hashrec\<close> on the record's own.  Shown: a cursor is ok exactly when the frame fits, and reading
    gives back what was written.
  \<^item> \<open>Clmap\<close> (\<open>clmap.c\<close>): encode, decode, epochs, weights.  Shown: the round trip, and that
    whatever the decoder accepts is well-formed.
  \<^item> \<open>Clplace\<close> (\<open>clplace.c\<close>, \<open>pc_mix.h\<close>): weighted rendezvous hashing in fixed point.  Shown: owner,
    ranked list and set tests agree; a changed map moves keys only to or from changed nodes; the
    logarithm term is positive, bounded and antitone.
  \<^item> \<open>Slot\<close> (\<open>pc_slot.h\<close>): the eight tables as constants.  Shown: the sliced checksum is the bitwise one,
    and the hash-tag rule.

  \<^bold>\<open>The table\<close> (\<open>core/pcache_htable.c\<close>, \<open>core/pcache_opool.c\<close>).
  \<^item> \<open>Keyhash\<close>: the key hash and the identical-value check.  \<open>Lamport\<close>: the two clocks.
  \<^item> \<open>Chain\<close>: a bucket, its overflow chain and the packed counters.  \<open>Htable\<close>: table, pool, stores,
    accumulates, touches, removes, versions.  \<open>Htable_Inv\<close>, \<open>Htable_Ops\<close>: the invariant, the map the table
    stands for, and each operation's effect on it.
  \<^item> \<open>Htable_Read\<close>: the byte-parallel tag scan is the slot-by-slot lookup.
  \<^item> \<open>Htgrow\<close>, \<open>Htgrow_Inv\<close>, \<open>Htsweep\<close>: split, growth, constructor, chain check, sweep.
  \<^item> \<open>Drain\<close>, \<open>Drain_Inv\<close>: reads and writes while a resized table drains its predecessor.
  \<^item> \<open>Htable_Thms\<close>: what the table promises its callers, over arbitrary sequences of operations.

  \<^bold>\<open>Replication.\<close>
  \<^item> \<open>Clorder\<close> (\<open>clorder.c\<close>): the apply paths over the table, and the steps of a set and of a delete
    of one key on two threads.  The locale \<open>versioned_key\<close> is what the paths need of a table; it is
    interpreted on the table of \<open>Htable\<close>.  Shown: every interleaving ends as one of the two orders,
    and replicas converge.
  \<^item> \<open>Clack\<close> (\<open>clack.c\<close>): applied and synced intervals of delete numbers.  Runs are an inductive
    relation with a ghost log of what happened.  Shown: a reported mark covers only durable deletes, it
    catches up, a gap request is the first hole.
  \<^item> \<open>Clackf\<close> (\<open>clackf.c\<close>): the marks the members announce.  Shown: refinement to a map, the exact meaning of
    the lowest mark, the list of stuck members.
  \<^item> \<open>Clterm\<close> (\<open>clterm.c\<close>, \<open>fnv1a.h\<close>): the term and its file, with failing writes and crashes as steps.  Shown:
    no term is used twice; the file's text round-trips.
  \<^item> \<open>Clpend\<close>, \<open>Clpend_Thms\<close> (\<open>clpend.c\<close>, \<open>winctr.h\<close>): the table of parked requests, answers,
    verdicts, deadlines, completion queues.  Shown: occupancy, generations, one completion for each
    request, symmetric verdicts, the deadline pass, the queue as a bounded first-in first-out list.
  \<^item> \<open>Clreplay\<close> (\<open>clreplay.c\<close>): the senders' table and the windows.  Shown: a window is an exact record
    of what it took, and over any run of admissions a frame is taken once, except after its sender
    was let back to an older incarnation.

  \<^bold>\<open>Values and patterns.\<close>
  \<^item> \<open>Hashrec\<close> (\<open>hashrec.c\<close>): the byte record of a hash.  Shown: the validator accepts exactly the
    encodings of well-formed field lists; reading, setting, deleting and incrementing are the operations on
    that list.
  \<^item> \<open>Pcglob\<close> (\<open>pcglob.c\<close>): Shown: the matcher returns and agrees with the pattern language given by tokens.

  \<^bold>\<open>Bounds and fuel.\<close>  Loops over arrays and lists are structural or have a termination proof.  A
  chain in memory is a list of buckets, so a walk of it ends.  The glob loop is a partial function
  and its theorem says that it returns for every pattern and string.  Sweeping and growing are
  bounded by the arguments the code bounds them with, and their theorems give the result.  Constants of the
  code (bucket slots, window and table sizes, the reach of a generation number) keep their
  values; a theorem that depends on a range states it as a hypothesis, with a witness.

  \<^bold>\<open>Not modelled.\<close>
  \<^item> The memory model: the sequence locks of the readers, atomics and spin locks.  A read of the
    table is a read of one consistent chain, which is what the sequence lock is there to ensure.
  \<^item> The arena (\<open>core/pcache_arena.c\<close>) and the retirement of overflow regions: an allocation succeeds or
    fails as the environment says.
  \<^item> The float increment of \<open>hashrec.c\<close>, which computes in \<open>long double\<close>.
  \<^item> The evacuator, the walkers and the per-process statistics of the table.
  \<^item> The cluster plane, lanes, membership, log files, configuration, doors and tools: sockets, threads,
    timers, files and text over file-scope state.  They call the components above; what these
    need of them is an argument here.
\<close>

end
